(* ===== verification/Prelude.thy ===== *)
theory Prelude
  imports Complex_Main "HOL-Library.Word" "HOL-Library.Char_ord" "HOL-Library.List_Lexorder"
    "HOL-Library.Sublist"
begin

text \<open>
  Shared vocabulary of the development: machine integer types, the numeric values of the
  \<open>esp_err_t\<close> codes the firmware compares against, abnormal termination as a value, bounded
  C buffers, C strings, and the generic lemmas and collections the component theories use.
\<close>

unbundle bit_operations_syntax

named_theorems buffer_simps \<open>reading back what was written into a bounded buffer\<close>
named_theorems bounds_intros \<open>positions and lengths stay inside their buffers\<close>

section \<open>Machine types\<close>

type_synonym u8 = "8 word"
type_synonym u16 = "16 word"
type_synonym u32 = "32 word"
type_synonym u64 = "64 word"

text \<open>
  \<open>esp_err_t\<close> is a C \<open>int\<close>; the five codes below are the documented values of ESP-IDF's
  \<open>esp_err.h\<close>.
\<close>

type_synonym esp_err_t = int

definition ESP_OK :: esp_err_t where "ESP_OK = 0"
definition ESP_FAIL :: esp_err_t where "ESP_FAIL = -1"
definition ESP_ERR_INVALID_ARG :: esp_err_t where "ESP_ERR_INVALID_ARG = 0x102"
definition ESP_ERR_TIMEOUT :: esp_err_t where "ESP_ERR_TIMEOUT = 0x107"
definition ESP_ERR_INVALID_CRC :: esp_err_t where "ESP_ERR_INVALID_CRC = 0x109"

lemmas esp_err_defs = ESP_OK_def ESP_FAIL_def ESP_ERR_INVALID_ARG_def ESP_ERR_TIMEOUT_def
  ESP_ERR_INVALID_CRC_def

section \<open>Bounded buffers and C strings\<close>

text \<open>
  A C array is the list of its cells. \<open>mem_write buf off d\<close> is \<open>memcpy(buf + off, d, |d|)\<close>;
  a write that leaves the array is \<open>None\<close>, so that memory safety is a theorem and not an
  artefact of the model.
\<close>

definition mem_write :: "'a list \<Rightarrow> nat \<Rightarrow> 'a list \<Rightarrow> 'a list option" where
  "mem_write buf off d =
     (if off + length d \<le> length buf
      then Some (take off buf @ d @ drop (off + length d) buf) else None)"

abbreviation NUL :: char where "NUL \<equiv> CHR 0x00"

definition cstr :: "string \<Rightarrow> string" where
  "cstr buf = takeWhile (\<lambda>c. c \<noteq> NUL) buf"

text \<open>\<open>snprintf(dst, n, \<dots>)\<close> and \<open>strlcpy\<close> keep at most \<open>n - 1\<close> characters.\<close>

definition c_trunc :: "nat \<Rightarrow> string \<Rightarrow> string" where
  "c_trunc n s = take (n - 1) s"

lemma mem_write_length: "mem_write buf off d = Some buf' \<Longrightarrow> length buf' = length buf"
  by (auto simp: mem_write_def split: if_splits)

lemma mem_write_in_bounds [bounds_intros]:
  "off + length d \<le> length buf \<Longrightarrow> \<exists>buf'. mem_write buf off d = Some buf'"
  by (simp add: mem_write_def)

lemma mem_write_take [buffer_simps]:
  "mem_write buf off d = Some buf' \<Longrightarrow> take (off + length d) buf' = take off buf @ d"
  by (auto simp: mem_write_def split: if_splits)

lemma mem_write_take_less [buffer_simps]:
  "mem_write buf off d = Some buf' \<Longrightarrow> n \<le> off \<Longrightarrow> take n buf' = take n buf"
  by (auto simp: mem_write_def min_def split: if_splits)

lemma mem_write_nth:
  "mem_write buf off d = Some buf' \<Longrightarrow> i < length d \<Longrightarrow> buf' ! (off + i) = d ! i"
  by (auto simp: mem_write_def nth_append split: if_splits)

lemma cstr_append_NUL [buffer_simps]:
  "NUL \<notin> set s \<Longrightarrow> cstr (s @ NUL # t) = s"
  unfolding cstr_def by (induction s) auto

lemma cstr_idem [simp]: "cstr (cstr s) = cstr s"
  by (simp add: cstr_def)

lemma NUL_notin_cstr [simp]: "NUL \<notin> set (cstr s)"
  by (auto simp: cstr_def dest: set_takeWhileD)

lemma cstr_id: "NUL \<notin> set s \<Longrightarrow> cstr s = s"
  unfolding cstr_def by (induction s) auto

lemma length_cstr_le [bounds_intros]: "length (cstr s) \<le> length s"
  by (simp add: cstr_def length_takeWhile_le)

lemma length_c_trunc [simp]: "length (c_trunc n s) = min (n - 1) (length s)"
  by (simp add: c_trunc_def min.commute)

lemma take_append_take [buffer_simps]: "take n (take n xs @ ys) = take n (xs @ ys)"
  by (cases "length xs \<le> n") simp_all

lemma c_trunc_fits: "length s < n \<Longrightarrow> c_trunc n s = s"
  by (simp add: c_trunc_def)

section \<open>Decimal digits\<close>

definition digit_char :: "nat \<Rightarrow> char" where
  "digit_char d = char_of (48 + d)"

definition is_digit :: "char \<Rightarrow> bool" where
  "is_digit c \<longleftrightarrow> CHR ''0'' \<le> c \<and> c \<le> CHR ''9''"

definition digit_val :: "char \<Rightarrow> nat" where
  "digit_val c = of_char c - 48"

fun dec :: "nat \<Rightarrow> string" where
  "dec n = (if n < 10 then [digit_char n] else dec (n div 10) @ [digit_char (n mod 10)])"

declare dec.simps [simp del]

definition undec :: "string \<Rightarrow> nat" where
  "undec s = foldl (\<lambda>v c. v * 10 + digit_val c) 0 s"

lemma of_char_digit_char [simp]: "d < 10 \<Longrightarrow> of_char (digit_char d) = 48 + d"
  by (simp add: digit_char_def)

lemma is_digit_digit_char [simp]: "d < 10 \<Longrightarrow> is_digit (digit_char d)"
  by (simp add: is_digit_def less_eq_char_def)

lemma digit_val_digit_char [simp]: "d < 10 \<Longrightarrow> digit_val (digit_char d) = d"
  by (simp add: digit_val_def)

lemma dec_nonempty [simp]: "dec n \<noteq> []"
  by (subst dec.simps) simp

lemma dec_digits: "c \<in> set (dec n) \<Longrightarrow> is_digit c"
proof (induction n rule: dec.induct)
  case (1 n)
  then show ?case by (cases "n < 10") (auto simp: dec.simps [of n])
qed

lemma undec_snoc: "undec (s @ [c]) = undec s * 10 + digit_val c"
  by (simp add: undec_def)

lemma undec_dec [simp]: "undec (dec n) = n"
proof (induction n rule: dec.induct)
  case (1 n)
  then show ?case
    by (cases "n < 10") (simp_all add: dec.simps [of n] undec_snoc, simp add: undec_def)
qed

lemma length_dec: "n < 10 ^ k \<Longrightarrow> 0 < k \<Longrightarrow> length (dec n) \<le> k"
proof (induction n arbitrary: k rule: dec.induct)
  case (1 n)
  show ?case
  proof (cases "n < 10")
    case False
    with 1(2,3) have k: "1 < k" by (cases "k = 1") auto
    then have "n div 10 < 10 ^ (k - 1)"
      using 1(2) by (simp add: less_mult_imp_div_less power_eq_if [of 10 k] mult.commute)
    with 1(1) False k have "length (dec (n div 10)) \<le> k - 1" by simp
    with False k show ?thesis by (simp add: dec.simps [of n])
  qed (use 1 in \<open>simp add: dec.simps [of n]\<close>)
qed

section \<open>Append-with-truncation buffers\<close>

text \<open>
  Three places of the firmware collect data that arrives in chunks into a fixed array, keep
  one cell for the terminating NUL and drop what does not fit: the HTTP handler of the
  Firebase client, the HTTP handler of the geolocation request and the AT-command
  accumulator. The contract they share: the part of a chunk that still fits is appended, the
  NUL is written behind it, nothing is ever written outside the array.
\<close>

locale chunk_buffer =
  fixes append :: "'s \<Rightarrow> string \<Rightarrow> 's option"
    and content :: "'s \<Rightarrow> string"
    and capacity :: "'s \<Rightarrow> nat"
    and invar :: "'s \<Rightarrow> bool"
  assumes append_ok: "invar s \<Longrightarrow> \<exists>s'. append s d = Some s'"
    and append_invar: "invar s \<Longrightarrow> append s d = Some s' \<Longrightarrow> invar s'"
    and append_capacity: "invar s \<Longrightarrow> append s d = Some s' \<Longrightarrow> capacity s' = capacity s"
    and append_content: "invar s \<Longrightarrow> append s d = Some s' \<Longrightarrow>
          content s' = take (capacity s) (content s @ d)"
    and content_fits: "invar s \<Longrightarrow> length (content s) \<le> capacity s"
begin

fun append_all :: "'s \<Rightarrow> string list \<Rightarrow> 's option" where
  "append_all s [] = Some s"
| "append_all s (d # ds) = (case append s d of None \<Rightarrow> None | Some s' \<Rightarrow> append_all s' ds)"

lemma append_all_content:
  "invar s \<Longrightarrow> \<exists>s'. append_all s ds = Some s' \<and> invar s' \<and> capacity s' = capacity s \<and>
     content s' = take (capacity s) (content s @ concat ds)"
proof (induction ds arbitrary: s)
  case Nil
  then show ?case using content_fits [of s] by simp
next
  case (Cons d ds)
  obtain t where t: "append s d = Some t" using append_ok [OF Cons.prems] by blast
  note tp = append_invar [OF Cons.prems t] append_capacity [OF Cons.prems t]
    append_content [OF Cons.prems t]
  from Cons.IH [OF tp(1)] obtain s' where "append_all t ds = Some s'" "invar s'"
    "capacity s' = capacity t" "content s' = take (capacity t) (content t @ concat ds)"
    by blast
  with t tp(2,3) show ?case by (simp add: take_append_take [of _ "content s @ d", simplified append_assoc] del: take_append)
qed

end

end
