(* ===== verification/Ieee.thy ===== *)
theory Ieee
  imports Prelude
begin

text \<open>
  The C and C++ floating point arithmetic the firmware computes with: a \<open>float\<close> or \<open>double\<close>
  operation is the exact rational result rounded to the nearest representable value, ties to
  even. \<open>rnd p emin\<close> is that rounding for \<open>p\<close> significant bits and least exponent \<open>emin\<close>;
  \<open>rnd_float\<close> and \<open>rnd_double\<close> are the two instances. The locale \<open>rounding\<close> states the two
  laws the numeric properties of the firmware rest on (rounding is monotone and leaves
  representable values alone), and both instances are shown to satisfy it. Overflow to
  infinity is not part of \<open>rnd\<close>: the sensor values it is used for are bounded (theory
  \<open>Sensors\<close>).
\<close>

section \<open>Round half to even\<close>

definition rhe :: "rat \<Rightarrow> int" where
  "rhe q = (let f = \<lfloor>q\<rfloor>; r = q - of_int f in
     if r < 1 / 2 then f else if r > 1 / 2 then f + 1 else if even f then f else f + 1)"

lemma rhe_of_int [simp]: "rhe (of_int n) = n"
  by (simp add: rhe_def)

lemma rhe_bounds: "\<lfloor>q\<rfloor> \<le> rhe q" "rhe q \<le> \<lfloor>q\<rfloor> + 1"
  by (auto simp: rhe_def Let_def)

lemma rhe_mono: "x \<le> y \<Longrightarrow> rhe x \<le> rhe y"
proof (cases "\<lfloor>x\<rfloor> = \<lfloor>y\<rfloor>")
  case True
  assume "x \<le> y"
  with True show ?thesis by (auto simp: rhe_def Let_def)
next
  case False
  assume "x \<le> y"
  then have "\<lfloor>x\<rfloor> \<le> \<lfloor>y\<rfloor>" by (rule floor_mono)
  with False have "\<lfloor>x\<rfloor> + 1 \<le> \<lfloor>y\<rfloor>" by simp
  with rhe_bounds(2) [of x] rhe_bounds(1) [of y] show ?thesis by linarith
qed

lemma rhe_uminus: "rhe (- q) = - rhe q"
proof (cases "q = of_int \<lfloor>q\<rfloor>")
  case True
  then have "rhe q = \<lfloor>q\<rfloor>" "rhe (- q) = - \<lfloor>q\<rfloor>"
    by (metis rhe_of_int, metis of_int_minus rhe_of_int)
  then show ?thesis by simp
next
  case False
  define f where "f = \<lfloor>q\<rfloor>"
  have "of_int f \<le> q" "q < of_int f + 1" unfolding f_def by linarith+
  moreover have "of_int f \<noteq> q" using False unfolding f_def by metis
  ultimately have "of_int f < q" "q < of_int f + 1" by simp_all
  then have fl: "\<lfloor>- q\<rfloor> = - f - 1" by (simp add: floor_eq_iff)
  show ?thesis unfolding rhe_def Let_def fl f_def [symmetric] by auto
qed

lemma rhe_le_int: "x \<le> of_int n \<Longrightarrow> rhe x \<le> n"
  using rhe_mono [of x "of_int n"] by simp

lemma int_le_rhe: "of_int n \<le> x \<Longrightarrow> n \<le> rhe x"
  using rhe_mono [of "of_int n" x] by simp

lemma rhe_dist: "\<bar>of_int (rhe q) - q\<bar> \<le> 1 / 2"
proof -
  have "of_int \<lfloor>q\<rfloor> \<le> q" "q < of_int \<lfloor>q\<rfloor> + 1" by linarith+
  then show ?thesis by (auto simp: rhe_def Let_def abs_le_iff)
qed

section \<open>Binary exponent of a positive rational\<close>

fun ilog2 :: "nat \<Rightarrow> nat" where
  "ilog2 n = (if n \<le> 1 then 0 else Suc (ilog2 (n div 2)))"

declare ilog2.simps [simp del]

lemma ilog2_bounds: "0 < n \<Longrightarrow> 2 ^ ilog2 n \<le> n \<and> n < 2 ^ Suc (ilog2 n)"
proof (induction n rule: ilog2.induct)
  case (1 n)
  show ?case
  proof (cases "n \<le> 1")
    case True
    with 1 show ?thesis by (simp add: ilog2.simps)
  next
    case False
    with 1 have "2 ^ ilog2 (n div 2) \<le> n div 2 \<and> n div 2 < 2 ^ Suc (ilog2 (n div 2))" by simp
    with False show ?thesis by (subst (1 2) ilog2.simps) auto
  qed
qed

definition elog :: "rat \<Rightarrow> int" where
  "elog q = (let (n, d) = quotient_of q; k = int (ilog2 (nat n)) - int (ilog2 (nat d))
     in if 2 powi k \<le> q then k else k - 1)"

lemma elog_bounds:
  assumes "0 < q"
  shows "2 powi (elog q) \<le> q" "q < 2 powi (elog q + 1)"
proof -
  obtain n d where nd: "quotient_of q = (n, d)" by force
  have d: "0 < d" using quotient_of_denom_pos [OF nd] .
  have q: "q = of_int n / of_int d" using quotient_of_div [OF nd] .
  with assms d have n: "0 < n" by (simp add: zero_less_divide_iff)
  define a b where "a = ilog2 (nat n)" and "b = ilog2 (nat d)"
  have nb: "(2::rat) ^ a \<le> of_int n" "of_int n < (2::rat) ^ Suc a"
    using ilog2_bounds [of "nat n"] n unfolding a_def
    by (auto simp flip: of_nat_le_iff [where 'a = rat] of_nat_less_iff [where 'a = rat])
  have db: "(2::rat) ^ b \<le> of_int d" "of_int d < (2::rat) ^ Suc b"
    using ilog2_bounds [of "nat d"] d unfolding b_def
    by (auto simp flip: of_nat_le_iff [where 'a = rat] of_nat_less_iff [where 'a = rat])
  have dq: "0 < (of_int d :: rat)" using d by simp
  have pk: "(2::rat) powi (int a - int b) = 2 ^ a / 2 ^ b"
    by (simp add: power_int_diff)
  have "q * of_int d < 2 * 2 ^ a" using nb(2) q dq by simp
  moreover have "q * 2 ^ b \<le> q * of_int d" using db(1) assms by simp
  ultimately have "q * 2 ^ b < 2 * 2 ^ a" by simp
  then have hi: "q < 2 powi (int a - int b + 1)"
    using pk by (simp add: power_int_add pos_less_divide_eq)
  have "2 ^ a \<le> q * of_int d" using nb(1) q dq by simp
  moreover have "q * of_int d < q * (2 * 2 ^ b)" using db(2) assms by simp
  ultimately have "2 ^ a < 2 * q * 2 ^ b" by (simp add: mult.assoc mult.left_commute)
  then have lo: "2 powi (int a - int b - 1) < q"
    using pk by (simp add: power_int_diff power_int_add pos_divide_less_eq field_simps)
  have el: "elog q = (if 2 powi (int a - int b) \<le> q then int a - int b else int a - int b - 1)"
    unfolding elog_def nd a_def b_def by simp
  show "2 powi (elog q) \<le> q" "q < 2 powi (elog q + 1)"
    using hi lo unfolding el by auto
qed

section \<open>Rounding to a binary format\<close>

definition ulp_exp :: "nat \<Rightarrow> int \<Rightarrow> rat \<Rightarrow> int" where
  "ulp_exp p emin q = max (elog \<bar>q\<bar> - (int p - 1)) emin"

definition rnd :: "nat \<Rightarrow> int \<Rightarrow> rat \<Rightarrow> rat" where
  "rnd p emin q =
     (if q = 0 then 0
      else let u = 2 powi (ulp_exp p emin q) in of_int (rhe (q / u)) * u)"

definition representable :: "nat \<Rightarrow> int \<Rightarrow> rat \<Rightarrow> bool" where
  "representable p emin x \<longleftrightarrow>
     (\<exists>m e. x = of_int m * 2 powi e \<and> \<bar>m\<bar> \<le> 2 ^ p \<and> emin \<le> e)"

lemma two_powi_pos [simp]: "0 < (2::rat) powi e"
  by (simp add: zero_less_power_int)

lemma two_powi_nz [simp]: "(2::rat) powi e \<noteq> 0"
  using two_powi_pos [of e] by linarith

lemma powi_le_iff: "(2::rat) powi a \<le> 2 powi b \<longleftrightarrow> a \<le> b"
  by (metis linorder_not_le one_less_numeral_iff power_int_increasing
      power_int_strict_increasing less_imp_le semiring_norm(76))

lemma powi_less_iff: "(2::rat) powi a < 2 powi b \<longleftrightarrow> a < b"
  using powi_le_iff [of b a] by linarith

lemma powi_split: "a \<le> b \<Longrightarrow> (2::rat) powi b = of_int (2 ^ nat (b - a)) * 2 powi a"
  using power_int_add [of "2::rat" "b - a" a] by (simp add: power_int_def)

lemma rnd_zero [simp]: "rnd p emin 0 = 0"
  by (simp add: rnd_def)

lemma rnd_uminus: "rnd p emin (- q) = - rnd p emin q"
  by (simp add: rnd_def Let_def ulp_exp_def rhe_uminus)

lemma rnd_eq: "rnd p emin q = of_int (rhe (q / 2 powi (ulp_exp p emin q))) * 2 powi (ulp_exp p emin q)"
  by (cases "q = 0") (simp_all add: rnd_def Let_def rhe_of_int [of 0, simplified])

text \<open>An integer multiple of the last place of \<open>q\<close> bounds the rounded value as it bounds \<open>q\<close>.\<close>

lemma rnd_le_multiple:
  assumes "q \<le> of_int n * 2 powi (ulp_exp p emin q)"
  shows "rnd p emin q \<le> of_int n * 2 powi (ulp_exp p emin q)"
proof -
  have "q / 2 powi (ulp_exp p emin q) \<le> of_int n"
    using assms by (simp add: pos_divide_le_eq)
  then have "rhe (q / 2 powi (ulp_exp p emin q)) \<le> n" by (rule rhe_le_int)
  then show ?thesis unfolding rnd_eq by simp
qed

lemma multiple_le_rnd:
  assumes "of_int n * 2 powi (ulp_exp p emin q) \<le> q"
  shows "of_int n * 2 powi (ulp_exp p emin q) \<le> rnd p emin q"
proof -
  have "of_int n \<le> q / 2 powi (ulp_exp p emin q)"
    using assms by (simp add: pos_le_divide_eq)
  then have "n \<le> rhe (q / 2 powi (ulp_exp p emin q))" by (rule int_le_rhe)
  then show ?thesis unfolding rnd_eq by simp
qed

lemma rnd_multiple:
  "q = of_int n * 2 powi (ulp_exp p emin q) \<Longrightarrow> rnd p emin q = q"
  using rnd_le_multiple [of q n p emin] multiple_le_rnd [of n p emin q] by simp

lemma rnd_mono_pos:
  assumes p: "1 \<le> p" and xy: "0 < x" "x \<le> y"
  shows "rnd p emin x \<le> rnd p emin y"
proof (cases "ulp_exp p emin x = ulp_exp p emin y")
  case True
  with xy show ?thesis unfolding rnd_eq
    by (auto intro!: mult_right_mono rhe_mono divide_right_mono simp: less_imp_le)
next
  case False
  define ex ey ly where "ex = ulp_exp p emin x" and "ey = ulp_exp p emin y" and "ly = elog y"
  have "2 powi (elog x) \<le> x" "y < 2 powi (ly + 1)"
    using elog_bounds xy unfolding ly_def by auto
  with xy have "(2::rat) powi (elog x) < 2 powi (ly + 1)" by linarith
  then have "elog x \<le> ly" by (simp add: powi_less_iff)
  with False xy have lt: "ex < ey" unfolding ex_def ey_def ly_def ulp_exp_def by auto
  with p xy have ey: "ey \<le> ly" unfolding ey_def ex_def ly_def ulp_exp_def by auto
  have "elog x < ly" using lt xy unfolding ey_def ex_def ly_def ulp_exp_def by auto
  then have "x \<le> 2 powi ly" using elog_bounds(2) [of x] xy powi_le_iff [of "elog x + 1" ly]
    by linarith
  then have "rnd p emin x \<le> 2 powi ly"
    using rnd_le_multiple [of x "2 ^ nat (ly - ex)" p emin] powi_split [of ex ly] lt ey
    unfolding ex_def by simp
  moreover have "2 powi ly \<le> rnd p emin y"
    using multiple_le_rnd [of "2 ^ nat (ly - ey)" p emin y] powi_split [of ey ly] ey
      elog_bounds(1) [of y] xy unfolding ey_def ly_def by simp
  ultimately show ?thesis by linarith
qed

lemma rnd_nonneg: "0 \<le> q \<Longrightarrow> 0 \<le> rnd p emin q"
  using multiple_le_rnd [of 0 p emin q] by simp

lemma rnd_mono:
  assumes p: "1 \<le> p" and xy: "x \<le> y"
  shows "rnd p emin x \<le> rnd p emin y"
proof -
  consider "0 < x" | "x \<le> 0" "0 \<le> y" | "y < 0" by linarith
  then show ?thesis
  proof cases
    case 1
    with p xy show ?thesis by (simp add: rnd_mono_pos)
  next
    case 2
    then have "0 \<le> rnd p emin (- x)" "0 \<le> rnd p emin y" by (simp_all add: rnd_nonneg)
    then show ?thesis by (simp add: rnd_uminus)
  next
    case 3
    with xy rnd_mono_pos [OF p, of "- y" "- x" emin] show ?thesis by (simp add: rnd_uminus)
  qed
qed

lemma rnd_representable:
  assumes p: "1 \<le> p" and x: "representable p emin x"
  shows "rnd p emin x = x"
proof (cases "x = 0")
  case False
  obtain m e where xm: "x = of_int m * 2 powi e" and m: "\<bar>m\<bar> \<le> 2 ^ p" and e: "emin \<le> e"
    using x unfolding representable_def by blast
  define u where "u = ulp_exp p emin x"
  show ?thesis
  proof (cases "u \<le> e")
    case True
    then have "x = of_int (m * 2 ^ nat (e - u)) * 2 powi u"
      using xm powi_split [of u e] by simp
    then show ?thesis unfolding u_def by (rule rnd_multiple)
  next
    case gt: False
    with e have u: "u = elog \<bar>x\<bar> - (int p - 1)" unfolding u_def ulp_exp_def by auto
    have "of_int \<bar>m\<bar> \<le> (2::rat) ^ p" using m by (metis of_int_le_iff of_int_numeral of_int_power)
    then have le: "\<bar>x\<bar> \<le> 2 powi (int p + e)"
      unfolding xm by (simp add: abs_mult power_int_add)
    have ge: "2 powi (u + int p - 1) \<le> \<bar>x\<bar>" using elog_bounds(1) [of "\<bar>x\<bar>"] False u by simp
    then have "u + int p - 1 \<le> int p + e" using le powi_le_iff order_trans by blast
    with gt have ue: "u = e + 1" by simp
    with le ge have "\<bar>x\<bar> = 2 powi (u + (int p - 1))" by (simp add: algebra_simps)
    also have "\<dots> = of_int (2 ^ (p - 1)) * 2 powi u"
      using powi_split [of u "u + (int p - 1)"] p by (simp add: nat_diff_distrib)
    finally have "x = of_int (2 ^ (p - 1)) * 2 powi u \<or> x = of_int (- (2 ^ (p - 1))) * 2 powi u"
      by (auto simp: abs_if split: if_splits)
    then show ?thesis unfolding u_def using rnd_multiple by blast
  qed
qed simp

lemma elog_eq: "2 powi k \<le> q \<Longrightarrow> q < 2 powi (k + 1) \<Longrightarrow> elog q = k"
proof -
  assume a: "2 powi k \<le> q" "q < 2 powi (k + 1)"
  then have "0 < q" using two_powi_pos [of k] by linarith
  with a elog_bounds [of q] have "k < elog q + 1" "elog q < k + 1"
    by (meson le_less_trans powi_less_iff)+
  then show ?thesis by simp
qed

section \<open>The two formats\<close>

definition rnd_float :: "rat \<Rightarrow> rat" where "rnd_float = rnd 24 (-149)"
definition rnd_double :: "rat \<Rightarrow> rat" where "rnd_double = rnd 53 (-1074)"
definition is_float :: "rat \<Rightarrow> bool" where "is_float = representable 24 (-149)"
definition is_double :: "rat \<Rightarrow> bool" where "is_double = representable 53 (-1074)"

locale rounding =
  fixes rd :: "rat \<Rightarrow> rat" and rep :: "rat \<Rightarrow> bool"
  assumes rd_mono: "x \<le> y \<Longrightarrow> rd x \<le> rd y"
    and rd_rep: "rep x \<Longrightarrow> rd x = x"
begin

lemma rd_le: "x \<le> z \<Longrightarrow> rep z \<Longrightarrow> rd x \<le> z"
  using rd_mono [of x z] rd_rep [of z] by simp

lemma le_rd: "z \<le> x \<Longrightarrow> rep z \<Longrightarrow> z \<le> rd x"
  using rd_mono [of z x] rd_rep [of z] by simp

lemma rd_between: "lo \<le> x \<Longrightarrow> x \<le> hi \<Longrightarrow> rep lo \<Longrightarrow> rep hi \<Longrightarrow> lo \<le> rd x \<and> rd x \<le> hi"
  by (simp add: rd_le le_rd)

end

interpretation float: rounding rnd_float is_float
  by unfold_locales (auto simp: rnd_float_def is_float_def rnd_mono rnd_representable)

interpretation double: rounding rnd_double is_double
  by unfold_locales (auto simp: rnd_double_def is_double_def rnd_mono rnd_representable)

lemma is_float_int: "\<bar>n\<bar> \<le> 2 ^ 24 \<Longrightarrow> is_float (of_int n)"
  unfolding is_float_def representable_def by (rule exI [of _ n], rule exI [of _ 0]) simp

lemma is_double_int: "\<bar>n\<bar> \<le> 2 ^ 53 \<Longrightarrow> is_double (of_int n)"
  unfolding is_double_def representable_def by (rule exI [of _ n], rule exI [of _ 0]) simp

text \<open>A small integer multiple of a \<open>float\<close> is a \<open>double\<close>: the sums of a batch are exact bounds.\<close>

lemma is_double_int_mult_float:
  assumes "is_float x" "\<bar>n\<bar> \<le> 2 ^ 29"
  shows "is_double (of_int n * x)"
proof -
  obtain m e where x: "x = of_int m * 2 powi e" and m: "\<bar>m\<bar> \<le> 2 ^ 24" and e: "-149 \<le> e"
    using assms(1) unfolding is_float_def representable_def by blast
  have "\<bar>n * m\<bar> \<le> 2 ^ 29 * 2 ^ 24" unfolding abs_mult using assms(2) m by (intro mult_mono) auto
  then have "of_int n * x = of_int (n * m) * 2 powi e \<and> \<bar>n * m\<bar> \<le> 2 ^ 53 \<and> -1074 \<le> e"
    using x e by simp
  then show ?thesis unfolding is_double_def representable_def by blast
qed

lemma is_double_float: "is_float x \<Longrightarrow> is_double x"
  using is_double_int_mult_float [of x 1] by simp

end
