(* ===== verification/Sensors.thy ===== *)
theory Sensors
  imports Ieee
begin

text \<open>
  The sensor component (\<open>src/main/sensors.c\<close>, \<open>sensors.h\<close>): the CRC-8 of the SEN5x, the I2C
  command sequences of both sensors, \<open>sensors_read\<close> with its ready-polling loop and its error
  returns, initialisation, and the JSON payload of a measurement. The I2C master driver is
  code outside the repository: it is the record \<open>i2c_driver\<close>, an argument of every operation
  that talks to the bus, over an arbitrary state \<open>'w\<close> of the outside world. Delays and log
  output have no effect on the modelled state.
\<close>

section \<open>CRC-8\<close>

definition crc_bit :: "u8 \<Rightarrow> u8" where
  "crc_bit crc = (if crc AND 0x80 \<noteq> 0 then push_bit 1 crc XOR 0x31 else push_bit 1 crc)"

definition crc_byte :: "u8 \<Rightarrow> u8 \<Rightarrow> u8" where
  "crc_byte crc d = (crc_bit ^^ 8) (crc XOR d)"

definition sen5x_crc8 :: "u8 list \<Rightarrow> u8" where
  "sen5x_crc8 data = foldl crc_byte 0xFF data"

section \<open>State, data and driver\<close>

record SensorData =
  co2 :: u16
  scd_temp :: rat
  scd_hum :: rat
  pm1p0 :: rat
  pm2p5 :: rat
  pm4p0 :: rat
  pm10p0 :: rat
  voc :: rat
  nox :: rat
  sen_temp :: rat
  sen_hum :: rat
  avg_temp :: rat
  avg_hum :: rat

type_synonym i2c_handle = "nat option"

record 'w i2c_driver =
  i2c_new_master_bus :: "'w \<Rightarrow> (esp_err_t \<times> nat) \<times> 'w"
  i2c_master_bus_add_device :: "i2c_handle \<Rightarrow> u8 \<Rightarrow> 'w \<Rightarrow> (esp_err_t \<times> nat) \<times> 'w"
  i2c_master_transmit :: "i2c_handle \<Rightarrow> u8 list \<Rightarrow> 'w \<Rightarrow> esp_err_t \<times> 'w"
  i2c_master_receive :: "i2c_handle \<Rightarrow> nat \<Rightarrow> 'w \<Rightarrow> (esp_err_t \<times> u8 list) \<times> 'w"

record sensors_state =
  s_i2c_bus :: i2c_handle
  s_scd4x_dev :: i2c_handle
  s_sen5x_dev :: i2c_handle
  g_city_state :: string

definition SCD4X_ADDR :: u8 where "SCD4X_ADDR = 0x62"
definition SEN5X_ADDR :: u8 where "SEN5X_ADDR = 0x69"

definition sensors_state0 :: sensors_state where
  "sensors_state0 = \<lparr>s_i2c_bus = None, s_scd4x_dev = None, s_sen5x_dev = None,
     g_city_state = ''----''\<rparr>"

text \<open>A receive buffer of \<open>n\<close> bytes: what the driver delivered, cut or padded to the array.\<close>

definition fit :: "nat \<Rightarrow> u8 list \<Rightarrow> u8 list" where
  "fit n bs = take n (bs @ replicate n 0)"

definition be16 :: "u8 \<Rightarrow> u8 \<Rightarrow> u16" where
  "be16 hi lo = push_bit 8 (ucast hi) OR ucast lo"

definition f_of :: "u16 \<Rightarrow> rat" where
  "f_of w = of_nat (unat w)"

section \<open>SCD4x\<close>

definition scd4x_start_measurement :: "'w i2c_driver \<Rightarrow> sensors_state \<Rightarrow> 'w \<Rightarrow> esp_err_t \<times> 'w" where
  "scd4x_start_measurement drv s w = i2c_master_transmit drv (s_scd4x_dev s) [0x21, 0xB1] w"

definition scd4x_read_measurement ::
  "'w i2c_driver \<Rightarrow> sensors_state \<Rightarrow> 'w \<Rightarrow> (esp_err_t + u16 \<times> rat \<times> rat) \<times> 'w" where
  "scd4x_read_measurement drv s w =
    (let (ret, w) = i2c_master_transmit drv (s_scd4x_dev s) [0xEC, 0x05] w in
     if ret \<noteq> ESP_OK then (Inl ret, w) else
     let ((ret, bs), w) = i2c_master_receive drv (s_scd4x_dev s) 9 w in
     if ret \<noteq> ESP_OK then (Inl ret, w) else
     let data = fit 9 bs;
         c = be16 (data ! 0) (data ! 1);
         raw_temp = be16 (data ! 3) (data ! 4);
         raw_hum = be16 (data ! 6) (data ! 7);
         temperature = rnd_float (-45 + rnd_float (175 * rnd_float (f_of raw_temp / 65535)));
         humidity = rnd_float (100 * rnd_float (f_of raw_hum / 65535))
     in (Inr (c, temperature, humidity), w))"

section \<open>SEN5x\<close>

definition sen5x_device_reset :: "'w i2c_driver \<Rightarrow> sensors_state \<Rightarrow> 'w \<Rightarrow> esp_err_t \<times> 'w" where
  "sen5x_device_reset drv s w = i2c_master_transmit drv (s_sen5x_dev s) [0xD3, 0x04] w"

definition sen5x_start_measurement :: "'w i2c_driver \<Rightarrow> sensors_state \<Rightarrow> 'w \<Rightarrow> esp_err_t \<times> 'w" where
  "sen5x_start_measurement drv s w = i2c_master_transmit drv (s_sen5x_dev s) [0x00, 0x21] w"

definition sen5x_read_data_ready ::
  "'w i2c_driver \<Rightarrow> sensors_state \<Rightarrow> 'w \<Rightarrow> (esp_err_t + u8) \<times> 'w" where
  "sen5x_read_data_ready drv s w =
    (let (ret, w) = i2c_master_transmit drv (s_sen5x_dev s) [0x02, 0x02] w in
     if ret \<noteq> ESP_OK then (Inl ret, w) else
     let ((ret, bs), w) = i2c_master_receive drv (s_sen5x_dev s) 3 w in
     if ret \<noteq> ESP_OK then (Inl ret, w) else
     let resp = fit 3 bs in
     if sen5x_crc8 (take 2 resp) \<noteq> resp ! 2 then (Inl ESP_ERR_INVALID_CRC, w)
     else (Inr (resp ! 1), w))"

definition sen5x_read_measured_values ::
  "'w i2c_driver \<Rightarrow> sensors_state \<Rightarrow> nat \<Rightarrow> 'w \<Rightarrow> (esp_err_t + u8 list) \<times> 'w" where
  "sen5x_read_measured_values drv s buflen w =
    (let (ret, w) = i2c_master_transmit drv (s_sen5x_dev s) [0x03, 0xC4] w in
     if ret \<noteq> ESP_OK then (Inl ret, w) else
     let ((ret, bs), w) = i2c_master_receive drv (s_sen5x_dev s) buflen w in
     if ret \<noteq> ESP_OK then (Inl ret, w) else (Inr (fit buflen bs), w))"

text \<open>The loop over the eight 3-byte words: stops at the first word whose CRC is wrong.\<close>

fun sen5x_words :: "nat \<Rightarrow> u8 list \<Rightarrow> u16 list option" where
  "sen5x_words 0 buf = Some []"
| "sen5x_words (Suc n) (a # b # c # rest) =
     (if sen5x_crc8 [a, b] \<noteq> c then None
      else map_option (\<lambda>ws. be16 a b # ws) (sen5x_words n rest))"
| "sen5x_words (Suc n) _ = None"

definition sen5x_decode_measurement :: "u8 list \<Rightarrow> rat list option" where
  "sen5x_decode_measurement buf =
    (case sen5x_words 8 buf of
       None \<Rightarrow> None
     | Some values \<Rightarrow>
         Some [rnd_float (f_of (values ! 0) / 10), rnd_float (f_of (values ! 1) / 10),
               rnd_float (f_of (values ! 2) / 10), rnd_float (f_of (values ! 3) / 10),
               rnd_float (f_of (values ! 4) / 100), rnd_float (f_of (values ! 5) / 200),
               rnd_float (f_of (values ! 6) / 10), rnd_float (f_of (values ! 7) / 10)])"

section \<open>Initialisation and reading\<close>

definition sensors_init_all ::
  "'w i2c_driver \<Rightarrow> sensors_state \<Rightarrow> 'w \<Rightarrow> esp_err_t \<times> sensors_state \<times> 'w" where
  "sensors_init_all drv s w =
    (if s_i2c_bus s \<noteq> None then (ESP_OK, s, w) else
     let ((ret, h), w) = i2c_new_master_bus drv w in
     if ret \<noteq> ESP_OK then (ret, s, w) else
     let s = s\<lparr>s_i2c_bus := Some h\<rparr>;
         ((ret, h), w) = i2c_master_bus_add_device drv (s_i2c_bus s) SCD4X_ADDR w in
     if ret \<noteq> ESP_OK then (ret, s, w) else
     let s = s\<lparr>s_scd4x_dev := Some h\<rparr>;
         ((ret, h), w) = i2c_master_bus_add_device drv (s_i2c_bus s) SEN5X_ADDR w in
     if ret \<noteq> ESP_OK then (ret, s, w) else
     let s = s\<lparr>s_sen5x_dev := Some h\<rparr>;
         (_, w) = sen5x_device_reset drv s w;
         (_, w) = sen5x_start_measurement drv s w;
         (_, w) = scd4x_start_measurement drv s w
     in (ESP_OK, s, w))"

text \<open>
  \<open>do { \<dots> if (data_ready == 1) break; } while (--timeout > 0)\<close>: the counter is what is left of
  the thirty polls, the result the last value of \<open>data_ready\<close>.
\<close>

fun poll_data_ready ::
  "'w i2c_driver \<Rightarrow> sensors_state \<Rightarrow> nat \<Rightarrow> 'w \<Rightarrow> (esp_err_t + u8) \<times> 'w" where
  "poll_data_ready drv s timeout w =
    (let (r, w) = sen5x_read_data_ready drv s w in
     case r of
       Inl ret \<Rightarrow> (Inl ret, w)
     | Inr ready \<Rightarrow>
         if ready = 1 then (Inr ready, w)
         else if timeout - 1 > 0 then poll_data_ready drv s (timeout - 1) w
         else (Inr ready, w))"

declare poll_data_ready.simps [simp del]

definition sensors_read ::
  "'w i2c_driver \<Rightarrow> sensors_state \<Rightarrow> SensorData option \<Rightarrow> 'w \<Rightarrow> esp_err_t \<times> SensorData option \<times> 'w" where
  "sensors_read drv s out w =
    (case out of None \<Rightarrow> (ESP_ERR_INVALID_ARG, None, w) | Some d \<Rightarrow>
     case scd4x_read_measurement drv s w of (Inl ret, w) \<Rightarrow> (ret, out, w)
     | (Inr (c, st, sh), w) \<Rightarrow>
     case poll_data_ready drv s 30 w of (Inl ret, w) \<Rightarrow> (ret, out, w)
     | (Inr ready, w) \<Rightarrow>
     if ready \<noteq> 1 then (ESP_ERR_TIMEOUT, out, w) else
     case sen5x_read_measured_values drv s 24 w of (Inl ret, w) \<Rightarrow> (ret, out, w)
     | (Inr buf, w) \<Rightarrow>
     case sen5x_decode_measurement buf of None \<Rightarrow> (ESP_ERR_INVALID_CRC, out, w)
     | Some v \<Rightarrow>
       (let temp = v ! 5; rh = v ! 4 in
        (ESP_OK,
         Some (d\<lparr>co2 := c, scd_temp := st, scd_hum := sh,
                 pm1p0 := v ! 0, pm2p5 := v ! 1, pm4p0 := v ! 2, pm10p0 := v ! 3,
                 voc := v ! 6, nox := v ! 7, sen_temp := temp, sen_hum := rh,
                 avg_temp := rnd_float (rnd_float (st + temp) / 2),
                 avg_hum := rnd_float (rnd_float (sh + rh) / 2)\<rparr>), w)))"

section \<open>JSON payload\<close>

text \<open>
  \<open>%.<n>f\<close> of a finite value: the exact value rounded half to even to \<open>n\<close> decimals, which is
  what the C library prints. \<open>%u\<close> is the decimal representation.
\<close>

definition pad_left :: "nat \<Rightarrow> string \<Rightarrow> string" where
  "pad_left n s = replicate (n - length s) (CHR ''0'') @ s"

definition fmt_f :: "nat \<Rightarrow> rat \<Rightarrow> string" where
  "fmt_f n q = (let m = nat (rhe (\<bar>q\<bar> * 10 ^ n)) in
     (if q < 0 then ''-'' else []) @ dec (m div 10 ^ n) @ ''.'' @ pad_left n (dec (m mod 10 ^ n)))"

abbreviation quot :: string where "quot \<equiv> [CHR 0x22]"

definition key :: "string \<Rightarrow> string" where
  "key k = quot @ k @ quot @ '':''"

definition json_values :: "SensorData \<Rightarrow> string" where
  "json_values d =
     ''{'' @ key ''pm1p0'' @ fmt_f 2 (pm1p0 d) @ '','' @ key ''pm2p5'' @ fmt_f 2 (pm2p5 d) @ '','' @
     key ''pm4p0'' @ fmt_f 2 (pm4p0 d) @ '','' @ key ''pm10p0'' @ fmt_f 2 (pm10p0 d) @ '','' @
     key ''voc'' @ fmt_f 1 (voc d) @ '','' @ key ''nox'' @ fmt_f 1 (nox d) @ '','' @
     key ''cTe'' @ fmt_f 2 (avg_temp d) @ '','' @ key ''cHu'' @ fmt_f 2 (avg_hum d) @ '','' @
     key ''co2'' @ dec (unat (co2 d)) @ '',''"

definition json_str :: "string \<Rightarrow> string \<Rightarrow> string" where
  "json_str k v = key k @ quot @ v @ quot"

text \<open>
  The device id comes from \<open>privado.h\<close>, which is not in the repository: it is a parameter.
  The buffer afterwards holds the formatted text cut to \<open>buf_size - 1\<close> characters; with no
  buffer nothing is written.
\<close>

definition sensors_format_json ::
  "string \<Rightarrow> sensors_state \<Rightarrow> SensorData \<Rightarrow> string \<Rightarrow> string \<Rightarrow> string \<Rightarrow> nat \<Rightarrow> string option" where
  "sensors_format_json device_id s d time_str fecha_str inicio_str buf_size =
    (if buf_size = 0 then None else
     Some (c_trunc buf_size
       (json_values d @ json_str ''fecha'' fecha_str @ '','' @ json_str ''inicio'' inicio_str @ '','' @
        json_str ''ciudad'' (g_city_state s) @ '','' @ json_str ''hora'' time_str @ '','' @
        json_str ''id'' device_id @ ''}'')))"

definition sensors_set_city_state :: "string option \<Rightarrow> sensors_state \<Rightarrow> sensors_state" where
  "sensors_set_city_state city_state s =
    (case city_state of None \<Rightarrow> s
     | Some c \<Rightarrow> s\<lparr>g_city_state := take (if length c \<ge> 64 then 63 else length c) c\<rparr>)"

section \<open>The CRC detects transmission errors\<close>

lemma crc_bit_alt: "crc_bit x = push_bit 1 x XOR (if bit x 7 then 0x31 else 0)"
proof -
  have "x AND 0x80 = (if bit x 7 then 0x80 else 0)"
    by (rule bit_word_eqI) (auto simp: bit_simps numeral_2_eq_2 less_Suc_eq numeral_eq_Suc)
  then show ?thesis by (simp add: crc_bit_def)
qed

lemma crc_bit_xor: "crc_bit (x XOR y) = crc_bit x XOR crc_bit y"
  by (auto simp: crc_bit_alt push_bit_xor bit_xor_iff xor.assoc xor.left_commute)

lemma crc_bits_xor: "(crc_bit ^^ n) (x XOR y) = (crc_bit ^^ n) x XOR (crc_bit ^^ n) y"
  by (induction n) (simp_all add: crc_bit_xor)

lemma crc_byte_xor: "crc_byte (c XOR e) (d XOR f) = crc_byte c d XOR crc_byte e f"
  unfolding crc_byte_def by (simp flip: crc_bits_xor) (simp add: xor.assoc xor.left_commute)

lemma crc8_two_xor:
  "sen5x_crc8 [a XOR e, b XOR f] = sen5x_crc8 [a, b] XOR crc_byte (crc_byte 0 e) f"
  using crc_byte_xor [of "0xFF" 0 a e] crc_byte_xor [of "crc_byte 0xFF a" "crc_byte 0 e" b f]
  by (simp add: sen5x_crc8_def)

text \<open>A received word \<open>(a, b, c)\<close> is accepted when its CRC matches; \<open>flip i\<close> inverts bit \<open>i\<close> of it.\<close>

type_synonym frame = "u8 \<times> u8 \<times> u8"

definition crc_ok :: "frame \<Rightarrow> bool" where
  "crc_ok f = (case f of (a, b, c) \<Rightarrow> sen5x_crc8 [a, b] = c)"

definition error_mask :: "nat \<Rightarrow> frame" where
  "error_mask i = (if i < 8 then (push_bit i 1, 0, 0)
     else if i < 16 then (0, push_bit (i - 8) 1, 0) else (0, 0, push_bit (i - 16) 1))"

definition xor_frame :: "frame \<Rightarrow> frame \<Rightarrow> frame" where
  "xor_frame f e = (case (f, e) of ((a, b, c), (a', b', c')) \<Rightarrow> (a XOR a', b XOR b', c XOR c'))"

definition flip :: "nat \<Rightarrow> frame \<Rightarrow> frame" where
  "flip i f = xor_frame f (error_mask i)"

definition syndrome :: "frame \<Rightarrow> u8" where
  "syndrome e = (case e of (a, b, c) \<Rightarrow> crc_byte (crc_byte 0 a) b XOR c)"

lemma xor_cancel: "a XOR b = a XOR c \<longleftrightarrow> b = (c :: u8)"
proof
  assume "a XOR b = a XOR c"
  then have "a XOR (a XOR b) = a XOR (a XOR c)" by simp
  then show "b = c" by (simp add: xor.assoc [symmetric])
qed simp

lemma xor_zero_iff: "a XOR b = 0 \<longleftrightarrow> a = (b :: u8)"
  using xor_cancel [of a b a] by auto

lemma crc_ok_xor: "crc_ok f \<Longrightarrow> crc_ok (xor_frame f e) \<longleftrightarrow> syndrome e = 0"
  by (cases f; cases e)
    (auto simp: crc_ok_def xor_frame_def syndrome_def crc8_two_xor xor_cancel xor_zero_iff)

lemma syndrome_xor: "syndrome (xor_frame e f) = syndrome e XOR syndrome f"
proof (cases e; cases f)
  fix a b c a' b' c' assume e: "e = (a, b, c)" and f: "f = (a', b', c')"
  have "crc_byte (crc_byte 0 (a XOR a')) (b XOR b') =
    crc_byte (crc_byte 0 a) b XOR crc_byte (crc_byte 0 a') b'"
    using crc_byte_xor [of 0 0 a a'] by (simp add: crc_byte_xor)
  then show ?thesis unfolding e f syndrome_def xor_frame_def
    by (simp add: xor.assoc xor.left_commute)
qed

lemma crc_byte_step:
  "crc_byte c d = crc_bit (crc_bit (crc_bit (crc_bit (crc_bit (crc_bit (crc_bit (crc_bit (c XOR d))))))))"
  by (simp add: crc_byte_def numeral_eq_Suc)

lemma crc_bit_literal:
  "crc_bit 0 = 0" "crc_bit 1 = 2"
  "crc_bit (numeral k) =
     (if (numeral k :: u8) AND 0x80 \<noteq> 0 then push_bit 1 (numeral k) XOR 0x31
      else push_bit 1 (numeral k))"
  by (simp_all add: crc_bit_def)

lemma syndromes_distinct: "distinct (0 # map (syndrome \<circ> error_mask) [0..<24])"
  by (simp add: upt_conv_Cons crc_bit_literal crc_byte_step syndrome_def error_mask_def)

lemma syndrome_single: "i < 24 \<Longrightarrow> syndrome (error_mask i) \<noteq> 0"
  using syndromes_distinct by (auto simp: image_iff)

lemma syndrome_pair:
  assumes "i < 24" "j < 24" "i \<noteq> j"
  shows "syndrome (error_mask i) \<noteq> syndrome (error_mask j)"
proof -
  have "distinct (map (syndrome \<circ> error_mask) [0..<24])" using syndromes_distinct by simp
  from nth_eq_iff_index_eq [OF this, of i j] assms show ?thesis by simp
qed

lemma crc_ok_flip2:
  assumes "crc_ok f" "i < 24" "j < 24" "i \<noteq> j"
  shows "\<not> crc_ok (flip i (flip j f))"
proof -
  have "flip i (flip j f) = xor_frame f (xor_frame (error_mask j) (error_mask i))"
    by (cases f; cases "error_mask i"; cases "error_mask j")
      (simp add: flip_def xor_frame_def xor.assoc)
  then show ?thesis
    using assms syndrome_pair [of j i] by (simp add: crc_ok_xor syndrome_xor xor_zero_iff)
qed

section \<open>Ranges of the decoded values\<close>

lemma u16_bound: "unat (w :: u16) \<le> 65535"
proof -
  have "unat w < 2 ^ LENGTH(16)" by (rule unsigned_less)
  then show ?thesis by simp
qed

lemma f_of_bounds: "0 \<le> f_of w" "f_of w \<le> 65535"
proof -
  have "(of_nat (unat w) :: rat) \<le> of_nat 65535" by (subst of_nat_le_iff) (rule u16_bound)
  then show "f_of w \<le> 65535" by (simp add: f_of_def)
  show "0 \<le> f_of w" unfolding f_of_def by (rule of_nat_0_le_iff)
qed

lemma rnd_float_int_range:
  "of_int a \<le> x \<Longrightarrow> x \<le> of_int b \<Longrightarrow> \<bar>a\<bar> \<le> 2 ^ 24 \<Longrightarrow> \<bar>b\<bar> \<le> 2 ^ 24 \<Longrightarrow>
     of_int a \<le> rnd_float x \<and> rnd_float x \<le> of_int b"
  by (rule float.rd_between) (simp_all add: is_float_int)

definition in_range :: "int \<Rightarrow> int \<Rightarrow> rat \<Rightarrow> bool" where
  "in_range a b x \<longleftrightarrow> of_int a \<le> x \<and> x \<le> of_int b"

lemma in_range_rnd:
  "in_range a b x \<Longrightarrow> \<bar>a\<bar> \<le> 2 ^ 24 \<Longrightarrow> \<bar>b\<bar> \<le> 2 ^ 24 \<Longrightarrow> in_range a b (rnd_float x)"
  unfolding in_range_def using rnd_float_int_range by blast

lemma scd_scale_range:
  "in_range 0 100 (rnd_float (100 * rnd_float (f_of w / 65535)))"
  "in_range (-45) 130 (rnd_float (-45 + rnd_float (175 * rnd_float (f_of w / 65535))))"
proof -
  have "in_range 0 1 (f_of w / 65535)" using f_of_bounds [of w] by (simp add: in_range_def)
  then have u: "in_range 0 1 (rnd_float (f_of w / 65535))" by (rule in_range_rnd) simp_all
  then have "in_range 0 100 (100 * rnd_float (f_of w / 65535))" by (simp add: in_range_def)
  then show "in_range 0 100 (rnd_float (100 * rnd_float (f_of w / 65535)))"
    by (rule in_range_rnd) simp_all
  from u have "in_range 0 175 (175 * rnd_float (f_of w / 65535))" by (simp add: in_range_def)
  then have "in_range 0 175 (rnd_float (175 * rnd_float (f_of w / 65535)))"
    by (rule in_range_rnd) simp_all
  then have "in_range (-45) 130 (-45 + rnd_float (175 * rnd_float (f_of w / 65535)))"
    by (simp add: in_range_def)
  then show "in_range (-45) 130 (rnd_float (-45 + rnd_float (175 * rnd_float (f_of w / 65535))))"
    by (rule in_range_rnd) simp_all
qed

lemma sen_scale_range:
  "in_range 0 6554 (rnd_float (f_of w / 10))"
  "in_range 0 656 (rnd_float (f_of w / 100))"
  "in_range 0 328 (rnd_float (f_of w / 200))"
proof -
  have "in_range 0 6554 (f_of w / 10)" "in_range 0 656 (f_of w / 100)" "in_range 0 328 (f_of w / 200)"
    using f_of_bounds [of w] by (simp_all add: in_range_def)
  then show "in_range 0 6554 (rnd_float (f_of w / 10))" "in_range 0 656 (rnd_float (f_of w / 100))"
    "in_range 0 328 (rnd_float (f_of w / 200))"
    by (simp_all add: in_range_rnd)
qed

lemma mean2_range:
  assumes "in_range a b x" "in_range c d y" "\<bar>a + c\<bar> \<le> 2 ^ 24" "\<bar>b + d\<bar> \<le> 2 ^ 24"
    "2 * lo \<le> a + c" "b + d \<le> 2 * hi" "\<bar>lo\<bar> \<le> 2 ^ 24" "\<bar>hi\<bar> \<le> 2 ^ 24"
  shows "in_range lo hi (rnd_float (rnd_float (x + y) / 2))"
proof -
  have "in_range (a + c) (b + d) (x + y)" using assms(1,2) by (auto simp: in_range_def)
  then have "in_range (a + c) (b + d) (rnd_float (x + y))" by (rule in_range_rnd) (use assms in auto)
  moreover have "of_int (2 * lo) \<le> (of_int (a + c) :: rat)" "of_int (b + d) \<le> (of_int (2 * hi) :: rat)"
    using assms(5,6) by (simp_all only: of_int_le_iff)
  ultimately have "in_range lo hi (rnd_float (x + y) / 2)" by (simp add: in_range_def)
  then show ?thesis by (rule in_range_rnd) (use assms in auto)
qed

section \<open>Behaviour of the operations\<close>

lemma sen5x_words_length: "sen5x_words n buf = Some ws \<Longrightarrow> length ws = n"
  by (induction n buf arbitrary: ws rule: sen5x_words.induct) (auto split: if_splits)

text \<open>The decoder accepts a buffer exactly when every 3-byte word of it passes the CRC.\<close>

fun frames :: "u8 list \<Rightarrow> frame list" where
  "frames (a # b # c # rest) = (a, b, c) # frames rest"
| "frames _ = []"

lemma sen5x_words_iff:
  "length buf = 3 * n \<Longrightarrow>
     sen5x_words n buf =
       (if \<forall>f \<in> set (frames buf). crc_ok f
        then Some (map (\<lambda>(a, b, c). be16 a b) (frames buf)) else None)"
  by (induction n buf rule: sen5x_words.induct) (auto simp: crc_ok_def)

lemma length_fit [simp]: "length (fit n bs) = n"
  by (simp add: fit_def)

lemma sen5x_decode_iff:
  "length buf = 24 \<Longrightarrow>
     sen5x_decode_measurement buf \<noteq> None \<longleftrightarrow> (\<forall>f \<in> set (frames buf). crc_ok f)"
  using sen5x_words_iff [of buf 8] by (auto simp: sen5x_decode_measurement_def)

lemma sen5x_decode_range:
  assumes "sen5x_decode_measurement buf = Some v"
  shows "length v = 8" "\<forall>i \<in> {0, 1, 2, 3, 6, 7}. in_range 0 6554 (v ! i)"
    "in_range 0 656 (v ! 4)" "in_range 0 328 (v ! 5)"
  using assms by (auto simp: sen5x_decode_measurement_def sen_scale_range split: option.splits)

lemmas sensors_read_splits = option.splits sum.splits prod.splits if_splits

definition sensor_ranges :: "SensorData \<Rightarrow> bool" where
  "sensor_ranges d \<longleftrightarrow>
     in_range (-45) 130 (scd_temp d) \<and> in_range 0 100 (scd_hum d) \<and>
     (\<forall>f \<in> {pm1p0, pm2p5, pm4p0, pm10p0, voc, nox}. in_range 0 6554 (f d)) \<and>
     in_range 0 328 (sen_temp d) \<and> in_range 0 656 (sen_hum d) \<and>
     in_range (-23) 229 (avg_temp d) \<and> in_range 0 378 (avg_hum d)"

lemma scd4x_read_range:
  "scd4x_read_measurement drv s w = (Inr (c, st, sh), w') \<Longrightarrow>
     in_range (-45) 130 st \<and> in_range 0 100 sh"
  by (auto simp: scd4x_read_measurement_def Let_def scd_scale_range(1) scd_scale_range(2) [simplified]
      split: prod.splits if_splits)

lemma sensors_read_decomp:
  assumes "sensors_read drv s out w = (ESP_OK, Some d', w')"
  obtains c st sh w1 w2 w3 buf v d where "out = Some d"
    "scd4x_read_measurement drv s w = (Inr (c, st, sh), w1)"
    "poll_data_ready drv s 30 w1 = (Inr 1, w2)"
    "sen5x_read_measured_values drv s 24 w2 = (Inr buf, w3)"
    "sen5x_decode_measurement buf = Some v"
    "d' = d\<lparr>co2 := c, scd_temp := st, scd_hum := sh,
           pm1p0 := v ! 0, pm2p5 := v ! 1, pm4p0 := v ! 2, pm10p0 := v ! 3,
           voc := v ! 6, nox := v ! 7, sen_temp := v ! 5, sen_hum := v ! 4,
           avg_temp := rnd_float (rnd_float (st + v ! 5) / 2),
           avg_hum := rnd_float (rnd_float (sh + v ! 4) / 2)\<rparr>"
proof -
  have "scd4x_read_measurement drv s w \<noteq> (Inl ESP_OK, w1)" for w1
    by (auto simp: scd4x_read_measurement_def Let_def split: prod.splits if_splits)
  moreover have "poll_data_ready drv s n w1 \<noteq> (Inl ESP_OK, w2)" for n w1 w2
  proof (induction drv s n w1 rule: poll_data_ready.induct)
    case (1 drv s n w1)
    have "sen5x_read_data_ready drv s w1 \<noteq> (Inl ESP_OK, w2)"
      by (auto simp: sen5x_read_data_ready_def Let_def esp_err_defs split: prod.splits if_splits)
    with 1 show ?case
      by (auto simp: poll_data_ready.simps [of drv s n w1] Let_def split: sensors_read_splits)
  qed
  moreover have "sen5x_read_measured_values drv s n w1 \<noteq> (Inl ESP_OK, w2)" for n w1 w2
    by (auto simp: sen5x_read_measured_values_def Let_def split: prod.splits if_splits)
  ultimately show thesis using assms that unfolding sensors_read_def
    by (auto simp: Let_def esp_err_defs split: sensors_read_splits)
qed

lemma sensors_read_ranges:
  "sensors_read drv s out w = (ESP_OK, Some d, w') \<Longrightarrow> sensor_ranges d"
  by (erule sensors_read_decomp, drule scd4x_read_range, frule sen5x_decode_range(2),
      frule sen5x_decode_range(3), drule sen5x_decode_range(4))
    (auto simp: sensor_ranges_def intro: mean2_range)

lemma sensors_read_failure_keeps_output:
  "sensors_read drv s out w = (err, out', w') \<Longrightarrow> err \<noteq> ESP_OK \<Longrightarrow> out' = out"
  by (auto simp: sensors_read_def Let_def split: sensors_read_splits)

end
