(* ===== verification/Json_Tool.thy ===== *)
theory Json_Tool
  imports Ieee
begin

text \<open>
  Number and string conversion of the JSON library: \<open>src/components/jsoncpp/json_tool.h\<close> and
  the first part of \<open>json_writer.cpp\<close> (integers and doubles to text, UTF-8 decoding and
  encoding, quoting of strings). Characters are bytes, strings are byte strings. The theory
  ends with the round-trip laws these conversions obey.
\<close>

section \<open>Abnormal termination\<close>

text \<open>
  The component is built with \<open>JSON_USE_EXCEPTION=0\<close>: \<open>throwRuntimeError\<close>, \<open>throwLogicError\<close>,
  \<open>JSON_ASSERT\<close>, \<open>JSON_ASSERT_MESSAGE\<close> and \<open>JSON_FAIL_MESSAGE\<close> all end in \<open>abort()\<close>.
  \<open>Undefined\<close> marks the places where the C++ standard leaves the result open.
\<close>

datatype abort = RuntimeError string | LogicError string | Undefined string

type_synonym 'a outcome = "abort + 'a"

section \<open>UTF-8\<close>

type_synonym codepoint = u32

definition byte_char :: "u32 \<Rightarrow> char" where
  "byte_char w = char_of (unat (w AND 0xFF))"

definition char_byte :: "char \<Rightarrow> u32" where
  "char_byte c = word_of_nat (of_char c)"

definition codePointToUTF8 :: "codepoint \<Rightarrow> string" where
  "codePointToUTF8 cp =
    (if cp \<le> 0x7f then [byte_char cp]
     else if cp \<le> 0x7FF then
       [byte_char (0xC0 OR (0x1f AND drop_bit 6 cp)), byte_char (0x80 OR (0x3f AND cp))]
     else if cp \<le> 0xFFFF then
       [byte_char (0xE0 OR (0xf AND drop_bit 12 cp)), byte_char (0x80 OR (0x3f AND drop_bit 6 cp)),
        byte_char (0x80 OR (0x3f AND cp))]
     else if cp \<le> 0x10FFFF then
       [byte_char (0xF0 OR (0x7 AND drop_bit 18 cp)), byte_char (0x80 OR (0x3f AND drop_bit 12 cp)),
        byte_char (0x80 OR (0x3f AND drop_bit 6 cp)), byte_char (0x80 OR (0x3f AND cp))]
     else [])"

text \<open>
  \<open>utf8ToCodepoint(s, e)\<close> reads one code point at \<open>s\<close> and moves \<open>s\<close> to its last byte; here
  the argument is the non-empty rest of the input from \<open>s\<close> on and the second component of the
  result is how many bytes \<open>s\<close> moved. The bytes after the first are \<open>char\<close>s converted to
  \<open>unsigned\<close> and masked with \<open>0x3F\<close>, so their sign extension does not matter.
\<close>

definition REPLACEMENT_CHARACTER :: codepoint where "REPLACEMENT_CHARACTER = 0xFFFD"

definition cont :: "char \<Rightarrow> u32" where
  "cont c = char_byte c AND 0x3F"

definition utf8ToCodepoint :: "string \<Rightarrow> codepoint \<times> nat" where
  "utf8ToCodepoint s =
    (let firstByte = char_byte (s ! 0) in
     if firstByte < 0x80 then (firstByte, 0)
     else if firstByte < 0xE0 then
       (if length s < 2 then (REPLACEMENT_CHARACTER, 0) else
        let calculated = push_bit 6 (firstByte AND 0x1F) OR cont (s ! 1) in
        (if calculated < 0x80 then REPLACEMENT_CHARACTER else calculated, 1))
     else if firstByte < 0xF0 then
       (if length s < 3 then (REPLACEMENT_CHARACTER, 0) else
        let calculated = push_bit 12 (firstByte AND 0x0F) OR push_bit 6 (cont (s ! 1)) OR cont (s ! 2) in
        (if calculated \<ge> 0xD800 \<and> calculated \<le> 0xDFFF then REPLACEMENT_CHARACTER
         else if calculated < 0x800 then REPLACEMENT_CHARACTER else calculated, 2))
     else if firstByte < 0xF8 then
       (if length s < 4 then (REPLACEMENT_CHARACTER, 0) else
        let calculated = push_bit 18 (firstByte AND 0x07) OR push_bit 12 (cont (s ! 1)) OR
              push_bit 6 (cont (s ! 2)) OR cont (s ! 3) in
        (if calculated < 0x10000 then REPLACEMENT_CHARACTER else calculated, 3))
     else (REPLACEMENT_CHARACTER, 0))"

section \<open>Quoting\<close>

definition hex_digit :: "nat \<Rightarrow> char" where
  "hex_digit n = ''0123456789abcdef'' ! n"

text \<open>
  \<open>hex2\<close> is the table of the two-digit lower case hexadecimal representations of 0 to 255;
  entry \<open>2 * i\<close> is the high and \<open>2 * i + 1\<close> the low digit of \<open>i\<close>.
\<close>

definition hex2 :: "nat \<Rightarrow> char" where
  "hex2 i = (if even i then hex_digit (i div 2 div 16) else hex_digit (i div 2 mod 16))"

definition toHex16Bit :: "u32 \<Rightarrow> string" where
  "toHex16Bit x =
    (let hi = unat (drop_bit 8 x AND 0xff); lo = unat (x AND 0xff) in
     [hex2 (2 * hi), hex2 (2 * hi + 1), hex2 (2 * lo), hex2 (2 * lo + 1)])"

abbreviation dquote :: char where "dquote \<equiv> CHR 0x22"
abbreviation bslash :: char where "bslash \<equiv> CHR 0x5C"

definition appendRaw :: "string \<Rightarrow> u32 \<Rightarrow> string" where
  "appendRaw result ch = result @ [byte_char ch]"

definition appendHex :: "string \<Rightarrow> u32 \<Rightarrow> string" where
  "appendHex result ch = result @ [bslash, CHR ''u''] @ toHex16Bit ch"

definition doesAnyCharRequireEscaping :: "string \<Rightarrow> bool" where
  "doesAnyCharRequireEscaping s =
     (\<exists>c \<in> set s. c = bslash \<or> c = dquote \<or> char_byte c < 0x20 \<or> char_byte c > 0x7F)"

definition escape_codepoint :: "string \<Rightarrow> codepoint \<Rightarrow> string" where
  "escape_codepoint result codepoint =
    (if codepoint < 0x20 then appendHex result codepoint
     else if codepoint < 0x80 then appendRaw result codepoint
     else if codepoint < 0x10000 then appendHex result codepoint
     else let codepoint = codepoint - 0x10000 in
       appendHex (appendHex result (0xd800 + (drop_bit 10 codepoint AND 0x3ff)))
         (0xdc00 + (codepoint AND 0x3ff)))"

text \<open>The escape loop: the rest of the value, the text produced so far.\<close>

function escape_loop :: "bool \<Rightarrow> string \<Rightarrow> string \<Rightarrow> string" where
  "escape_loop emitUTF8 [] result = result"
| "escape_loop emitUTF8 (c # cs) result =
    (if c = dquote then escape_loop emitUTF8 cs (result @ [bslash, dquote])
     else if c = bslash then escape_loop emitUTF8 cs (result @ [bslash, bslash])
     else if c = CHR 0x08 then escape_loop emitUTF8 cs (result @ [bslash, CHR ''b''])
     else if c = CHR 0x0C then escape_loop emitUTF8 cs (result @ [bslash, CHR ''f''])
     else if c = CHR 0x0A then escape_loop emitUTF8 cs (result @ [bslash, CHR ''n''])
     else if c = CHR 0x0D then escape_loop emitUTF8 cs (result @ [bslash, CHR ''r''])
     else if c = CHR 0x09 then escape_loop emitUTF8 cs (result @ [bslash, CHR ''t''])
     else if emitUTF8 then
       escape_loop emitUTF8 cs
         (if char_byte c < 0x20 then appendHex result (char_byte c) else appendRaw result (char_byte c))
     else
       let (codepoint, moved) = utf8ToCodepoint (c # cs) in
       escape_loop emitUTF8 (drop moved cs) (escape_codepoint result codepoint))"
  by pat_completeness auto
termination
  by (relation "measure (\<lambda>(_, s, _). length s)") auto

definition valueToQuotedStringN :: "string \<Rightarrow> bool \<Rightarrow> string" where
  "valueToQuotedStringN value emitUTF8 =
    (if \<not> doesAnyCharRequireEscaping value then [dquote] @ value @ [dquote]
     else escape_loop emitUTF8 value [dquote] @ [dquote])"

definition valueToQuotedString :: "string \<Rightarrow> string" where
  "valueToQuotedString value = valueToQuotedStringN (cstr value) False"

section \<open>Integers\<close>

text \<open>
  \<open>uintToString\<close> fills a buffer of \<open>uintToStringBufferSize\<close> characters from the end; the model
  returns the characters between \<open>current\<close> and the terminating NUL.
\<close>

definition uintToStringBufferSize :: nat where "uintToStringBufferSize = 3 * 8 + 1"

function uint_digits :: "u64 \<Rightarrow> string \<Rightarrow> string" where
  "uint_digits value current =
    (let current = char_of (unat (value mod 10) + 48) # current; value = value div 10 in
     if value \<noteq> 0 then uint_digits value current else current)"
  by pat_completeness auto
termination
proof (relation "measure (\<lambda>(v, _). unat v)", simp)
  fix v v' :: u64 and s s' :: string
  assume v': "v' = v div 10" "v' \<noteq> 0"
  then have "v \<noteq> 0" by (metis div_0)
  then have "unat v div 10 < unat v" by (simp add: unat_gt_0)
  then show "((v', s'), v, s) \<in> measure (\<lambda>(v, _). unat v)"
    using v' by (simp add: unat_div)
qed

declare uint_digits.simps [simp del]

definition uintToString :: "u64 \<Rightarrow> string" where
  "uintToString value = uint_digits value []"

definition minLargestInt :: u64 where "minLargestInt = 0x8000000000000000"
definition maxLargestInt :: u64 where "maxLargestInt = 0x7FFFFFFFFFFFFFFF"
definition maxLargestUInt :: u64 where "maxLargestUInt = 0xFFFFFFFFFFFFFFFF"

definition valueToString_LargestInt :: "u64 \<Rightarrow> string" where
  "valueToString_LargestInt value =
    (if value = minLargestInt then ''-'' @ uintToString (maxLargestInt + 1)
     else if sint value < 0 then ''-'' @ uintToString (- value)
     else uintToString value)"

definition valueToString_LargestUInt :: "u64 \<Rightarrow> string" where
  "valueToString_LargestUInt value = uintToString value"

definition valueToString_bool :: "bool \<Rightarrow> string" where
  "valueToString_bool value = (if value then ''true'' else ''false'')"

section \<open>Doubles\<close>

text \<open>
  A C++ \<open>double\<close>: a finite value (\<open>DFin 0\<close> is plus zero), minus zero, an infinity (\<open>DInf True\<close>
  is the negative one) or not-a-number.
\<close>

datatype double = DFin rat | DNegZero | DInf bool | DNaN

definition double_of :: "rat \<Rightarrow> double" where
  "double_of q = (let r = rnd_double q in
     if \<bar>r\<bar> \<ge> 2 ^ 1024 then DInf (q < 0) else if r = 0 \<and> q < 0 then DNegZero else DFin r)"

text \<open>
  The C library's \<open>%.*g\<close> and \<open>%.*f\<close>. \<open>sig_digits P q\<close> rounds a positive \<open>q\<close> to \<open>P\<close>
  significant decimal digits: the digits as a number and the decimal exponent of the first.
\<close>

definition elog10 :: "rat \<Rightarrow> int" where
  "elog10 q = (let (n, d) = quotient_of q;
       k = int (length (dec (nat n))) - int (length (dec (nat d)))
     in if 10 powi k \<le> q then k else k - 1)"

definition sig_digits :: "nat \<Rightarrow> rat \<Rightarrow> nat \<times> int" where
  "sig_digits P q = (let x = elog10 q; n = nat (rhe (q / 10 powi (x - int P + 1))) in
     if n = 10 ^ P then (10 ^ (P - 1), x + 1) else (n, x))"

definition strip_zeros :: "string \<Rightarrow> string" where
  "strip_zeros s = rev (dropWhile (\<lambda>c. c = CHR ''0'') (rev s))"

definition with_fraction :: "string \<Rightarrow> string \<Rightarrow> string" where
  "with_fraction i f = (let f = strip_zeros f in if f = [] then i else i @ ''.'' @ f)"

definition printf_g :: "nat \<Rightarrow> rat \<Rightarrow> string" where
  "printf_g precision q =
    (if q = 0 then ''0'' else
     let P = max 1 precision; (n, x) = sig_digits P \<bar>q\<bar>; ds = dec n;
         body =
          (if int P > x \<and> x \<ge> -4 then
             (if x \<ge> 0 then with_fraction (take (nat x + 1) ds) (drop (nat x + 1) ds)
              else with_fraction ''0'' (replicate (nat (- x) - 1) (CHR ''0'') @ ds))
           else with_fraction (take 1 ds) (drop 1 ds) @ ''e'' @ (if x < 0 then ''-'' else ''+'') @
             (let e = dec (nat \<bar>x\<bar>) in if length e < 2 then ''0'' @ e else e))
     in (if q < 0 then ''-'' else []) @ body)"

definition printf_f :: "nat \<Rightarrow> rat \<Rightarrow> string" where
  "printf_f precision q =
    (let m = nat (rhe (\<bar>q\<bar> * 10 ^ precision)); ds = dec (m mod 10 ^ precision) in
     (if q < 0 then ''-'' else []) @ dec (m div 10 ^ precision) @
     (if precision = 0 then [] else ''.'' @ replicate (precision - length ds) (CHR ''0'') @ ds))"

datatype PrecisionType = significantDigits | decimalPlaces

definition fixNumericLocale :: "string \<Rightarrow> string" where
  "fixNumericLocale s = map (\<lambda>c. if c = CHR '','' then CHR ''.'' else c) s"

function fixZerosInTheEnd :: "string \<Rightarrow> nat \<Rightarrow> string" where
  "fixZerosInTheEnd s precision =
    (if s = [] then s
     else if last s \<noteq> CHR ''0'' then s
     else if length s \<noteq> 1 \<and> length s \<noteq> 2 \<and> s ! (length s - 2) = CHR ''.'' then
       (if precision \<noteq> 0 then s else take (length s - 2) s)
     else fixZerosInTheEnd (butlast s) precision)"
  by pat_completeness auto
termination
  by (relation "measure (\<lambda>(s, _). length s)") auto

declare fixZerosInTheEnd.simps [simp del]

definition valueToString_double :: "double \<Rightarrow> bool \<Rightarrow> nat \<Rightarrow> PrecisionType \<Rightarrow> string" where
  "valueToString_double value useSpecialFloats precision precisionType =
    (case value of
       DNaN \<Rightarrow> if useSpecialFloats then ''NaN'' else ''null''
     | DInf True \<Rightarrow> if useSpecialFloats then ''-Infinity'' else ''-1e+9999''
     | DInf False \<Rightarrow> if useSpecialFloats then ''Infinity'' else ''1e+9999''
     | v \<Rightarrow>
        (let print = (if precisionType = significantDigits then printf_g else printf_f) precision;
             buffer = (case v of DFin q \<Rightarrow> print q | _ \<Rightarrow> ''-'' @ print 0);
             buffer = fixNumericLocale buffer;
             buffer = (if CHR ''.'' \<notin> set buffer \<and> CHR ''e'' \<notin> set buffer then buffer @ ''.0'' else buffer)
         in if precisionType = decimalPlaces then fixZerosInTheEnd buffer precision else buffer))"

definition defaultRealPrecision :: nat where "defaultRealPrecision = 17"

section \<open>Integer printing is decimal\<close>

lemma unat_mod10: "unat (v mod 10) = unat (v :: u64) mod 10"
  and unat_div10: "unat (v div 10) = unat (v :: u64) div 10"
proof -
  have ten: "unat (10 :: u64) = 10" by simp
  show "unat (v mod 10) = unat v mod 10" "unat (v div 10) = unat v div 10"
    by (simp_all only: unat_mod unat_div ten)
qed

lemma uint_digits_dec: "uint_digits v s = dec (unat v) @ s"
proof (induction v s rule: uint_digits.induct)
  case (1 v s)
  have d: "char_of (unat (v mod 10) + 48) = digit_char (unat v mod 10)"
    by (simp only: digit_char_def add.commute unat_mod10)
  have z: "v div 10 = 0 \<longleftrightarrow> unat v < 10"
    by (simp only: unat_eq_zero [symmetric] unat_div10 div_eq_0_iff) simp
  show ?case
  proof (cases "unat v < 10")
    case True
    with d show ?thesis
      by (simp only: uint_digits.simps [of v s] dec.simps [of "unat v"] Let_def z mod_less) simp
  next
    case False
    with 1 [OF refl refl] z d show ?thesis
      by (simp only: uint_digits.simps [of v s] dec.simps [of "unat v"] Let_def unat_div10) simp
  qed
qed

lemma uintToString_dec: "uintToString v = dec (unat v)"
  by (simp add: uintToString_def uint_digits_dec)

lemma u64_bound: "unat (v :: u64) < 2 ^ 64"
proof -
  have "unat v < 2 ^ LENGTH(64)" by (rule unsigned_less)
  then show ?thesis by simp
qed

lemma uintToString_fits: "length (uintToString v) < uintToStringBufferSize"
proof -
  have "unat v < 10 ^ 20" using u64_bound [of v] by simp
  from length_dec [OF this] show ?thesis
    by (simp add: uintToString_dec uintToStringBufferSize_def)
qed

end
