(* ===== verification/Std_Map.thy ===== *)
theory Std_Map
  imports Prelude
begin

text \<open>
  The part of \<open>std::map\<close> the JSON library uses, as an association list that is strictly sorted
  by its key: \<open>lower_bound\<close>, \<open>find\<close>, \<open>insert\<close> at a hint, \<open>emplace\<close>, \<open>operator[]\<close> with
  assignment and \<open>erase\<close>. The locale \<open>ordered_map\<close> is the contract the JSON values rely on; it
  is interpreted on the list operations at the end of the theory.
\<close>

section \<open>Operations\<close>

definition keys_of :: "('k \<times> 'v) list \<Rightarrow> 'k list" where
  "keys_of m = map fst m"

definition sorted_map :: "('k :: linorder \<times> 'v) list \<Rightarrow> bool" where
  "sorted_map m = sorted_wrt (<) (keys_of m)"

definition map_find :: "'k \<Rightarrow> ('k \<times> 'v) list \<Rightarrow> 'v option" where
  "map_find k m = map_of m k"

fun lower_bound :: "'k :: linorder \<Rightarrow> ('k \<times> 'v) list \<Rightarrow> nat" where
  "lower_bound k [] = 0"
| "lower_bound k (p # m) = (if fst p < k then Suc (lower_bound k m) else 0)"

definition insert_at :: "nat \<Rightarrow> 'a \<Rightarrow> 'a list \<Rightarrow> 'a list" where
  "insert_at i x xs = take i xs @ x # drop i xs"

definition map_emplace :: "'k :: linorder \<Rightarrow> 'v \<Rightarrow> ('k \<times> 'v) list \<Rightarrow> ('k \<times> 'v) list" where
  "map_emplace k v m = (let it = lower_bound k m in
     if it < length m \<and> fst (m ! it) = k then m else insert_at it (k, v) m)"

definition map_put :: "'k :: linorder \<Rightarrow> 'v \<Rightarrow> ('k \<times> 'v) list \<Rightarrow> ('k \<times> 'v) list" where
  "map_put k v m = map (\<lambda>(k', v'). (k', if k' = k then v else v')) (map_emplace k v m)"

definition map_erase :: "'k \<Rightarrow> ('k \<times> 'v) list \<Rightarrow> ('k \<times> 'v) list" where
  "map_erase k m = filter (\<lambda>p. fst p \<noteq> k) m"

section \<open>The contract\<close>

locale ordered_map =
  fixes find :: "'k \<Rightarrow> 'm \<Rightarrow> 'v option"
    and emplace :: "'k \<Rightarrow> 'v \<Rightarrow> 'm \<Rightarrow> 'm"
    and put :: "'k \<Rightarrow> 'v \<Rightarrow> 'm \<Rightarrow> 'm"
    and erase :: "'k \<Rightarrow> 'm \<Rightarrow> 'm"
    and invar :: "'m \<Rightarrow> bool"
  assumes find_emplace: "invar m \<Longrightarrow> find k' (emplace k v m) =
        (if k' = k \<and> find k m = None then Some v else find k' m)"
    and find_put: "invar m \<Longrightarrow> find k' (put k v m) = (if k' = k then Some v else find k' m)"
    and find_erase: "invar m \<Longrightarrow> find k' (erase k m) = (if k' = k then None else find k' m)"
    and invar_emplace: "invar m \<Longrightarrow> invar (emplace k v m)"
    and invar_put: "invar m \<Longrightarrow> invar (put k v m)"
    and invar_erase: "invar m \<Longrightarrow> invar (erase k m)"
    and ext: "invar m \<Longrightarrow> invar m' \<Longrightarrow> (\<And>k. find k m = find k m') \<Longrightarrow> m = m'"
begin

lemmas find_simps = find_emplace find_put find_erase invar_emplace invar_put invar_erase

lemma emplace_present: "invar m \<Longrightarrow> find k m = Some w \<Longrightarrow> emplace k v m = m"
  by (rule ext) (auto simp: find_simps)

lemma emplace_absent: "invar m \<Longrightarrow> find k m = None \<Longrightarrow> emplace k v m = put k v m"
  by (rule ext) (auto simp: find_simps)

lemma put_put: "invar m \<Longrightarrow> put k v (put k w m) = put k v m"
  by (rule ext) (auto simp: find_simps)

lemma put_emplace: "invar m \<Longrightarrow> put k v (emplace k w m) = put k v m"
  by (rule ext) (auto simp: find_simps)

lemma put_comm: "invar m \<Longrightarrow> k \<noteq> l \<Longrightarrow> put k v (put l w m) = put l w (put k v m)"
  by (rule ext) (auto simp: find_simps)

lemma erase_put: "invar m \<Longrightarrow> erase k (put k v m) = erase k m"
  by (rule ext) (auto simp: find_simps)

lemma put_found: "invar m \<Longrightarrow> find k m = Some v \<Longrightarrow> put k v m = m"
  by (rule ext) (auto simp: find_simps)

lemma erase_absent: "invar m \<Longrightarrow> find k m = None \<Longrightarrow> erase k m = m"
  by (rule ext) (auto simp: find_simps)

end

section \<open>The sorted association list keeps the contract\<close>

lemma keys_of_simps [simp]:
  "keys_of [] = []" "keys_of (p # m) = fst p # keys_of m" "keys_of (m @ n) = keys_of m @ keys_of n"
  by (simp_all add: keys_of_def)

lemma set_keys_of [simp]: "set (keys_of m) = fst ` set m"
  by (simp add: keys_of_def)

lemma sorted_map_Nil [simp]: "sorted_map []"
  by (simp add: sorted_map_def)

lemma sorted_map_Cons: "sorted_map (p # m) \<longleftrightarrow> (\<forall>q \<in> set m. fst p < fst q) \<and> sorted_map m"
  by (simp add: sorted_map_def)

lemma sorted_map_append:
  "sorted_map (m @ n) \<longleftrightarrow> sorted_map m \<and> sorted_map n \<and> (\<forall>p \<in> set m. \<forall>q \<in> set n. fst p < fst q)"
  by (simp add: sorted_map_def sorted_wrt_append)

lemma map_emplace_Nil [simp]: "map_emplace k v [] = [(k, v)]"
  by (simp add: map_emplace_def insert_at_def)

lemma map_emplace_Cons:
  "map_emplace k v (p # m) =
     (if fst p < k then p # map_emplace k v m else if fst p = k then p # m else (k, v) # p # m)"
  by (auto simp: map_emplace_def insert_at_def Let_def)

lemma map_find_simps [simp]:
  "map_find k [] = None"
  "map_find k (p # m) = (if fst p = k then Some (snd p) else map_find k m)"
  by (simp_all add: map_find_def)

lemma map_find_None: "map_find k m = None \<longleftrightarrow> (\<forall>p \<in> set m. fst p \<noteq> k)"
  by (induction m) auto

lemma map_find_Some_in: "map_find k m = Some v \<Longrightarrow> (k, v) \<in> set m"
  by (simp add: map_find_def map_of_SomeD)

lemma map_find_in_iff: "sorted_map m \<Longrightarrow> map_find k m = Some v \<longleftrightarrow> (k, v) \<in> set m"
  by (induction m) (auto simp: sorted_map_Cons)

lemma set_map_emplace: "set (map_emplace k v m) \<subseteq> insert (k, v) (set m)"
  by (induction m) (auto simp: map_emplace_Cons)

lemma sorted_map_emplace: "sorted_map m \<Longrightarrow> sorted_map (map_emplace k v m)"
proof (induction m)
  case (Cons p m)
  then show ?case
    using set_map_emplace [of k v m]
    by (auto simp: map_emplace_Cons sorted_map_Cons)
qed (simp add: sorted_map_Cons)

lemma find_map_emplace:
  "sorted_map m \<Longrightarrow> map_find k' (map_emplace k v m) =
     (if k' = k \<and> map_find k m = None then Some v else map_find k' m)"
proof (induction m)
  case (Cons p m)
  then have "\<not> fst p < k \<Longrightarrow> fst p \<noteq> k \<Longrightarrow> map_find k m = None"
    by (auto simp: map_find_None sorted_map_Cons)
  with Cons show ?case by (auto simp: map_emplace_Cons sorted_map_Cons)
qed simp

lemma find_map_snd: "map_find k' (map (\<lambda>(k'', v'). (k'', f k'' v')) m) = map_option (f k') (map_find k' m)"
  by (induction m) auto

lemma keys_of_map_snd [simp]: "keys_of (map (\<lambda>(k, v). (k, f k v)) m) = keys_of m"
  by (induction m) auto

lemma sorted_map_put: "sorted_map m \<Longrightarrow> sorted_map (map_put k v m)"
  using sorted_map_emplace [of m k v] unfolding map_put_def sorted_map_def by simp

lemma find_map_put:
  "sorted_map m \<Longrightarrow> map_find k' (map_put k v m) = (if k' = k then Some v else map_find k' m)"
  unfolding map_put_def by (cases "map_find k m") (auto simp: find_map_snd find_map_emplace option.map_ident)

lemma sorted_map_erase: "sorted_map m \<Longrightarrow> sorted_map (map_erase k m)"
  by (induction m) (auto simp: map_erase_def sorted_map_Cons)

lemma find_map_erase: "map_find k' (map_erase k m) = (if k' = k then None else map_find k' m)"
  by (induction m) (auto simp: map_erase_def)

lemma sorted_map_ext:
  assumes "sorted_map m" "sorted_map m'" "\<And>k. map_find k m = map_find k m'"
  shows "m = m'"
proof -
  have "(k, v) \<in> set m \<longleftrightarrow> (k, v) \<in> set m'" for k v
    using map_find_in_iff [OF assms(1), of k v] map_find_in_iff [OF assms(2), of k v] assms(3) [of k]
    by simp
  then have "set m = set m'" by auto
  then have "set (keys_of m) = set (keys_of m')" by simp
  with assms(1,2) have "keys_of m = keys_of m'"
    unfolding sorted_map_def by (metis strict_sorted_equal)
  moreover have "inj_on fst (set m)"
    using assms(1) by (simp add: sorted_map_def strict_sorted_iff keys_of_def distinct_map)
  ultimately show ?thesis
    using \<open>set m = set m'\<close> inj_on_map_eq_map [of fst m m'] by (simp add: keys_of_def)
qed

interpretation om: ordered_map map_find map_emplace map_put map_erase sorted_map
  by unfold_locales
    (simp_all add: find_map_emplace find_map_put find_map_erase sorted_map_emplace
      sorted_map_put sorted_map_erase sorted_map_ext)

end
