(* ===== verification/Json_Value.thy ===== *)
theory Json_Value
  imports Json_Tool Std_Map
begin

text \<open>
  The JSON value of the library (\<open>src/components/jsoncpp/value.h\<close>, \<open>json_value.cpp\<close>): map keys
  (\<open>CZString\<close>), the tagged union \<open>Value\<close> with its comments and source offsets, and every
  operation on it: construction, comparison, conversion, array and object access, paths. A
  C++ reference into a value is modelled by what is done through it: an operation that returns
  a mutable reference gives the container in which the referenced entry exists, and a
  companion operation stores through the reference. Which heap block owns a string
  (\<open>allocated_\<close>, the duplication policies, \<open>malloc\<close> failing) is not part of the model.
\<close>

section \<open>Keys\<close>

fun memcmp :: "string \<Rightarrow> string \<Rightarrow> nat \<Rightarrow> int" where
  "memcmp a b 0 = 0"
| "memcmp (x # a) (y # b) (Suc n) =
     (if (of_char x :: nat) < of_char y then -1
      else if (of_char x :: nat) > of_char y then 1 else memcmp a b n)"
| "memcmp _ _ (Suc n) = 0"

datatype czstring = CZIndex u32 | CZStr string

definition CZString :: "string \<Rightarrow> czstring" where
  "CZString s = CZStr (take (unat (word_of_nat (length s) AND 0x3FFFFFFF :: u32)) s)"

text \<open>
  \<open>CZString::operator<\<close> and \<open>operator==\<close>. A map holds either indices only or strings only, so the
  mixed cases never arise (\<open>wf_value\<close> below); they are given the order that makes the type
  linear.
\<close>

definition str_less :: "string \<Rightarrow> string \<Rightarrow> bool" where
  "str_less a b =
    (let comp = memcmp a b (min (length a) (length b)) in
     if comp < 0 then True else if comp > 0 then False else length a < length b)"

definition str_equal :: "string \<Rightarrow> string \<Rightarrow> bool" where
  "str_equal a b = (if length a \<noteq> length b then False else memcmp a b (length a) = 0)"

fun czless :: "czstring \<Rightarrow> czstring \<Rightarrow> bool" where
  "czless (CZIndex i) (CZIndex j) = (i < j)"
| "czless (CZStr a) (CZStr b) = str_less a b"
| "czless (CZIndex i) (CZStr b) = True"
| "czless (CZStr a) (CZIndex j) = False"

fun czequal :: "czstring \<Rightarrow> czstring \<Rightarrow> bool" where
  "czequal (CZIndex i) (CZIndex j) = (i = j)"
| "czequal (CZStr a) (CZStr b) = str_equal a b"
| "czequal _ _ = False"

lemma str_less_simps:
  "str_less [] b \<longleftrightarrow> b \<noteq> []" "\<not> str_less (x # a) []"
  "str_less (x # a) (y # b) \<longleftrightarrow> x < y \<or> \<not> y < x \<and> str_less a b"
  by (simp_all add: str_less_def Let_def less_char_def)

lemma str_less_eq: "str_less a b \<longleftrightarrow> a < b"
proof (induction a arbitrary: b)
  case Nil
  then show ?case by (cases b) (simp_all add: str_less_simps)
next
  case (Cons x a)
  show ?case
  proof (cases b)
    case (Cons y b')
    have "x < y \<or> \<not> y < x \<and> P \<longleftrightarrow> x < y \<or> x = y \<and> P" for P
      using less_linear [of x y] by blast
    with Cons show ?thesis by (simp add: str_less_simps Cons.IH)
  qed (simp add: str_less_simps)
qed

lemma memcmp_0_iff: "length a = length b \<Longrightarrow> memcmp a b (length a) = 0 \<longleftrightarrow> a = b"
  by (induction a b rule: list_induct2) auto

lemma str_equal_eq: "str_equal a b \<longleftrightarrow> a = b"
  using memcmp_0_iff [of a b] by (auto simp: str_equal_def)

lemma czequal_eq: "czequal x y \<longleftrightarrow> x = y"
  by (cases x; cases y) (simp_all add: str_equal_eq)

instantiation czstring :: linorder
begin

definition less_czstring_def: "x < y \<longleftrightarrow> czless x y"
definition less_eq_czstring_def: "x \<le> y \<longleftrightarrow> czless x y \<or> x = (y :: czstring)"

instance
proof
  fix x y z :: czstring
  show "x < y \<longleftrightarrow> x \<le> y \<and> \<not> y \<le> x"
    by (cases x; cases y) (auto simp: less_czstring_def less_eq_czstring_def str_less_eq)
  show "x \<le> x" by (simp add: less_eq_czstring_def)
  show "x \<le> y \<Longrightarrow> y \<le> z \<Longrightarrow> x \<le> z"
    by (cases x; cases y; cases z) (auto simp: less_eq_czstring_def str_less_eq)
  show "x \<le> y \<Longrightarrow> y \<le> x \<Longrightarrow> x = y"
    by (cases x; cases y) (auto simp: less_eq_czstring_def str_less_eq)
  show "x \<le> y \<or> y \<le> x"
    by (cases x; cases y) (auto simp: less_eq_czstring_def str_less_eq)
qed

end

lemma czstring_less_simps [simp]:
  "CZIndex i < CZIndex j \<longleftrightarrow> i < j" "CZStr a < CZStr b \<longleftrightarrow> a < b"
  "CZIndex i < CZStr b" "\<not> CZStr a < CZIndex j"
  by (simp_all add: less_czstring_def str_less_eq)

section \<open>Values\<close>

datatype ValueType = nullValue | intValue | uintValue | realValue | stringValue | booleanValue
  | arrayValue | objectValue

datatype CommentPlacement = commentBefore | commentAfterOnSameLine | commentAfter

text \<open>\<open>Comments\<close>: a null pointer or an array of three strings.\<close>

type_synonym Comments = "(string \<times> string \<times> string) option"

datatype Value = Value (payload: Payload) (v_comments: Comments) (v_start: int) (v_limit: int)
  and Payload = PNull | PInt u64 | PUInt u64 | PReal double | PString string | PBool bool
    | PArray "(czstring \<times> Value) list" | PObject "(czstring \<times> Value) list"

type_synonym ObjectValues = "(czstring \<times> Value) list"

fun payload_type :: "Payload \<Rightarrow> ValueType" where
  "payload_type PNull = nullValue"
| "payload_type (PInt _) = intValue"
| "payload_type (PUInt _) = uintValue"
| "payload_type (PReal _) = realValue"
| "payload_type (PString _) = stringValue"
| "payload_type (PBool _) = booleanValue"
| "payload_type (PArray _) = arrayValue"
| "payload_type (PObject _) = objectValue"

definition type_of :: "Value \<Rightarrow> ValueType" where
  "type_of v = payload_type (payload v)"

fun type_index :: "ValueType \<Rightarrow> int" where
  "type_index nullValue = 0" | "type_index intValue = 1" | "type_index uintValue = 2"
| "type_index realValue = 3" | "type_index stringValue = 4" | "type_index booleanValue = 5"
| "type_index arrayValue = 6" | "type_index objectValue = 7"

subsection \<open>Construction, assignment\<close>

definition initBasic :: "Payload \<Rightarrow> Value" where
  "initBasic p = Value p None 0 0"

fun default_payload :: "ValueType \<Rightarrow> Payload" where
  "default_payload nullValue = PNull"
| "default_payload intValue = PInt 0"
| "default_payload uintValue = PUInt 0"
| "default_payload realValue = PReal (DFin 0)"
| "default_payload stringValue = PString []"
| "default_payload booleanValue = PBool False"
| "default_payload arrayValue = PArray []"
| "default_payload objectValue = PObject []"

definition Value_of_type :: "ValueType \<Rightarrow> Value" where
  "Value_of_type t = initBasic (default_payload t)"

definition nullSingleton :: Value where "nullSingleton = Value_of_type nullValue"

definition Value_of_Int :: "u32 \<Rightarrow> Value" where "Value_of_Int i = initBasic (PInt (scast i))"
definition Value_of_UInt :: "u32 \<Rightarrow> Value" where "Value_of_UInt i = initBasic (PUInt (ucast i))"
definition Value_of_Int64 :: "u64 \<Rightarrow> Value" where "Value_of_Int64 i = initBasic (PInt i)"
definition Value_of_UInt64 :: "u64 \<Rightarrow> Value" where "Value_of_UInt64 i = initBasic (PUInt i)"
definition Value_of_double :: "double \<Rightarrow> Value" where "Value_of_double d = initBasic (PReal d)"
definition Value_of_bool :: "bool \<Rightarrow> Value" where "Value_of_bool b = initBasic (PBool b)"

definition maxInt :: int where "maxInt = 2 ^ 31 - 1"

definition json_assert :: "bool \<Rightarrow> string \<Rightarrow> 'a outcome \<Rightarrow> 'a outcome" where
  "json_assert c msg k = (if c then k else Inl (LogicError msg))"

definition duplicateAndPrefixStringValue :: "string \<Rightarrow> string outcome" where
  "duplicateAndPrefixStringValue s =
     json_assert (int (length s) \<le> maxInt - 4 - 1)
       ''in Json::Value::duplicateAndPrefixStringValue(): length too big for prefixing'' (Inr s)"

definition Value_of_String :: "string \<Rightarrow> Value outcome" where
  "Value_of_String s = map_sum id (\<lambda>s. initBasic (PString s)) (duplicateAndPrefixStringValue s)"

definition Value_of_cstring :: "string option \<Rightarrow> Value outcome" where
  "Value_of_cstring s = (case s of
     None \<Rightarrow> Inl (LogicError ''Null Value Passed to Value Constructor'')
   | Some s \<Rightarrow> Value_of_String (cstr s))"

definition set_payload :: "Payload \<Rightarrow> Value \<Rightarrow> Value" where
  "set_payload p v = Value p (v_comments v) (v_start v) (v_limit v)"

definition swapPayload :: "Value \<Rightarrow> Value \<Rightarrow> Value \<times> Value" where
  "swapPayload a b = (set_payload (payload b) a, set_payload (payload a) b)"

definition swap :: "Value \<Rightarrow> Value \<Rightarrow> Value \<times> Value" where
  "swap a b = (b, a)"

text \<open>
  Copying a value duplicates its string, which may be too long for the length prefix, or its map; the entries of the map are copies
  of entries that exist already. \<open>operator=\<close> of a value that is moved swaps the two.
\<close>

definition dupPayload :: "Value \<Rightarrow> Payload outcome" where
  "dupPayload other = (case payload other of
     PString s \<Rightarrow> map_sum id PString (duplicateAndPrefixStringValue s)
   | p \<Rightarrow> Inr p)"

definition copyPayload :: "Value \<Rightarrow> Value \<Rightarrow> Value outcome" where
  "copyPayload other v = map_sum id (\<lambda>p. set_payload p v) (dupPayload other)"

definition dupMeta :: "Value \<Rightarrow> Value \<Rightarrow> Value" where
  "dupMeta other v = Value (payload v) (v_comments other) (v_start other) (v_limit other)"

definition value_copy :: "Value \<Rightarrow> Value \<Rightarrow> Value outcome" where
  "value_copy other v = map_sum id (dupMeta other) (copyPayload other v)"

definition Value_of_Value :: "Value \<Rightarrow> Value outcome" where
  "Value_of_Value other = map_sum id (\<lambda>p. dupMeta other (initBasic p)) (dupPayload other)"

definition value_assign :: "Value \<Rightarrow> Value \<Rightarrow> Value outcome" where
  "value_assign other v = map_sum id (\<lambda>c. snd (swap c v)) (Value_of_Value other)"

definition value_move_assign :: "Value \<Rightarrow> Value \<Rightarrow> Value \<times> Value" where
  "value_move_assign other v = swap other v"

definition getOffsetStart :: "Value \<Rightarrow> int" where "getOffsetStart v = v_start v"
definition getOffsetLimit :: "Value \<Rightarrow> int" where "getOffsetLimit v = v_limit v"

definition setOffsetStart :: "int \<Rightarrow> Value \<Rightarrow> Value" where
  "setOffsetStart s v = Value (payload v) (v_comments v) s (v_limit v)"

definition setOffsetLimit :: "int \<Rightarrow> Value \<Rightarrow> Value" where
  "setOffsetLimit l v = Value (payload v) (v_comments v) (v_start v) l"

subsection \<open>Comments\<close>

fun slot_get :: "string \<times> string \<times> string \<Rightarrow> CommentPlacement \<Rightarrow> string" where
  "slot_get (a, b, c) commentBefore = a"
| "slot_get (a, b, c) commentAfterOnSameLine = b"
| "slot_get (a, b, c) commentAfter = c"

fun slot_set :: "string \<times> string \<times> string \<Rightarrow> CommentPlacement \<Rightarrow> string \<Rightarrow> string \<times> string \<times> string" where
  "slot_set (a, b, c) commentBefore s = (s, b, c)"
| "slot_set (a, b, c) commentAfterOnSameLine s = (a, s, c)"
| "slot_set (a, b, c) commentAfter s = (a, b, s)"

definition Comments_has :: "Comments \<Rightarrow> CommentPlacement \<Rightarrow> bool" where
  "Comments_has cs slot = (case cs of None \<Rightarrow> False | Some a \<Rightarrow> slot_get a slot \<noteq> [])"

definition Comments_get :: "Comments \<Rightarrow> CommentPlacement \<Rightarrow> string" where
  "Comments_get cs slot = (case cs of None \<Rightarrow> [] | Some a \<Rightarrow> slot_get a slot)"

definition Comments_set :: "Comments \<Rightarrow> CommentPlacement \<Rightarrow> string \<Rightarrow> Comments" where
  "Comments_set cs slot comment =
     Some (slot_set (case cs of None \<Rightarrow> ([], [], []) | Some a \<Rightarrow> a) slot comment)"

definition setComment :: "string \<Rightarrow> CommentPlacement \<Rightarrow> Value \<Rightarrow> Value outcome" where
  "setComment comment placement v =
    (let comment = (if comment \<noteq> [] \<and> last comment = CHR 0x0A then butlast comment else comment) in
     json_assert (comment \<noteq> []) ''assert: !comment.empty()''
      (json_assert (hd comment = NUL \<or> hd comment = CHR ''/'')
        ''in Json::Value::setComment(): Comments must start with /''
        (Inr (Value (payload v) (Comments_set (v_comments v) placement comment) (v_start v) (v_limit v)))))"

definition hasComment :: "CommentPlacement \<Rightarrow> Value \<Rightarrow> bool" where
  "hasComment placement v = Comments_has (v_comments v) placement"

definition getComment :: "CommentPlacement \<Rightarrow> Value \<Rightarrow> string" where
  "getComment placement v = Comments_get (v_comments v) placement"

subsection \<open>Comparison\<close>

fun dval :: "double \<Rightarrow> rat" where
  "dval (DFin q) = q"
| "dval _ = 0"

fun dless :: "double \<Rightarrow> double \<Rightarrow> bool" where
  "dless DNaN _ = False"
| "dless _ DNaN = False"
| "dless (DInf a) (DInf b) = (a \<and> \<not> b)"
| "dless (DInf a) _ = a"
| "dless _ (DInf b) = (\<not> b)"
| "dless x y = (dval x < dval y)"

fun deq :: "double \<Rightarrow> double \<Rightarrow> bool" where
  "deq DNaN _ = False"
| "deq _ DNaN = False"
| "deq (DInf a) (DInf b) = (a = b)"
| "deq (DInf a) _ = False"
| "deq _ (DInf b) = False"
| "deq x y = (dval x = dval y)"

definition dle :: "double \<Rightarrow> double \<Rightarrow> bool" where
  "dle x y \<longleftrightarrow> dless x y \<or> deq x y"

text \<open>
  \<open>Value::operator<\<close> and \<open>operator==\<close>, with \<open>std::map\<close>'s lexicographic comparison and its
  element-wise equality of \<open>(key, value)\<close> pairs.
\<close>

function (sequential) value_less :: "Value \<Rightarrow> Value \<Rightarrow> bool"
  and payload_less :: "Payload \<Rightarrow> Payload \<Rightarrow> bool"
  and map_less :: "ObjectValues \<Rightarrow> ObjectValues \<Rightarrow> bool" where
  "value_less (Value p _ _ _) (Value q _ _ _) =
    (let typeDelta = type_index (payload_type p) - type_index (payload_type q) in
     if typeDelta \<noteq> 0 then typeDelta < 0 else payload_less p q)"
| "payload_less p q = (case p of
     PNull \<Rightarrow> False
   | PInt a \<Rightarrow> (case q of PInt b \<Rightarrow> sint a < sint b | _ \<Rightarrow> False)
   | PUInt a \<Rightarrow> (case q of PUInt b \<Rightarrow> a < b | _ \<Rightarrow> False)
   | PReal a \<Rightarrow> (case q of PReal b \<Rightarrow> dless a b | _ \<Rightarrow> False)
   | PBool a \<Rightarrow> (case q of PBool b \<Rightarrow> \<not> a \<and> b | _ \<Rightarrow> False)
   | PString a \<Rightarrow> (case q of PString b \<Rightarrow> str_less a b | _ \<Rightarrow> False)
   | PArray m \<Rightarrow> (case q of
       PArray n \<Rightarrow> if length m \<noteq> length n then length m < length n else map_less m n | _ \<Rightarrow> False)
   | PObject m \<Rightarrow> (case q of
       PObject n \<Rightarrow> if length m \<noteq> length n then length m < length n else map_less m n | _ \<Rightarrow> False))"
| "map_less [] n = (n \<noteq> [])"
| "map_less (p # m) [] = False"
| "map_less ((k, v) # m) ((l, w) # n) =
    (if czless k l \<or> \<not> czless l k \<and> value_less v w then True
     else if czless l k \<or> \<not> czless k l \<and> value_less w v then False
     else map_less m n)"
  by pat_completeness auto
termination
proof (relation "measure (case_sum (\<lambda>(a, b). size a + size b) (case_sum (\<lambda>(p, q). size p + size q)
    (\<lambda>(m, n). size_list (size_prod (\<lambda>_. 0) size) m + size_list (size_prod (\<lambda>_. 0) size) n)))")
qed auto

fun value_equal :: "Value \<Rightarrow> Value \<Rightarrow> bool"
  and payload_equal :: "Payload \<Rightarrow> Payload \<Rightarrow> bool"
  and map_equal :: "ObjectValues \<Rightarrow> ObjectValues \<Rightarrow> bool" where
  "value_equal (Value p _ _ _) (Value q _ _ _) =
    (if payload_type p \<noteq> payload_type q then False else payload_equal p q)"
| "payload_equal p q = (case p of
     PNull \<Rightarrow> (case q of PNull \<Rightarrow> True | _ \<Rightarrow> False)
   | PInt a \<Rightarrow> (case q of PInt b \<Rightarrow> a = b | _ \<Rightarrow> False)
   | PUInt a \<Rightarrow> (case q of PUInt b \<Rightarrow> a = b | _ \<Rightarrow> False)
   | PReal a \<Rightarrow> (case q of PReal b \<Rightarrow> deq a b | _ \<Rightarrow> False)
   | PBool a \<Rightarrow> (case q of PBool b \<Rightarrow> a = b | _ \<Rightarrow> False)
   | PString a \<Rightarrow> (case q of PString b \<Rightarrow> str_equal a b | _ \<Rightarrow> False)
   | PArray m \<Rightarrow> (case q of PArray n \<Rightarrow> length m = length n \<and> map_equal m n | _ \<Rightarrow> False)
   | PObject m \<Rightarrow> (case q of PObject n \<Rightarrow> length m = length n \<and> map_equal m n | _ \<Rightarrow> False))"
| "map_equal [] [] = True"
| "map_equal ((k, v) # m) ((l, w) # n) = (czequal k l \<and> value_equal v w \<and> map_equal m n)"
| "map_equal _ _ = False"

definition value_le :: "Value \<Rightarrow> Value \<Rightarrow> bool" where "value_le a b = (\<not> value_less b a)"
definition value_ge :: "Value \<Rightarrow> Value \<Rightarrow> bool" where "value_ge a b = (\<not> value_less a b)"
definition value_gt :: "Value \<Rightarrow> Value \<Rightarrow> bool" where "value_gt a b = value_less b a"
definition value_ne :: "Value \<Rightarrow> Value \<Rightarrow> bool" where "value_ne a b = (\<not> value_equal a b)"

definition value_compare :: "Value \<Rightarrow> Value \<Rightarrow> int" where
  "value_compare a b = (if value_less a b then -1 else if value_gt a b then 1 else 0)"

subsection \<open>Type predicates\<close>

definition isNull :: "Value \<Rightarrow> bool" where "isNull v = (type_of v = nullValue)"
definition value_bool :: "Value \<Rightarrow> bool" where "value_bool v = (\<not> isNull v)"
definition isBool :: "Value \<Rightarrow> bool" where "isBool v = (type_of v = booleanValue)"
definition isString :: "Value \<Rightarrow> bool" where "isString v = (type_of v = stringValue)"
definition isArray :: "Value \<Rightarrow> bool" where "isArray v = (type_of v = arrayValue)"
definition isObject :: "Value \<Rightarrow> bool" where "isObject v = (type_of v = objectValue)"

fun IsIntegral :: "double \<Rightarrow> bool" where
  "IsIntegral (DFin q) = (q = of_int \<lfloor>q\<rfloor>)"
| "IsIntegral DNegZero = True"
| "IsIntegral (DInf _) = True"
| "IsIntegral DNaN = False"

definition dint :: "int \<Rightarrow> double" where "dint i = DFin (rnd_double (of_int i))"

definition maxUInt64AsDouble :: double where "maxUInt64AsDouble = dint 18446744073709551615"

definition minInt :: int where "minInt = - (2 ^ 31)"
definition maxUInt :: int where "maxUInt = 2 ^ 32 - 1"
definition minInt64 :: int where "minInt64 = - (2 ^ 63)"
definition maxInt64 :: int where "maxInt64 = 2 ^ 63 - 1"
definition maxUInt64 :: int where "maxUInt64 = 2 ^ 64 - 1"

lemmas int_limits = minInt_def maxInt_def maxUInt_def minInt64_def maxInt64_def maxUInt64_def

definition isInt :: "Value \<Rightarrow> bool" where
  "isInt v = (case payload v of
     PInt i \<Rightarrow> sint i \<ge> minInt \<and> sint i \<le> maxInt
   | PUInt u \<Rightarrow> uint u \<le> maxInt
   | PReal d \<Rightarrow> dle (dint minInt) d \<and> dle d (dint maxInt) \<and> IsIntegral d
   | _ \<Rightarrow> False)"

definition isUInt :: "Value \<Rightarrow> bool" where
  "isUInt v = (case payload v of
     PInt i \<Rightarrow> sint i \<ge> 0 \<and> uint i \<le> maxUInt
   | PUInt u \<Rightarrow> uint u \<le> maxUInt
   | PReal d \<Rightarrow> dle (dint 0) d \<and> dle d (dint maxUInt) \<and> IsIntegral d
   | _ \<Rightarrow> False)"

definition isInt64 :: "Value \<Rightarrow> bool" where
  "isInt64 v = (case payload v of
     PInt i \<Rightarrow> True
   | PUInt u \<Rightarrow> uint u \<le> maxInt64
   | PReal d \<Rightarrow> dle (dint minInt64) d \<and> dless d (dint maxInt64) \<and> IsIntegral d
   | _ \<Rightarrow> False)"

definition isUInt64 :: "Value \<Rightarrow> bool" where
  "isUInt64 v = (case payload v of
     PInt i \<Rightarrow> sint i \<ge> 0
   | PUInt u \<Rightarrow> True
   | PReal d \<Rightarrow> dle (dint 0) d \<and> dless d maxUInt64AsDouble \<and> IsIntegral d
   | _ \<Rightarrow> False)"

definition isIntegral :: "Value \<Rightarrow> bool" where
  "isIntegral v = (case payload v of
     PInt i \<Rightarrow> True
   | PUInt u \<Rightarrow> True
   | PReal d \<Rightarrow> dle (dint minInt64) d \<and> dless d maxUInt64AsDouble \<and> IsIntegral d
   | _ \<Rightarrow> False)"

definition isDouble :: "Value \<Rightarrow> bool" where
  "isDouble v \<longleftrightarrow> type_of v = intValue \<or> type_of v = uintValue \<or> type_of v = realValue"

definition isNumeric :: "Value \<Rightarrow> bool" where "isNumeric v = isDouble v"

subsection \<open>Conversion\<close>

definition integerToDouble_u64 :: "u64 \<Rightarrow> double" where
  "integerToDouble_u64 value =
     DFin (rnd_double (rnd_double (rnd_double (of_int (sint (value div 2))) * 2)
       + rnd_double (of_int (sint (value AND 1)))))"

text \<open>\<open>InRange(d, min, max)\<close>; the bound \<open>maxUInt64\<close> goes through the overload for \<open>UInt64\<close>.\<close>

definition InRange :: "double \<Rightarrow> double \<Rightarrow> double \<Rightarrow> bool" where
  "InRange d mn mx \<longleftrightarrow> dle mn d \<and> dle d mx"

definition trunc :: "rat \<Rightarrow> int" where
  "trunc q = (if q \<ge> 0 then \<lfloor>q\<rfloor> else \<lceil>q\<rceil>)"

text \<open>
  The cast of a double to an integer type with range \<open>lo .. hi\<close> truncates; outside the range the
  C++ standard leaves the behaviour undefined.
\<close>

definition cast_int :: "int \<Rightarrow> int \<Rightarrow> double \<Rightarrow> int outcome" where
  "cast_int lo hi d = (case d of
     DFin q \<Rightarrow> if lo \<le> trunc q \<and> trunc q \<le> hi then Inr (trunc q) else Inl (Undefined ''cast'')
   | DNegZero \<Rightarrow> Inr 0
   | _ \<Rightarrow> Inl (Undefined ''cast''))"

definition asCString :: "Value \<Rightarrow> string outcome" where
  "asCString v = (case payload v of PString s \<Rightarrow> Inr (cstr s)
   | _ \<Rightarrow> Inl (LogicError ''in Json::Value::asCString(): requires stringValue''))"

definition getString :: "Value \<Rightarrow> string option" where
  "getString v = (case payload v of PString s \<Rightarrow> Some s | _ \<Rightarrow> None)"

definition asString :: "Value \<Rightarrow> string outcome" where
  "asString v = (case payload v of
     PNull \<Rightarrow> Inr []
   | PString s \<Rightarrow> Inr s
   | PBool b \<Rightarrow> Inr (if b then ''true'' else ''false'')
   | PInt i \<Rightarrow> Inr (valueToString_LargestInt i)
   | PUInt u \<Rightarrow> Inr (valueToString_LargestUInt u)
   | PReal d \<Rightarrow> Inr (valueToString_double d False defaultRealPrecision significantDigits)
   | _ \<Rightarrow> Inl (LogicError ''Type is not convertible to string''))"

definition asInt :: "Value \<Rightarrow> int outcome" where
  "asInt v = (case payload v of
     PInt i \<Rightarrow> json_assert (isInt v) ''LargestInt out of Int range'' (Inr (sint i))
   | PUInt u \<Rightarrow> json_assert (isInt v) ''LargestUInt out of Int range'' (Inr (uint u))
   | PReal d \<Rightarrow> json_assert (InRange d (dint minInt) (dint maxInt)) ''double out of Int range''
       (cast_int minInt maxInt d)
   | PNull \<Rightarrow> Inr 0
   | PBool b \<Rightarrow> Inr (if b then 1 else 0)
   | _ \<Rightarrow> Inl (LogicError ''Value is not convertible to Int.''))"

definition asUInt :: "Value \<Rightarrow> int outcome" where
  "asUInt v = (case payload v of
     PInt i \<Rightarrow> json_assert (isUInt v) ''LargestInt out of UInt range'' (Inr (sint i))
   | PUInt u \<Rightarrow> json_assert (isUInt v) ''LargestUInt out of UInt range'' (Inr (uint u))
   | PReal d \<Rightarrow> json_assert (InRange d (dint 0) (dint maxUInt)) ''double out of UInt range''
       (cast_int 0 maxUInt d)
   | PNull \<Rightarrow> Inr 0
   | PBool b \<Rightarrow> Inr (if b then 1 else 0)
   | _ \<Rightarrow> Inl (LogicError ''Value is not convertible to UInt.''))"

definition asInt64 :: "Value \<Rightarrow> int outcome" where
  "asInt64 v = (case payload v of
     PInt i \<Rightarrow> Inr (sint i)
   | PUInt u \<Rightarrow> json_assert (isInt64 v) ''LargestUInt out of Int64 range'' (Inr (uint u))
   | PReal d \<Rightarrow> json_assert (InRange d (dint minInt64) (dint maxInt64)) ''double out of Int64 range''
       (cast_int minInt64 maxInt64 d)
   | PNull \<Rightarrow> Inr 0
   | PBool b \<Rightarrow> Inr (if b then 1 else 0)
   | _ \<Rightarrow> Inl (LogicError ''Value is not convertible to Int64.''))"

definition asUInt64 :: "Value \<Rightarrow> int outcome" where
  "asUInt64 v = (case payload v of
     PInt i \<Rightarrow> json_assert (isUInt64 v) ''LargestInt out of UInt64 range'' (Inr (sint i))
   | PUInt u \<Rightarrow> Inr (uint u)
   | PReal d \<Rightarrow> json_assert (InRange d (dint 0) (integerToDouble_u64 (- 1))) ''double out of UInt64 range''
       (cast_int 0 maxUInt64 d)
   | PNull \<Rightarrow> Inr 0
   | PBool b \<Rightarrow> Inr (if b then 1 else 0)
   | _ \<Rightarrow> Inl (LogicError ''Value is not convertible to UInt64.''))"

definition asLargestInt :: "Value \<Rightarrow> int outcome" where "asLargestInt v = asInt64 v"
definition asLargestUInt :: "Value \<Rightarrow> int outcome" where "asLargestUInt v = asUInt64 v"

definition asDouble :: "Value \<Rightarrow> double outcome" where
  "asDouble v = (case payload v of
     PInt i \<Rightarrow> Inr (dint (sint i))
   | PUInt u \<Rightarrow> Inr (integerToDouble_u64 u)
   | PReal d \<Rightarrow> Inr d
   | PNull \<Rightarrow> Inr (DFin 0)
   | PBool b \<Rightarrow> Inr (DFin (if b then 1 else 0))
   | _ \<Rightarrow> Inl (LogicError ''Value is not convertible to double.''))"

text \<open>A double narrowed to \<open>float\<close>: rounded, an infinity from \<open>2 ^ 128\<close> on.\<close>

fun float_cast :: "double \<Rightarrow> double" where
  "float_cast (DFin q) = (let r = rnd_float q in
     if \<bar>r\<bar> \<ge> 2 ^ 128 then DInf (q < 0) else if r = 0 \<and> q < 0 then DNegZero else DFin r)"
| "float_cast d = d"

definition asFloat :: "Value \<Rightarrow> double outcome" where
  "asFloat v = (case payload v of
     PInt i \<Rightarrow> Inr (DFin (rnd_float (of_int (sint i))))
   | PUInt u \<Rightarrow> Inr (float_cast (integerToDouble_u64 u))
   | PReal d \<Rightarrow> Inr (float_cast d)
   | PNull \<Rightarrow> Inr (DFin 0)
   | PBool b \<Rightarrow> Inr (DFin (if b then 1 else 0))
   | _ \<Rightarrow> Inl (LogicError ''Value is not convertible to float.''))"

definition asBool :: "Value \<Rightarrow> bool outcome" where
  "asBool v = (case payload v of
     PBool b \<Rightarrow> Inr b
   | PNull \<Rightarrow> Inr False
   | PInt i \<Rightarrow> Inr (i \<noteq> 0)
   | PUInt u \<Rightarrow> Inr (u \<noteq> 0)
   | PReal d \<Rightarrow> Inr (d \<noteq> DFin 0 \<and> d \<noteq> DNegZero \<and> d \<noteq> DNaN)
   | _ \<Rightarrow> Inl (LogicError ''Value is not convertible to bool.''))"

definition map_payload_empty :: "Value \<Rightarrow> bool" where
  "map_payload_empty v = (case payload v of PArray m \<Rightarrow> m = [] | PObject m \<Rightarrow> m = [] | _ \<Rightarrow> False)"

definition double_is_zero :: "Value \<Rightarrow> bool" where
  "double_is_zero v = (case asDouble v of Inr d \<Rightarrow> deq d (DFin 0) | Inl _ \<Rightarrow> False)"

fun isConvertibleTo :: "Value \<Rightarrow> ValueType \<Rightarrow> bool" where
  "isConvertibleTo v nullValue \<longleftrightarrow>
     isNumeric v \<and> double_is_zero v \<or> payload v = PBool False \<or> payload v = PString [] \<or>
     map_payload_empty v \<or> type_of v = nullValue"
| "isConvertibleTo v intValue \<longleftrightarrow>
     isInt v \<or> (case payload v of PReal d \<Rightarrow> InRange d (dint minInt) (dint maxInt) | _ \<Rightarrow> False) \<or>
     type_of v = booleanValue \<or> type_of v = nullValue"
| "isConvertibleTo v uintValue \<longleftrightarrow>
     isUInt v \<or> (case payload v of PReal d \<Rightarrow> InRange d (dint 0) (dint maxUInt) | _ \<Rightarrow> False) \<or>
     type_of v = booleanValue \<or> type_of v = nullValue"
| "isConvertibleTo v realValue \<longleftrightarrow> isNumeric v \<or> type_of v = booleanValue \<or> type_of v = nullValue"
| "isConvertibleTo v booleanValue \<longleftrightarrow> isNumeric v \<or> type_of v = booleanValue \<or> type_of v = nullValue"
| "isConvertibleTo v stringValue \<longleftrightarrow>
     isNumeric v \<or> type_of v = booleanValue \<or> type_of v = stringValue \<or> type_of v = nullValue"
| "isConvertibleTo v arrayValue \<longleftrightarrow> type_of v = arrayValue \<or> type_of v = nullValue"
| "isConvertibleTo v objectValue \<longleftrightarrow> type_of v = objectValue \<or> type_of v = nullValue"

subsection \<open>Containers\<close>

fun cz_index :: "czstring \<Rightarrow> u32" where
  "cz_index (CZIndex i) = i"
| "cz_index (CZStr s) = 0"

fun cz_name :: "czstring \<Rightarrow> string" where
  "cz_name (CZStr s) = s"
| "cz_name (CZIndex i) = []"

definition value_size :: "Value \<Rightarrow> u32" where
  "value_size v = (case payload v of
     PArray m \<Rightarrow> if m \<noteq> [] then cz_index (fst (last m)) + 1 else 0
   | PObject m \<Rightarrow> word_of_nat (length m)
   | _ \<Rightarrow> 0)"

definition value_empty :: "Value \<Rightarrow> bool" where
  "value_empty v = (if isNull v \<or> isArray v \<or> isObject v then value_size v = 0 else False)"

definition value_clear :: "Value \<Rightarrow> Value outcome" where
  "value_clear v =
    json_assert (type_of v = nullValue \<or> type_of v = arrayValue \<or> type_of v = objectValue)
      ''in Json::Value::clear(): requires complex value''
      (Inr (Value (case payload v of PArray _ \<Rightarrow> PArray [] | PObject _ \<Rightarrow> PObject [] | p \<Rightarrow> p)
        (v_comments v) 0 0))"

text \<open>\<open>if (type() == nullValue) *this = Value(arrayValue)\<close> and the map of the value that results.\<close>

definition coerce :: "ValueType \<Rightarrow> Value \<Rightarrow> Value" where
  "coerce t v = (if type_of v = nullValue then Value_of_type t else v)"

definition map_of_value :: "Value \<Rightarrow> ObjectValues" where
  "map_of_value v = (case payload v of PArray m \<Rightarrow> m | PObject m \<Rightarrow> m | _ \<Rightarrow> [])"

definition with_map :: "(ObjectValues \<Rightarrow> ObjectValues) \<Rightarrow> Value \<Rightarrow> Value" where
  "with_map f v = set_payload (case payload v of
     PArray m \<Rightarrow> PArray (f m) | PObject m \<Rightarrow> PObject (f m) | p \<Rightarrow> p) v"

text \<open>
  \<open>operator[](ArrayIndex)\<close> creates the element when it is missing (\<open>index_ref\<close>); \<open>index_get\<close> and
  \<open>index_put\<close> read and assign through the reference it returns. \<open>resolveReference\<close>,
  \<open>member_get\<close> and \<open>member_put\<close> are the same for object members.
\<close>

definition index_ref :: "u32 \<Rightarrow> Value \<Rightarrow> Value outcome" where
  "index_ref index v =
    json_assert (type_of v = nullValue \<or> type_of v = arrayValue)
      ''in Json::Value::operator[](ArrayIndex): requires arrayValue''
      (Inr (with_map (map_emplace (CZIndex index) nullSingleton) (coerce arrayValue v)))"

definition ref_get :: "czstring \<Rightarrow> Value \<Rightarrow> Value" where
  "ref_get k v = (case map_find k (map_of_value v) of Some x \<Rightarrow> x | None \<Rightarrow> nullSingleton)"

definition ref_put :: "czstring \<Rightarrow> Value \<Rightarrow> Value \<Rightarrow> Value" where
  "ref_put k x v = with_map (map_put k x) v"

definition index_put :: "u32 \<Rightarrow> Value \<Rightarrow> Value \<Rightarrow> Value outcome" where
  "index_put index x v = map_sum id (ref_put (CZIndex index) x) (index_ref index v)"

definition index_ref_int :: "int \<Rightarrow> Value \<Rightarrow> Value outcome" where
  "index_ref_int index v =
    json_assert (index \<ge> 0) ''in Json::Value::operator[](int index): index cannot be negative''
      (index_ref (word_of_int index) v)"

definition index_const :: "u32 \<Rightarrow> Value \<Rightarrow> Value outcome" where
  "index_const index v =
    json_assert (type_of v = nullValue \<or> type_of v = arrayValue)
      ''in Json::Value::operator[](ArrayIndex)const: requires arrayValue''
      (Inr (if type_of v = nullValue then nullSingleton else ref_get (CZIndex index) v))"

definition index_const_int :: "int \<Rightarrow> Value \<Rightarrow> Value outcome" where
  "index_const_int index v =
    json_assert (index \<ge> 0) ''in Json::Value::operator[](int index) const: index cannot be negative''
      (index_const (word_of_int index) v)"

fun fold_outcome :: "('a \<Rightarrow> 's \<Rightarrow> 's outcome) \<Rightarrow> 'a list \<Rightarrow> 's \<Rightarrow> 's outcome" where
  "fold_outcome f [] s = Inr s"
| "fold_outcome f (x # xs) s = (case f x s of Inl e \<Rightarrow> Inl e | Inr s \<Rightarrow> fold_outcome f xs s)"

text \<open>The indices a \<open>for (ArrayIndex i = a; i < b; ++i)\<close> loop visits.\<close>

definition idx :: "nat \<Rightarrow> u32" where "idx n = word_of_nat n"

definition index_range :: "u32 \<Rightarrow> u32 \<Rightarrow> u32 list" where
  "index_range a b = map idx [unat a ..< unat b]"

definition value_resize :: "u32 \<Rightarrow> Value \<Rightarrow> Value outcome" where
  "value_resize newSize v =
    json_assert (type_of v = nullValue \<or> type_of v = arrayValue)
      ''in Json::Value::resize(): requires arrayValue''
      (let v = coerce arrayValue v; oldSize = value_size v in
       if newSize = 0 then value_clear v
       else if newSize > oldSize then fold_outcome index_ref (index_range oldSize newSize) v
       else let v = foldl (\<lambda>v i. with_map (map_erase (CZIndex i)) v) v (index_range newSize oldSize) in
         json_assert (value_size v = newSize) ''assert: size() == newSize'' (Inr v))"

definition resolveReference :: "string \<Rightarrow> Value \<Rightarrow> Value outcome" where
  "resolveReference k v =
    json_assert (type_of v = nullValue \<or> type_of v = objectValue)
      ''in Json::Value::resolveReference(key, end): requires objectValue''
      (Inr (with_map (map_emplace (CZString k) nullSingleton) (coerce objectValue v)))"

definition member_put :: "string \<Rightarrow> Value \<Rightarrow> Value \<Rightarrow> Value outcome" where
  "member_put k x v = map_sum id (ref_put (CZString k) x) (resolveReference k v)"

definition value_find :: "string \<Rightarrow> Value \<Rightarrow> Value option outcome" where
  "value_find k v =
    json_assert (type_of v = nullValue \<or> type_of v = objectValue)
      ''in Json::Value::find(begin, end): requires objectValue or nullValue''
      (Inr (if type_of v = nullValue then None else map_find (CZString k) (map_of_value v)))"

definition demand :: "string \<Rightarrow> Value \<Rightarrow> Value outcome" where
  "demand k v =
    json_assert (type_of v = nullValue \<or> type_of v = objectValue)
      ''in Json::Value::demand(begin, end): requires objectValue or nullValue''
      (resolveReference k v)"

definition member_get :: "string \<Rightarrow> Value \<Rightarrow> Value outcome" where
  "member_get k v =
     map_sum id (\<lambda>found. case found of None \<Rightarrow> nullSingleton | Some x \<Rightarrow> x) (value_find k v)"

definition get_member :: "string \<Rightarrow> Value \<Rightarrow> Value \<Rightarrow> Value outcome" where
  "get_member k defaultValue v =
     map_sum id (\<lambda>found. case found of None \<Rightarrow> defaultValue | Some x \<Rightarrow> x) (value_find k v)"

definition isMember :: "string \<Rightarrow> Value \<Rightarrow> bool outcome" where
  "isMember k v = map_sum id (\<lambda>found. found \<noteq> None) (value_find k v)"

text \<open>
  \<open>get(index, default)\<close> compares the address of the element with that of the null singleton:
  the default is returned when there is no element.
\<close>

definition get_index :: "u32 \<Rightarrow> Value \<Rightarrow> Value \<Rightarrow> Value outcome" where
  "get_index index defaultValue v =
    json_assert (type_of v = nullValue \<or> type_of v = arrayValue)
      ''in Json::Value::operator[](ArrayIndex)const: requires arrayValue''
      (Inr (if type_of v = nullValue then defaultValue else
        case map_find (CZIndex index) (map_of_value v) of None \<Rightarrow> defaultValue | Some x \<Rightarrow> x))"

definition isValidIndex :: "u32 \<Rightarrow> Value \<Rightarrow> bool" where
  "isValidIndex index v = (index < value_size v)"

definition value_append :: "Value \<Rightarrow> Value \<Rightarrow> Value outcome" where
  "value_append x v =
    json_assert (type_of v = nullValue \<or> type_of v = arrayValue)
      ''in Json::Value::append: requires arrayValue''
      (let v = coerce arrayValue v in
       Inr (with_map (map_emplace (CZIndex (value_size v)) x) v))"

text \<open>
  One step of the loop of \<open>insert\<close>: the element \<open>i - 1\<close> is moved into the element \<open>i\<close>. The move
  assignment of a \<open>Value\<close> swaps, so the old element \<open>i\<close> ends up in place \<open>i - 1\<close>.
\<close>

definition move_up :: "u32 \<Rightarrow> Value \<Rightarrow> Value outcome" where
  "move_up i v =
    (case index_ref (i - 1) v of Inl e \<Rightarrow> Inl e | Inr v \<Rightarrow>
     case index_ref i v of Inl e \<Rightarrow> Inl e | Inr v \<Rightarrow>
     let lo = ref_get (CZIndex (i - 1)) v; hi = ref_get (CZIndex i) v in
     Inr (ref_put (CZIndex i) lo (ref_put (CZIndex (i - 1)) hi v)))"

definition value_insert :: "u32 \<Rightarrow> Value \<Rightarrow> Value \<Rightarrow> (bool \<times> Value) outcome" where
  "value_insert index x v =
    json_assert (type_of v = nullValue \<or> type_of v = arrayValue)
      ''in Json::Value::insert: requires arrayValue''
      (let len = value_size v in
       if index > len then Inr (False, v) else
       case fold_outcome move_up (rev (map (\<lambda>i. i + 1) (index_range index len))) v of
         Inl e \<Rightarrow> Inl e
       | Inr v \<Rightarrow> map_sum id (\<lambda>v. (True, v)) (index_put index x v))"

text \<open>\<open>removeMember\<close> with the removed member returned, and the variant that ignores it.\<close>

definition removeMember :: "string \<Rightarrow> Value \<Rightarrow> Value option \<times> Value" where
  "removeMember k v =
    (if type_of v \<noteq> objectValue then (None, v) else
     case map_find (CZString k) (map_of_value v) of
       None \<Rightarrow> (None, v)
     | Some x \<Rightarrow> (Some x, with_map (map_erase (CZString k)) v))"

definition removeMember_void :: "string \<Rightarrow> Value \<Rightarrow> Value outcome" where
  "removeMember_void k v =
    json_assert (type_of v = nullValue \<or> type_of v = objectValue)
      ''in Json::Value::removeMember(): requires objectValue''
      (Inr (if type_of v = nullValue then v else with_map (map_erase (CZString (cstr k))) v))"

definition move_down :: "u32 \<Rightarrow> Value \<Rightarrow> Value outcome" where
  "move_down i v =
    (case index_ref (i + 1) v of Inl e \<Rightarrow> Inl e | Inr v \<Rightarrow>
     Inr (ref_put (CZIndex i) (ref_get (CZIndex (i + 1)) v) v))"

definition removeIndex :: "u32 \<Rightarrow> Value \<Rightarrow> (Value option \<times> Value) outcome" where
  "removeIndex index v =
    (if type_of v \<noteq> arrayValue then Inr (None, v) else
     case map_find (CZIndex index) (map_of_value v) of
       None \<Rightarrow> Inr (None, v)
     | Some x \<Rightarrow>
        (let oldSize = value_size v in
         case fold_outcome move_down (index_range index (oldSize - 1)) v of
           Inl e \<Rightarrow> Inl e
         | Inr v \<Rightarrow> Inr (Some x, with_map (map_erase (CZIndex (oldSize - 1))) v)))"

definition getMemberNames :: "Value \<Rightarrow> string list outcome" where
  "getMemberNames v =
    json_assert (type_of v = nullValue \<or> type_of v = objectValue)
      ''in Json::Value::getMemberNames(), value must be objectValue''
      (Inr (if type_of v = nullValue then [] else map (cz_name \<circ> fst) (map_of_value v)))"

section \<open>Dense arrays behave like lists\<close>

fun elem_at :: "Value list \<Rightarrow> czstring \<Rightarrow> Value option" where
  "elem_at xs (CZIndex i) = (if unat i < length xs then Some (xs ! unat i) else None)"
| "elem_at xs (CZStr s) = None"

definition dense_map :: "Value list \<Rightarrow> ObjectValues \<Rightarrow> bool" where
  "dense_map xs m \<longleftrightarrow> length xs < 2 ^ 32 \<and> sorted_map m \<and> (\<forall>k. map_find k m = elem_at xs k)"

definition is_array :: "Value list \<Rightarrow> Value \<Rightarrow> bool" where
  "is_array xs v \<longleftrightarrow> (\<exists>m. payload v = PArray m \<and> dense_map xs m)"

lemma unat_idx: "n < 2 ^ 32 \<Longrightarrow> unat (idx n) = n"
  by (simp add: idx_def unsigned_of_nat take_bit_nat_eq_self)

lemma eq_idx: "n < 2 ^ 32 \<Longrightarrow> w = idx n \<longleftrightarrow> unat w = n"
  using unat_idx [of n] by (metis word_unat_eq_iff)

lemma idx_Suc: "idx n + 1 = idx (Suc n)" "1 + idx n = idx (Suc n)"
  by (simp_all add: idx_def add.commute)

lemma idx_pred: "0 < n \<Longrightarrow> idx n - 1 = idx (n - 1)"
  by (simp add: idx_def of_nat_diff)

lemma idx_0: "idx 0 = 0"
  by (simp add: idx_def)

lemma dense_map_Nil: "dense_map [] m \<longleftrightarrow> m = []"
proof
  assume "dense_map [] m"
  then have "map_find k m = None" for k by (cases k) (simp_all add: dense_map_def)
  then show "m = []" by (cases m) (metis map_find_simps(2) option.distinct(1))+
next
  assume "m = []"
  moreover have "elem_at [] k = None" for k by (cases k) simp_all
  ultimately show "dense_map [] m" by (simp add: dense_map_def)
qed

lemma sorted_map_last:
  "sorted_map m \<Longrightarrow> p \<in> set m \<Longrightarrow> fst p \<le> fst (last m)"
  by (induction m) (auto simp: sorted_map_Cons dest: last_in_set less_imp_le)

lemma dense_map_last:
  assumes "dense_map xs m" "xs \<noteq> []"
  shows "m \<noteq> []" "fst (last m) = CZIndex (idx (length xs - 1))"
proof -
  let ?k = "CZIndex (idx (length xs - 1))"
  have n: "length xs < 2 ^ 32" "sorted_map m" and f: "\<And>k. map_find k m = elem_at xs k"
    using assms(1) by (auto simp: dense_map_def)
  from n assms(2) have u: "unat (idx (length xs - 1)) = length xs - 1"
    by (intro unat_idx) simp
  with assms(2) f [of ?k] have "map_find ?k m = Some (last xs)"
    by (simp add: last_conv_nth)
  then have i: "(?k, last xs) \<in> set m" by (rule map_find_Some_in)
  then show ne: "m \<noteq> []" by auto
  obtain k x where l: "last m = (k, x)" by (cases "last m")
  with ne n have "map_find k m = Some x" by (simp add: map_find_in_iff) (metis last_in_set)
  with f [of k] obtain j where j: "k = CZIndex j" "unat j < length xs" by (cases k) (auto split: if_splits)
  from sorted_map_last [OF n(2) i] l j have "idx (length xs - 1) \<le> j"
    by (simp add: less_eq_czstring_def)  auto
  then have "length xs - 1 \<le> unat j" by (simp only: word_le_nat_alt u)
  with j have "unat j = length xs - 1" by simp
  then have "j = idx (length xs - 1)" using u by (metis word_unat_eq_iff)
  with l j show "fst (last m) = ?k" by simp
qed

lemma dense_size: "is_array xs v \<Longrightarrow> value_size v = idx (length xs)"
proof -
  assume "is_array xs v"
  then obtain m where m: "payload v = PArray m" "dense_map xs m" by (auto simp: is_array_def)
  show ?thesis
  proof (cases "xs = []")
    case False
    with dense_map_last [OF m(2)] m show ?thesis
      by (simp add: value_size_def idx_Suc)
  qed (use m in \<open>simp add: value_size_def dense_map_Nil idx_0\<close>)
qed

lemma dense_put: "dense_map xs m \<Longrightarrow> i < length xs \<Longrightarrow>
  dense_map (xs[i := x]) (map_put (CZIndex (idx i)) x m)"
proof -
  assume a: "dense_map xs m" "i < length xs"
  then have u: "unat (idx i) = i" by (simp add: dense_map_def unat_idx)
  have "elem_at (xs[i := x]) k =
    (if k = CZIndex (idx i) then Some x else elem_at xs k)" for k
    using a by (cases k) (auto simp: nth_list_update dense_map_def eq_idx)
  with a show ?thesis by (simp add: dense_map_def om.find_simps)
qed

lemma dense_emplace_new: "dense_map xs m \<Longrightarrow> length xs + 1 < 2 ^ 32 \<Longrightarrow>
  dense_map (xs @ [x]) (map_emplace (CZIndex (idx (length xs))) x m)"
proof -
  assume a: "dense_map xs m" "length xs + 1 < 2 ^ 32"
  then have u: "unat (idx (length xs)) = length xs" by (simp add: unat_idx)
  have "elem_at (xs @ [x]) k =
    (if k = CZIndex (idx (length xs)) then Some x else elem_at xs k)" for k
    using a by (cases k) (auto simp: nth_append less_Suc_eq eq_idx)
  with a u show ?thesis by (simp add: dense_map_def om.find_simps)
qed

lemma dense_emplace_old: "dense_map xs m \<Longrightarrow> i < length xs \<Longrightarrow>
  map_emplace (CZIndex (idx i)) x m = m"
  by (rule om.emplace_present [where w = "xs ! i"]) (simp_all add: dense_map_def unat_idx)

lemma dense_erase_last: "dense_map (xs @ [x]) m \<Longrightarrow>
  dense_map xs (map_erase (CZIndex (idx (length xs))) m)"
proof -
  assume a: "dense_map (xs @ [x]) m"
  then have n: "length xs < 2 ^ 32" by (simp add: dense_map_def)
  have "elem_at xs k =
    (if k = CZIndex (idx (length xs)) then None else elem_at (xs @ [x]) k)" for k
    by (cases k) (auto simp: nth_append eq_idx [OF n])
  with a show ?thesis by (simp add: dense_map_def om.find_simps)
qed

lemma is_array_type: "is_array xs v \<Longrightarrow> type_of v = arrayValue"
  by (auto simp: is_array_def type_of_def)

lemma is_array_fits: "is_array xs v \<Longrightarrow> length xs < 2 ^ 32"
  by (auto simp: is_array_def dense_map_def)

lemma is_array_unat_size: "is_array xs v \<Longrightarrow> unat (value_size v) = length xs"
  by (metis dense_size is_array_fits unat_idx)

lemma is_array_coerce [simp]: "is_array xs v \<Longrightarrow> coerce arrayValue v = v"
  by (simp add: coerce_def is_array_type)

lemma is_array_new: "is_array [] (Value_of_type arrayValue)"
  by (simp add: is_array_def Value_of_type_def initBasic_def dense_map_Nil)

lemma is_array_with_map:
  "is_array xs v \<Longrightarrow> (\<And>m. dense_map xs m \<Longrightarrow> dense_map ys (f m)) \<Longrightarrow> is_array ys (with_map f v)"
  by (auto simp: is_array_def with_map_def set_payload_def)

lemma is_array_ref_get: "is_array xs v \<Longrightarrow> i < length xs \<Longrightarrow> ref_get (CZIndex (idx i)) v = xs ! i"
  by (auto simp: is_array_def ref_get_def map_of_value_def dense_map_def unat_idx)

lemma is_array_ref_put: "is_array xs v \<Longrightarrow> i < length xs \<Longrightarrow> is_array (xs[i := x]) (ref_put (CZIndex (idx i)) x v)"
  unfolding ref_put_def by (erule is_array_with_map) (rule dense_put)

lemma is_array_index_ref: "is_array xs v \<Longrightarrow> i < length xs \<Longrightarrow> index_ref (idx i) v = Inr v"
  by (cases v) (auto simp: index_ref_def json_assert_def is_array_type with_map_def set_payload_def
    is_array_def dense_emplace_old type_of_def coerce_def)

lemma is_array_index_ref_new: "is_array xs v \<Longrightarrow> length xs + 1 < 2 ^ 32 \<Longrightarrow>
  \<exists>v'. index_ref (idx (length xs)) v = Inr v' \<and> is_array (xs @ [nullSingleton]) v'"
  using is_array_with_map [OF _ dense_emplace_new]
  by (simp add: index_ref_def json_assert_def is_array_type)

lemma is_array_append: "is_array xs v \<Longrightarrow> length xs + 1 < 2 ^ 32 \<Longrightarrow>
  \<exists>v'. value_append x v = Inr v' \<and> is_array (xs @ [x]) v'"
  using is_array_with_map [OF _ dense_emplace_new]
  by (simp add: value_append_def json_assert_def is_array_type dense_size)

lemma is_array_index_put: "is_array xs v \<Longrightarrow> i < length xs \<Longrightarrow>
  \<exists>v'. index_put (idx i) x v = Inr v' \<and> is_array (xs[i := x]) v'"
  by (simp add: index_put_def is_array_index_ref is_array_ref_put)

lemma is_array_move_up: "is_array xs v \<Longrightarrow> 0 < i \<Longrightarrow> i < length xs \<Longrightarrow>
  \<exists>v'. move_up (idx i) v = Inr v' \<and> is_array (xs[i - 1 := xs ! i, i := xs ! (i - 1)]) v'"
  by (simp add: move_up_def idx_pred is_array_index_ref is_array_ref_get is_array_ref_put)

lemma is_array_move_down: "is_array xs v \<Longrightarrow> Suc i < length xs \<Longrightarrow>
  \<exists>v'. move_down (idx i) v = Inr v' \<and> is_array (xs[i := xs ! Suc i]) v'"
  using is_array_index_ref [of xs v "Suc i"] is_array_ref_get [of xs v "Suc i"]
    is_array_ref_put [of xs v i]
  by (simp add: move_down_def idx_Suc)

lemma index_range_u: "unat a = m \<Longrightarrow> unat b = n \<Longrightarrow> index_range a b = map idx [m ..< n]"
  by (simp add: index_range_def)

lemma fold_move_down:
  "is_array (as @ a # bs) v \<Longrightarrow>
   \<exists>v'. fold_outcome move_down (map idx [length as ..< length as + length bs]) v = Inr v' \<and>
     is_array (as @ bs @ [last (a # bs)]) v'"
proof (induction bs arbitrary: as a v)
  case (Cons b bs)
  obtain w where w: "move_down (idx (length as)) v = Inr w" "is_array ((as @ [b]) @ b # bs) w"
    using is_array_move_down [OF Cons.prems, of "length as"]
    by (auto simp: nth_append list_update_append)
  have "[length as ..< length as + length (b # bs)] =
      length as # [length (as @ [b]) ..< length (as @ [b]) + length bs]"
    by (simp add: upt_conv_Cons del: upt_Suc)
  with Cons.IH [OF w(2)] w(1) show ?case by simp
qed simp

lemma is_array_removeIndex:
  assumes "is_array (as @ a # bs) v"
  shows "\<exists>v'. removeIndex (idx (length as)) v = Inr (Some a, v') \<and> is_array (as @ bs) v'"
proof -
  let ?n = "length as + length bs"
  have n: "?n < 2 ^ 32" using is_array_fits [OF assms] by simp
  then have u: "unat (idx (length as)) = length as" "unat (idx ?n) = ?n"
    by (simp_all add: unat_idx)
  from assms u(1) have f: "map_find (CZIndex (idx (length as))) (map_of_value v) = Some a"
    by (auto simp: is_array_def map_of_value_def dense_map_def)
  have s: "value_size v - 1 = idx ?n"
    using idx_pred [of "Suc ?n"] by (simp add: dense_size [OF assms])
  obtain w where w: "fold_outcome move_down (map idx [length as ..< ?n]) v = Inr w"
    "is_array (as @ bs @ [last (a # bs)]) w"
    using fold_move_down [OF assms] by blast
  have "is_array (as @ bs) (with_map (map_erase (CZIndex (idx ?n))) w)"
    using is_array_with_map [OF w(2), of "as @ bs" "map_erase (CZIndex (idx ?n))"]
      dense_erase_last [of "as @ bs" "last (a # bs)"] by simp
  with w(1) show ?thesis
    by (simp add: removeIndex_def is_array_type [OF assms] f s Let_def index_range_def u)
qed

lemma fold_index_ref:
  "is_array xs v \<Longrightarrow> length xs + n < 2 ^ 32 \<Longrightarrow>
   \<exists>v'. fold_outcome index_ref (map idx [length xs ..< length xs + n]) v = Inr v' \<and>
     is_array (xs @ replicate n nullSingleton) v'"
proof (induction n arbitrary: xs v)
  case (Suc n)
  obtain w where w: "index_ref (idx (length xs)) v = Inr w" "is_array (xs @ [nullSingleton]) w"
    using is_array_index_ref_new [OF Suc.prems(1)] Suc.prems(2) by auto
  have "[length xs ..< length xs + Suc n] =
      length xs # [length (xs @ [nullSingleton]) ..< length (xs @ [nullSingleton]) + n]"
    by (simp add: upt_conv_Cons del: upt_Suc)
  with Suc.IH [OF w(2)] Suc.prems(2) w(1) show ?case by simp
qed simp

text \<open>Erasing the indices from the new size on, in ascending order, cuts the list.\<close>

lemma dense_take_erase:
  assumes "sorted_map m" "length xs < 2 ^ 32" "n \<le> j" "j \<le> length xs"
    "\<And>k. map_find k m = (case k of CZIndex i \<Rightarrow>
        if n \<le> unat i \<and> unat i < j then None else elem_at xs k | _ \<Rightarrow> None)"
  shows "dense_map (take n xs)
     (foldl (\<lambda>m i. map_erase (CZIndex i) m) m (map idx [j ..< length xs]))"
  using assms
proof (induction "length xs - j" arbitrary: j m)
  case 0
  then have "elem_at (take n xs) k = map_find k m" for k
    by (auto split: czstring.splits simp: not_less)
  with 0 show ?case by (simp add: dense_map_def)
next
  case (Suc d)
  then have j: "[j ..< length xs] = j # [Suc j ..< length xs]" by (simp add: upt_conv_Cons)
  have "dense_map (take n xs)
      (foldl (\<lambda>m i. map_erase (CZIndex i) m) (map_erase (CZIndex (idx j)) m) (map idx [Suc j ..< length xs]))"
  proof (rule Suc.hyps(1))
    show "sorted_map (map_erase (CZIndex (idx j)) m)" using Suc.prems(1) by (rule om.invar_erase)
    fix k show "map_find k (map_erase (CZIndex (idx j)) m) = (case k of CZIndex i \<Rightarrow>
        if n \<le> unat i \<and> unat i < Suc j then None else elem_at xs k | _ \<Rightarrow> None)"
      using Suc.prems Suc.hyps(2)
      by (auto simp: om.find_simps eq_idx unat_idx less_Suc_eq split: czstring.splits)
  qed (use Suc in auto)
  with j show ?case by simp
qed

lemma foldl_with_map:
  "payload v = PArray m \<Longrightarrow> payload (foldl (\<lambda>v i. with_map (f i) v) v is) = PArray (foldl (\<lambda>m i. f i m) m is)"
proof (induction "is" arbitrary: v m)
  case (Cons i "is")
  then have "payload (with_map (f i) v) = PArray (f i m)" by (simp add: with_map_def set_payload_def)
  from Cons.IH [OF this] show ?case by simp
qed simp

lemma is_array_resize:
  assumes "is_array xs v" "n < 2 ^ 32"
  shows "\<exists>v'. value_resize (idx n) v = Inr v' \<and>
    is_array (take n xs @ replicate (n - length xs) nullSingleton) v'"
proof -
  have s: "unat (value_size v) = length xs" "unat (idx n) = n"
    using assms by (simp_all add: is_array_unat_size unat_idx)
  have gt: "value_size v < idx n \<longleftrightarrow> length xs < n" by (simp add: word_less_nat_alt s)
  have z: "idx n = 0 \<longleftrightarrow> n = 0" using s(2) by (metis idx_0 unat_0)
  consider "n = 0" | "length xs < n" "n \<noteq> 0" | "n \<le> length xs" "n \<noteq> 0" by linarith
  then show ?thesis
  proof cases
    case 1
    obtain m where m: "payload v = PArray m" using assms(1) by (auto simp: is_array_def)
    with 1 z show ?thesis using is_array_type [OF assms(1)] is_array_coerce [OF assms(1)]
      by (simp add: value_resize_def value_clear_def json_assert_def is_array_def dense_map_Nil)
  next
    case 2
    then obtain w where w: "fold_outcome index_ref (map idx [length xs ..< n]) v = Inr w"
      "is_array (xs @ replicate (n - length xs) nullSingleton) w"
      using fold_index_ref [OF assms(1), of "n - length xs"] assms(2) by auto
    with 2 z gt show ?thesis using is_array_type [OF assms(1)] is_array_coerce [OF assms(1)]
      by (simp add: value_resize_def json_assert_def index_range_def s)
  next
    case 3
    let ?w = "foldl (\<lambda>v i. with_map (map_erase (CZIndex i)) v) v (map idx [n ..< length xs])"
    obtain m where m: "payload v = PArray m" "dense_map xs m" using assms(1) by (auto simp: is_array_def)
    have "dense_map (take n xs) (foldl (\<lambda>m i. map_erase (CZIndex i) m) m (map idx [n ..< length xs]))"
      using m(2) 3(1) by (intro dense_take_erase) (auto simp: dense_map_def split: czstring.splits)
    then have w: "is_array (take n xs) ?w"
      using foldl_with_map [OF m(1), of "\<lambda>i. map_erase (CZIndex i)"] by (simp add: is_array_def)
    then have "value_size ?w = idx n" using 3(1) by (simp add: dense_size min_def)
    with 3 w z gt show ?thesis using is_array_type [OF assms(1)] is_array_coerce [OF assms(1)]
      by (simp add: value_resize_def json_assert_def index_range_def s Let_def)
  qed
qed

lemma is_array_move_up_new:
  assumes "is_array (as @ [a]) v" "length as + 2 < 2 ^ 32"
  shows "\<exists>v'. move_up (idx (Suc (length as))) v = Inr v' \<and> is_array (as @ [nullSingleton, a]) v'"
proof -
  obtain w where w: "index_ref (idx (Suc (length as))) v = Inr w" "is_array (as @ [a, nullSingleton]) w"
    using is_array_index_ref_new [OF assms(1)] assms(2) by auto
  have "index_ref (idx (length as)) v = Inr v" by (rule is_array_index_ref [OF assms(1)]) simp
  moreover have "ref_get (CZIndex (idx (length as))) w = a"
    "ref_get (CZIndex (idx (Suc (length as)))) w = nullSingleton"
    using is_array_ref_get [OF w(2), of "length as"] is_array_ref_get [OF w(2), of "Suc (length as)"]
    by (simp_all add: nth_append)
  moreover have "is_array (as @ [nullSingleton, a])
    (ref_put (CZIndex (idx (Suc (length as)))) a (ref_put (CZIndex (idx (length as))) nullSingleton w))"
    using is_array_ref_put [OF is_array_ref_put [OF w(2), of "length as" nullSingleton],
        of "Suc (length as)" a]
    by (simp add: list_update_append)
  ultimately show ?thesis using w(1) by (simp add: move_up_def idx_pred)
qed

lemma fold_move_up:
  "is_array (as @ h # bs) v \<Longrightarrow> i \<le> length as \<Longrightarrow>
   \<exists>v'. fold_outcome move_up (map idx (rev [Suc i ..< Suc (length as)])) v = Inr v' \<and>
     is_array (take i as @ h # drop i as @ bs) v'"
proof (induction as arbitrary: bs v rule: rev_induct)
  case (snoc a as)
  show ?case
  proof (cases "i \<le> length as")
    case True
    obtain w where w: "move_up (idx (Suc (length as))) v = Inr w"
        "is_array ((as @ a # h # bs)[length as := h, Suc (length as) := a]) w"
      using is_array_move_up [of "as @ a # h # bs" v "Suc (length as)"] snoc.prems(1)
      by (auto simp: nth_append)
    from w(2) have "is_array (as @ h # a # bs) w" by (simp add: list_update_append)
    from snoc.IH [OF this True] w(1) True show ?thesis by simp
  qed (use snoc.prems in simp)
qed simp

lemma is_array_insert:
  assumes "is_array xs v" "i \<le> length xs" "length xs + 1 < 2 ^ 32"
  shows "\<exists>v'. value_insert (idx i) x v = Inr (True, v') \<and> is_array (take i xs @ x # drop i xs) v'"
proof -
  let ?loop = "fold_outcome move_up (map idx (rev [Suc i ..< Suc (length xs)])) v"
  have u: "unat (idx i) = i" "unat (value_size v) = length xs"
    using assms by (simp_all add: unat_idx is_array_unat_size)
  then have r: "rev (map (\<lambda>i. i + 1) (index_range (idx i) (value_size v))) =
      map idx (rev [Suc i ..< Suc (length xs)])"
    by (simp add: index_range_def rev_map o_def idx_Suc map_Suc_upt [symmetric] del: upt_Suc)
  have le: "\<not> value_size v < idx i" using u assms(2) by (simp add: word_less_nat_alt)
  have "\<exists>w w'. ?loop = Inr w \<and> index_put (idx i) x w = Inr w' \<and> is_array (take i xs @ x # drop i xs) w'"
  proof (cases "i = length xs")
    case True
    obtain w where w: "index_ref (idx i) v = Inr w" "is_array (xs @ [nullSingleton]) w"
      using is_array_index_ref_new [OF assms(1,3)] True by blast
    with True is_array_ref_put [OF w(2), of i x] show ?thesis by (simp add: index_put_def)
  next
    case False
    with assms(2) obtain as a where xs: "xs = as @ [a]" "i \<le> length as"
      by (cases xs rule: rev_cases) auto
    obtain u where u: "move_up (idx (Suc (length as))) v = Inr u" "is_array (as @ nullSingleton # [a]) u"
      using is_array_move_up_new [of as a v] assms xs by auto
    obtain w where w: "fold_outcome move_up (map idx (rev [Suc i ..< Suc (length as)])) u = Inr w"
      "is_array (take i as @ nullSingleton # drop i as @ [a]) w"
      using fold_move_up [OF u(2) xs(2)] by blast
    from is_array_index_put [OF w(2), of i x] xs
    have "\<exists>w'. index_put (idx i) x w = Inr w' \<and> is_array (take i xs @ x # drop i xs) w'"
      by (simp add: list_update_append)
    moreover have "?loop = Inr w" using w(1) u(1) xs by simp
    ultimately show ?thesis by blast
  qed
  with r le show ?thesis
    by (auto simp: value_insert_def json_assert_def is_array_type [OF assms(1)])
qed

section \<open>Well-formed values\<close>

text \<open>
  The maps of arrays hold indices only, those of objects strings only, both in strictly
  ascending order, at every level.
\<close>

fun is_index_key :: "czstring \<Rightarrow> bool" where
  "is_index_key (CZIndex _) = True"
| "is_index_key (CZStr _) = False"

fun wf_value :: "Value \<Rightarrow> bool" and wf_payload :: "Payload \<Rightarrow> bool" and wf_all :: "ObjectValues \<Rightarrow> bool" where
  "wf_value (Value p _ _ _) = wf_payload p"
| "wf_payload p = (case p of
     PArray m \<Rightarrow> sorted_map m \<and> (\<forall>e \<in> set m. is_index_key (fst e)) \<and> wf_all m
   | PObject m \<Rightarrow> sorted_map m \<and> (\<forall>e \<in> set m. \<not> is_index_key (fst e)) \<and> wf_all m
   | _ \<Rightarrow> True)"
| "wf_all [] = True"
| "wf_all ((k, v) # m) = (wf_value v \<and> wf_all m)"

lemma wf_all_iff: "wf_all m \<longleftrightarrow> (\<forall>e \<in> set m. wf_value (snd e))"
  by (induction m) auto

lemma wf_iff: "wf_value v \<longleftrightarrow> wf_payload (payload v)"
  by (cases v) simp

definition wf_map :: "bool \<Rightarrow> ObjectValues \<Rightarrow> bool" where
  "wf_map b m \<longleftrightarrow> sorted_map m \<and> (\<forall>e \<in> set m. is_index_key (fst e) = b \<and> wf_value (snd e))"

lemma wf_payload_maps [simp]:
  "wf_payload (PArray m) = wf_map True m" "wf_payload (PObject m) = wf_map False m"
  by (auto simp: wf_map_def wf_all_iff)

declare wf_payload.simps [simp del]

lemma wf_payload_scalars [simp]: "wf_payload PNull" "wf_payload (PInt i)" "wf_payload (PUInt u)"
    "wf_payload (PReal d)" "wf_payload (PString s)" "wf_payload (PBool b)"
  by (simp_all add: wf_payload.simps)

lemma wf_map_emplace: "wf_map b m \<Longrightarrow> is_index_key k = b \<Longrightarrow> wf_value x \<Longrightarrow> wf_map b (map_emplace k x m)"
  using set_map_emplace [of k x m] om.invar_emplace [of m k x] by (fastforce simp: wf_map_def)

lemma wf_map_put: "wf_map b m \<Longrightarrow> is_index_key k = b \<Longrightarrow> wf_value x \<Longrightarrow> wf_map b (map_put k x m)"
proof -
  assume a: "wf_map b m" "is_index_key k = b" "wf_value x"
  from wf_map_emplace [OF this] have "wf_map b (map_emplace k x m)" .
  with a om.invar_put [of m k x] show ?thesis by (fastforce simp: wf_map_def map_put_def)
qed

lemma wf_map_erase: "wf_map b m \<Longrightarrow> wf_map b (map_erase k m)"
  using om.invar_erase [of m k] by (auto simp: wf_map_def map_erase_def)

lemma wf_null [simp]: "wf_value nullSingleton" "wf_value (Value_of_type t)"
  by (cases t; simp add: nullSingleton_def Value_of_type_def initBasic_def wf_map_def)+

lemma wf_coerce [simp]: "wf_value v \<Longrightarrow> wf_value (coerce t v)"
  by (simp add: coerce_def)

lemma is_index_key_CZString [simp]: "\<not> is_index_key (CZString s)"
  by (simp add: CZString_def)

lemma wf_ref_get: "wf_value v \<Longrightarrow> wf_value (ref_get k v)"
  by (cases v; cases "payload v")
    (fastforce simp: ref_get_def map_of_value_def wf_map_def dest: map_find_Some_in split: option.splits)+

lemma type_coerce: "type_of v = nullValue \<or> type_of v = t \<Longrightarrow> type_of (coerce t v) = t"
  by (cases t) (auto simp: coerce_def Value_of_type_def initBasic_def type_of_def)

lemma type_with_map [simp]: "type_of (with_map f v) = type_of v"
  by (cases v; cases "payload v") (simp_all add: with_map_def set_payload_def type_of_def)

lemma wf_with_map:
  assumes "wf_value v" "\<And>b m. wf_map b m \<Longrightarrow> b = (type_of v = arrayValue) \<Longrightarrow> wf_map b (f m)"
  shows "wf_value (with_map f v)"
  using assms by (cases v; cases "payload v") (auto simp: with_map_def set_payload_def type_of_def)

lemma json_assert_Inr [simp]: "json_assert c msg k = Inr x \<longleftrightarrow> c \<and> k = Inr x"
  by (simp add: json_assert_def)

lemma map_sum_Inr [simp]: "map_sum id f r = Inr y \<longleftrightarrow> (\<exists>x. r = Inr x \<and> y = f x)"
  by (cases r) auto

lemma wf_index_ref: "wf_value v \<Longrightarrow> index_ref i v = Inr v' \<Longrightarrow> wf_value v' \<and> type_of v' = arrayValue"
  by (auto simp: index_ref_def type_coerce intro!: wf_with_map wf_map_emplace)

lemma wf_resolveReference: "wf_value v \<Longrightarrow> resolveReference name v = Inr x \<Longrightarrow> wf_value x"
  by (auto simp: resolveReference_def type_coerce intro!: wf_with_map wf_map_emplace)

lemma sorted_map_of_value: "wf_value v \<Longrightarrow> sorted_map (map_of_value v)"
  by (cases "payload v") (auto simp: wf_iff map_of_value_def wf_map_def)

lemma wf_ref_put:
  "wf_value v \<Longrightarrow> wf_value x \<Longrightarrow> is_index_key k = (type_of v = arrayValue) \<Longrightarrow> wf_value (ref_put k x v) \<and>
     type_of (ref_put k x v) = type_of v"
  by (auto simp: ref_put_def intro!: wf_with_map wf_map_put)

lemma wf_index_put: "wf_value v \<Longrightarrow> wf_value x \<Longrightarrow> index_put i x v = Inr v' \<Longrightarrow> wf_value v'"
  using wf_index_ref wf_ref_put [of _ x "CZIndex i"] by (fastforce simp: index_put_def)

lemma wf_member_put: "wf_value v \<Longrightarrow> wf_value x \<Longrightarrow> member_put k x v = Inr v' \<Longrightarrow> wf_value v' \<and> type_of v' = objectValue"
  by (auto simp: member_put_def resolveReference_def type_coerce ref_put_def
    intro!: wf_with_map wf_map_emplace wf_map_put)

lemma wf_append: "wf_value v \<Longrightarrow> wf_value x \<Longrightarrow> value_append x v = Inr v' \<Longrightarrow> wf_value v'"
  by (auto simp: value_append_def Let_def type_coerce intro!: wf_with_map wf_map_emplace)

lemma fold_outcome_invar:
  "fold_outcome f xs s = Inr s' \<Longrightarrow> P s \<Longrightarrow> (\<And>x s s'. P s \<Longrightarrow> f x s = Inr s' \<Longrightarrow> P s') \<Longrightarrow> P s'"
proof (induction xs arbitrary: s)
  case (Cons x xs)
  then show ?case by (cases "f x s") auto
qed simp

lemma wf_move_up:
  assumes "wf_value v" "move_up i v = Inr v'"
  shows "wf_value v'"
proof -
  obtain u w where u: "index_ref (i - 1) v = Inr u" and w: "index_ref i u = Inr w"
    and v': "v' = ref_put (CZIndex i) (ref_get (CZIndex (i - 1)) w)
      (ref_put (CZIndex (i - 1)) (ref_get (CZIndex i) w) w)"
    using assms(2) by (auto simp: move_up_def Let_def split: sum.splits)
  have "wf_value w" "type_of w = arrayValue"
    using wf_index_ref [OF assms(1) u] wf_index_ref w by blast+
  then show ?thesis unfolding v' by (simp add: wf_ref_put wf_ref_get)
qed

lemma wf_move_down:
  assumes "wf_value v" "move_down i v = Inr v'"
  shows "wf_value v'"
proof -
  obtain w where w: "index_ref (i + 1) v = Inr w"
    and v': "v' = ref_put (CZIndex i) (ref_get (CZIndex (i + 1)) w) w"
    using assms(2) by (auto simp: move_down_def split: sum.splits)
  from wf_index_ref [OF assms(1) w] show ?thesis unfolding v' by (simp add: wf_ref_put wf_ref_get)
qed

lemma wf_fold:
  "fold_outcome move_up is v = Inr v' \<Longrightarrow> wf_value v \<Longrightarrow> wf_value v'"
  "fold_outcome move_down is v = Inr v' \<Longrightarrow> wf_value v \<Longrightarrow> wf_value v'"
  "fold_outcome index_ref is v = Inr v' \<Longrightarrow> wf_value v \<Longrightarrow> wf_value v'"
  by (erule fold_outcome_invar; blast dest: wf_move_up wf_move_down wf_index_ref)+

lemma wf_insert: "wf_value v \<Longrightarrow> wf_value x \<Longrightarrow> value_insert i x v = Inr (b, v') \<Longrightarrow> wf_value v'"
  by (auto simp: value_insert_def Let_def split: if_splits sum.splits dest: wf_fold wf_index_put)

lemma wf_erase: "wf_value v \<Longrightarrow> wf_value (with_map (map_erase k) v)"
  by (rule wf_with_map) (simp_all add: wf_map_erase)

lemma wf_removeIndex: "wf_value v \<Longrightarrow> removeIndex i v = Inr (r, v') \<Longrightarrow> wf_value v'"
  by (auto simp: removeIndex_def Let_def wf_erase split: if_splits sum.splits option.splits
    dest: wf_fold)

lemma wf_removeMember: "wf_value v \<Longrightarrow> removeMember k v = (r, v') \<Longrightarrow> wf_value v'"
  by (auto simp: removeMember_def wf_erase split: if_splits option.splits)

lemma wf_clear: "value_clear v = Inr v' \<Longrightarrow> wf_value v \<Longrightarrow> wf_value v'"
  by (cases v; cases "payload v") (auto simp: value_clear_def wf_map_def)

lemma wf_foldl_erase: "wf_value v \<Longrightarrow> wf_value (foldl (\<lambda>v i. with_map (map_erase (CZIndex i)) v) v is)"
  by (induction "is" arbitrary: v) (simp_all add: wf_erase)

lemma wf_resize: "wf_value v \<Longrightarrow> value_resize n v = Inr v' \<Longrightarrow> wf_value v'"
  by (auto simp: value_resize_def Let_def wf_foldl_erase split: if_splits dest: wf_clear wf_fold)

section \<open>Conversions\<close>

lemma dint_exact: "\<bar>i\<bar> \<le> 2 ^ 53 \<Longrightarrow> dint i = DFin (of_int i)"
  using is_double_int [of i] by (simp add: dint_def double.rd_rep)

lemma trunc_bounds:
  "of_int lo \<le> q \<Longrightarrow> q \<le> of_int hi \<Longrightarrow> lo \<le> 0 \<Longrightarrow> 0 \<le> hi \<Longrightarrow> lo \<le> trunc q \<and> trunc q \<le> hi"
  by (auto simp: trunc_def le_floor_iff floor_le_iff le_ceiling_iff ceiling_le_iff)

lemma cast_in_range:
  assumes "InRange d (DFin (of_int lo)) (DFin (of_int hi))" "lo \<le> 0" "0 \<le> hi"
  shows "\<exists>i. cast_int lo hi d = Inr i \<and> lo \<le> i \<and> i \<le> hi"
proof (cases d)
  case (DFin q)
  with assms(1) have "of_int lo \<le> q" "q \<le> of_int hi"
    by (auto simp: InRange_def dle_def)
  from trunc_bounds [OF this assms(2,3)] DFin show ?thesis by (simp add: cast_int_def)
qed (use assms in \<open>auto simp: InRange_def dle_def cast_int_def\<close>)

lemma dint_limits:
  "dint minInt = DFin (of_int minInt)" "dint maxInt = DFin (of_int maxInt)"
  "dint maxUInt = DFin (of_int maxUInt)" "dint 0 = DFin (of_int 0)"
  by (rule dint_exact, simp add: int_limits)+

lemma limit_signs: "minInt \<le> 0" "0 \<le> maxInt" "0 \<le> maxUInt"
  by (simp_all add: int_limits)

lemma asInt_range: "asInt v = Inr i \<Longrightarrow> minInt \<le> i \<and> i \<le> maxInt"
proof (cases "payload v")
  case (PReal d)
  assume "asInt v = Inr i"
  with PReal have "InRange d (dint minInt) (dint maxInt)" "cast_int minInt maxInt d = Inr i"
    by (simp_all add: asInt_def)
  with cast_in_range [of d minInt maxInt] limit_signs show ?thesis
    by (auto simp: dint_limits)
next
  case (PUInt u)
  assume "asInt v = Inr i"
  with PUInt have "i = uint u" "uint u \<le> maxInt" by (simp_all add: asInt_def isInt_def)
  then show ?thesis using uint_ge_0 [of u] limit_signs(1) by linarith
qed (auto simp: asInt_def isInt_def int_limits split: if_splits)

lemma asInt_convertible: "isConvertibleTo v intValue \<longleftrightarrow> (\<exists>i. asInt v = Inr i)"
proof (cases "payload v")
  case (PReal d)
  have "InRange d (dint minInt) (dint maxInt) \<Longrightarrow> \<exists>i. cast_int minInt maxInt d = Inr i"
    using cast_in_range [of d minInt maxInt] limit_signs by (auto simp: dint_limits)
  with PReal show ?thesis
    by (auto simp: asInt_def isInt_def type_of_def InRange_def)
qed (auto simp: asInt_def isInt_def type_of_def json_assert_def)

lemma asUInt_convertible: "isConvertibleTo v uintValue \<longleftrightarrow> (\<exists>i. asUInt v = Inr i)"
proof (cases "payload v")
  case (PReal d)
  have "InRange d (dint 0) (dint maxUInt) \<Longrightarrow> \<exists>i. cast_int 0 maxUInt d = Inr i"
    using cast_in_range [of d 0 maxUInt] limit_signs by (auto simp: dint_limits)
  with PReal show ?thesis
    by (auto simp: asUInt_def isUInt_def type_of_def InRange_def)
qed (auto simp: asUInt_def isUInt_def type_of_def json_assert_def)

lemma as_other_convertible:
  "isConvertibleTo v realValue \<longleftrightarrow> (\<exists>d. asDouble v = Inr d)"
  "isConvertibleTo v booleanValue \<longleftrightarrow> (\<exists>b. asBool v = Inr b)"
  "isConvertibleTo v stringValue \<longleftrightarrow> (\<exists>s. asString v = Inr s)"
  subgoal by (cases "payload v"; simp add: asDouble_def isNumeric_def isDouble_def type_of_def)
  subgoal by (cases "payload v"; auto simp: asBool_def isNumeric_def isDouble_def type_of_def)
  subgoal by (cases "payload v"; simp add: asString_def isNumeric_def isDouble_def type_of_def)
  done

lemma dint_maxInt64: "dint maxInt64 = DFin (2 ^ 63)"
proof -
  have "elog 9223372036854775807 = 62" by (rule elog_eq) simp_all
  moreover have "\<lfloor>9223372036854775807 / 1024 :: rat\<rfloor> = 9007199254740991" by (simp add: floor_eq_iff)
  ultimately have "rnd_double 9223372036854775807 = 9223372036854775808"
    by (simp add: rnd_double_def rnd_eq ulp_exp_def rhe_def)
  then show ?thesis by (simp add: dint_def maxInt64_def)
qed
section \<open>Members\<close>

lemma CZString_short: "length s < 2 ^ 30 \<Longrightarrow> CZString s = CZStr s"
proof -
  assume "length s < 2 ^ 30"
  moreover have "(word_of_nat (length s) AND 0x3FFFFFFF :: u32) = take_bit 30 (word_of_nat (length s))"
    by (simp add: take_bit_eq_mask mask_eq_decr_exp)
  ultimately have "unat (word_of_nat (length s) AND 0x3FFFFFFF :: u32) = length s"
    by (simp add: unsigned_take_bit_eq unsigned_of_nat take_bit_nat_eq_self)
  then show ?thesis by (simp add: CZString_def)
qed

lemma member_get_put:
  assumes "wf_value v" "member_put k x v = Inr v'"
  shows "member_get k' v' = (if CZString k' = CZString k then Inr x else member_get k' v)"
proof -
  have t: "type_of v = nullValue \<or> type_of v = objectValue" and
    v': "v' = ref_put (CZString k) x (with_map (map_emplace (CZString k) nullSingleton) (coerce objectValue v))"
    using assms(2) by (auto simp: member_put_def resolveReference_def)
  obtain m where m: "payload (coerce objectValue v) = PObject m"
    using t by (cases "payload v") (auto simp: coerce_def type_of_def Value_of_type_def initBasic_def)
  then have s: "sorted_map m" using wf_coerce [OF assms(1), of objectValue] by (simp add: wf_iff wf_map_def)
  have o: "map_of_value v' = map_put (CZString k) x m" "type_of v' = objectValue"
    using m s by (simp_all add: v' ref_put_def with_map_def set_payload_def map_of_value_def type_of_def
        om.put_emplace)
  have "map_find (CZString k') m = (if type_of v = nullValue then None else map_find (CZString k') (map_of_value v))"
    using m by (auto simp: coerce_def Value_of_type_def initBasic_def map_of_value_def)
  with s o t show ?thesis
    by (auto simp: member_get_def value_find_def json_assert_def om.find_put split: option.splits)
qed

text \<open>C12. A JSON array without gaps behaves like a list: \<open>size\<close>, element access, assignment,
  \<open>append\<close>, \<open>insert\<close>, \<open>removeIndex\<close> and \<open>resize\<close> compute the list operation of that name, none of
  them aborts, and the result has no gaps either (refinement of the index-keyed map to lists).\<close>

theorem array_operations_refine_lists:
  assumes "is_array xs v" "length xs + 1 < 2 ^ 32" "i < length xs" "n < 2 ^ 32"
  shows "value_size v = idx (length xs) \<and>
    index_const (idx i) v = Inr (xs ! i) \<and>
    (\<exists>v'. index_put (idx i) x v = Inr v' \<and> is_array (xs[i := x]) v') \<and>
    (\<exists>v'. value_append x v = Inr v' \<and> is_array (xs @ [x]) v') \<and>
    (\<exists>v'. value_insert (idx i) x v = Inr (True, v') \<and> is_array (take i xs @ x # drop i xs) v') \<and>
    (\<exists>v'. removeIndex (idx i) v = Inr (Some (xs ! i), v') \<and> is_array (take i xs @ drop (Suc i) xs) v') \<and>
    (\<exists>v'. value_resize (idx n) v = Inr v' \<and>
       is_array (take n xs @ replicate (n - length xs) nullSingleton) v')"
proof -
  have "index_const (idx i) v = Inr (xs ! i)"
    by (simp add: index_const_def json_assert_def is_array_type [OF assms(1)] is_array_ref_get assms)
  moreover have "\<exists>v'. removeIndex (idx i) v = Inr (Some (xs ! i), v') \<and>
      is_array (take i xs @ drop (Suc i) xs) v'"
    using is_array_removeIndex [of "take i xs" "xs ! i" "drop (Suc i) xs" v] assms
    by (simp add: id_take_nth_drop [symmetric] min_def)
  ultimately show ?thesis
    using assms by (simp add: dense_size is_array_index_put is_array_append is_array_insert is_array_resize)
qed

lemma example_array: "is_array [Value_of_bool True] (initBasic (PArray [(CZIndex 0, Value_of_bool True)]))"
  using is_array_append [OF is_array_new, of "Value_of_bool True"]
  by (simp add: value_append_def json_assert_def Value_of_type_def initBasic_def type_of_def coerce_def
    with_map_def set_payload_def value_size_def)

theorem array_operations_refine_lists_witness:
  "\<exists>v'. removeIndex (idx 0) (initBasic (PArray [(CZIndex 0, Value_of_bool True)])) =
      Inr (Some (Value_of_bool True), v') \<and> is_array [] v'"
  using array_operations_refine_lists [OF example_array, of 0 0] by simp

lemma wf_find: "wf_value v \<Longrightarrow> map_find k (map_of_value v) = Some x \<Longrightarrow> wf_value x"
  using wf_ref_get [of v k] by (simp add: ref_get_def)

lemma wf_removed:
  assumes "wf_value v"
  shows "removeIndex i v = Inr (Some x, v') \<Longrightarrow> wf_value x" "removeMember k v = (Some x, v') \<Longrightarrow> wf_value x"
  using wf_find [OF assms] by (auto simp: removeIndex_def removeMember_def Let_def split: if_splits option.splits sum.splits)

lemma wf_removeMember_void: "wf_value v \<Longrightarrow> removeMember_void k v = Inr v' \<Longrightarrow> wf_value v'"
  by (auto simp: removeMember_void_def wf_erase)

lemma wf_demand: "wf_value v \<Longrightarrow> demand k v = Inr v' \<Longrightarrow> wf_value v'"
  by (auto simp: demand_def dest: wf_resolveReference)

lemma wf_dupPayload: "wf_value x \<Longrightarrow> dupPayload x = Inr p \<Longrightarrow> wf_payload p"
  by (cases "payload x") (auto simp: dupPayload_def wf_iff)

lemma wf_copies:
  assumes "wf_value x"
  shows "copyPayload x v = Inr v' \<Longrightarrow> wf_value v'" "value_copy x v = Inr v' \<Longrightarrow> wf_value v'"
    "Value_of_Value x = Inr v' \<Longrightarrow> wf_value v'" "value_assign x v = Inr v' \<Longrightarrow> wf_value v'"
  using wf_dupPayload [OF assms] by (auto simp: copyPayload_def value_copy_def Value_of_Value_def value_assign_def
    swap_def dupMeta_def set_payload_def initBasic_def)

lemma wf_setComment: "wf_value v \<Longrightarrow> setComment c placement v = Inr v' \<Longrightarrow> wf_value v'"
  by (auto simp: setComment_def Let_def wf_iff)

text \<open>
  C21. Every operation that changes a JSON value keeps it well formed: the maps stay strictly sorted, arrays keyed by indices
  only and objects by strings only, at every depth. These are the subscripts that create an element or a member
  (\<open>operator[]\<close>, \<open>resolveReference\<close>, \<open>demand\<close>) and assignment through them, \<open>append\<close>, \<open>insert\<close>, \<open>resize\<close>, \<open>clear\<close>, the three forms of
  removal (the removed value is well formed too), copy and assignment (\<open>copy\<close>, \<open>copyPayload\<close>, the copy constructor, both
  \<open>operator=\<close>), \<open>swap\<close>, \<open>swapPayload\<close>, \<open>setComment\<close> and the two offsets.
\<close>

theorem value_operations_keep_wf:
  assumes "wf_value v" "wf_value x"
  shows "(\<forall>v'. index_put i x v = Inr v' \<longrightarrow> wf_value v') \<and>
    (\<forall>v'. member_put k x v = Inr v' \<longrightarrow> wf_value v') \<and>
    (\<forall>v'. value_append x v = Inr v' \<longrightarrow> wf_value v') \<and>
    (\<forall>b v'. value_insert i x v = Inr (b, v') \<longrightarrow> wf_value v') \<and>
    (\<forall>r v'. removeIndex i v = Inr (r, v') \<longrightarrow> wf_value v' \<and> (\<forall>y. r = Some y \<longrightarrow> wf_value y)) \<and>
    (\<forall>r v'. removeMember k v = (r, v') \<longrightarrow> wf_value v' \<and> (\<forall>y. r = Some y \<longrightarrow> wf_value y)) \<and>
    (\<forall>v'. removeMember_void k v = Inr v' \<longrightarrow> wf_value v') \<and>
    (\<forall>v'. value_resize n v = Inr v' \<longrightarrow> wf_value v') \<and>
    (\<forall>v'. value_clear v = Inr v' \<longrightarrow> wf_value v') \<and>
    (\<forall>v'. index_ref i v = Inr v' \<longrightarrow> wf_value v') \<and> (\<forall>v'. index_ref_int j v = Inr v' \<longrightarrow> wf_value v') \<and>
    (\<forall>v'. resolveReference k v = Inr v' \<longrightarrow> wf_value v') \<and> (\<forall>v'. demand k v = Inr v' \<longrightarrow> wf_value v') \<and>
    (\<forall>v'. copyPayload x v = Inr v' \<longrightarrow> wf_value v') \<and> (\<forall>v'. value_copy x v = Inr v' \<longrightarrow> wf_value v') \<and>
    (\<forall>v'. Value_of_Value x = Inr v' \<longrightarrow> wf_value v') \<and> (\<forall>v'. value_assign x v = Inr v' \<longrightarrow> wf_value v') \<and>
    (\<forall>op \<in> {swap, swapPayload, value_move_assign}. wf_value (fst (op x v)) \<and> wf_value (snd (op x v))) \<and>
    (\<forall>v'. setComment c placement v = Inr v' \<longrightarrow> wf_value v') \<and>
    wf_value (setOffsetStart s v) \<and> wf_value (setOffsetLimit s v)"
proof -
  have s: "wf_value (fst (op x v)) \<and> wf_value (snd (op x v))" if "op \<in> {swap, swapPayload, value_move_assign}" for op
    using that assms by (auto simp: swap_def swapPayload_def value_move_assign_def set_payload_def wf_iff)
  have o: "wf_value (setOffsetStart s v)" "wf_value (setOffsetLimit s v)"
    using assms(1) by (simp_all add: setOffsetStart_def setOffsetLimit_def wf_iff)
  have j: "wf_value v'" if "index_ref_int j v = Inr v'" for v' using wf_index_ref [OF assms(1)] that by (auto simp: index_ref_int_def)
  have r: "wf_value y" if "removeIndex i v = Inr (r, v')" "r = Some y" for r v' y using that wf_removed(1) [OF assms(1)] by blast
  have r': "wf_value y" if "removeMember k v = (r, v')" "r = Some y" for r v' y using that wf_removed(2) [OF assms(1)] by blast
  show ?thesis
    by (intro conjI allI impI ballI; (rule o | erule s [THEN conjunct1] s [THEN conjunct2] j r r'
      wf_index_put [OF assms] wf_member_put [OF assms, THEN conjunct1] wf_append [OF assms] wf_insert [OF assms]
      wf_removeIndex [OF assms(1)] wf_removeMember [OF assms(1)] wf_removeMember_void [OF assms(1)] wf_resize [OF assms(1)]
      wf_clear [OF _ assms(1)] wf_index_ref [OF assms(1), THEN conjunct1] wf_resolveReference [OF assms(1)] wf_demand [OF assms(1)]
      wf_copies [OF assms(2)] wf_setComment [OF assms(1)]); assumption?)
qed

theorem value_operations_keep_wf_witness:
  "wf_value (initBasic (PObject [(CZStr ''a'', Value_of_bool True)])) \<and>
   member_put ''a'' (Value_of_bool True) (Value_of_type objectValue) =
     Inr (initBasic (PObject [(CZStr ''a'', Value_of_bool True)]))"
proof -
  have p: "member_put ''a'' (Value_of_bool True) (Value_of_type objectValue) =
      Inr (initBasic (PObject [(CZStr ''a'', Value_of_bool True)]))"
    by (simp add: member_put_def resolveReference_def json_assert_def Value_of_type_def initBasic_def
      type_of_def coerce_def with_map_def set_payload_def ref_put_def map_put_def CZString_short
      map_emplace_Cons)
  have "wf_value (Value_of_bool True)" by (simp add: Value_of_bool_def initBasic_def)
  with p value_operations_keep_wf [of "Value_of_type objectValue" "Value_of_bool True"] show ?thesis
    by (metis wf_null(2))
qed

text \<open>C36. \<open>isConvertibleTo\<close> tells exactly when the conversion to that type returns instead of
  aborting, and what \<open>asInt\<close> returns is in the range of \<open>Int\<close>.\<close>

theorem conversions_agree_with_isConvertibleTo:
  "(isConvertibleTo v intValue \<longleftrightarrow> (\<exists>i. asInt v = Inr i \<and> minInt \<le> i \<and> i \<le> maxInt)) \<and>
   (isConvertibleTo v uintValue \<longleftrightarrow> (\<exists>i. asUInt v = Inr i)) \<and>
   (isConvertibleTo v realValue \<longleftrightarrow> (\<exists>d. asDouble v = Inr d)) \<and>
   (isConvertibleTo v booleanValue \<longleftrightarrow> (\<exists>b. asBool v = Inr b)) \<and>
   (isConvertibleTo v stringValue \<longleftrightarrow> (\<exists>s. asString v = Inr s))"
  using asInt_convertible [of v] asInt_range [of v] asUInt_convertible [of v] as_other_convertible [of v]
  by blast

text \<open>The range check of \<open>asInt64\<close> on a double compares with \<open>double(maxInt64)\<close>, which is
  \<open>2 ^ 63\<close>: that value passes the check although \<open>isInt64\<close> rejects it, and the cast that follows
  is out of range, undefined behaviour.\<close>

theorem asInt64_accepts_two_to_63:
  "isInt64 (Value_of_double (DFin (2 ^ 63))) = False \<and>
   asInt64 (Value_of_double (DFin (2 ^ 63))) = Inl (Undefined ''cast'')"
proof -
  have "is_double (- (2 ^ 63))"
    unfolding is_double_def representable_def by (rule exI [of _ "-1"], rule exI [of _ 63]) simp
  then have "dint minInt64 = DFin (- (2 ^ 63))"
    using double.rd_rep [of "- (2 ^ 63)"] by (simp add: dint_def minInt64_def)
  then show ?thesis
    by (simp add: isInt64_def asInt64_def Value_of_double_def initBasic_def dint_maxInt64
      json_assert_def InRange_def dle_def cast_int_def trunc_def) (simp add: int_limits)
qed

text \<open>Shrinking an array that has gaps aborts: after \<open>v[5]\<close> on a null value, \<open>resize(3)\<close>
  erases index 5 and then fails its own assertion \<open>size() == newSize\<close>.\<close>

theorem resize_of_sparse_array_aborts:
  "case index_ref 5 nullSingleton of Inl e \<Rightarrow> False
   | Inr v \<Rightarrow> value_size v = 6 \<and> value_resize 3 v = Inl (LogicError ''assert: size() == newSize'')"
  by (simp add: index_ref_def json_assert_def nullSingleton_def Value_of_type_def initBasic_def
    type_of_def coerce_def with_map_def set_payload_def value_size_def value_resize_def Let_def
    index_range_def upt_conv_Cons map_erase_def idx_def)

text \<open>\<open>removeMember(const String&)\<close> cuts its key at the first NUL: a member whose name
  contains one is found by \<open>isMember\<close> but not removed.\<close>

theorem removeMember_String_stops_at_NUL:
  assumes "member_put (k @ NUL # s) x (Value_of_type objectValue) = Inr v" "NUL \<notin> set k"
     "length (k @ NUL # s) < 2 ^ 30"
  shows "removeMember_void (k @ NUL # s) v = Inr v \<and> isMember (k @ NUL # s) v = Inr True"
proof -
  have c: "cstr (k @ NUL # s) = k" using assms(2) by (rule cstr_append_NUL)
  have "v = initBasic (PObject [(CZStr (k @ NUL # s), x)])"
    using assms(1,3) by (simp add: member_put_def resolveReference_def json_assert_def Value_of_type_def
      initBasic_def type_of_def coerce_def with_map_def set_payload_def ref_put_def map_put_def
      CZString_short map_emplace_Cons)
  then show ?thesis
    using assms(3) by (simp add: removeMember_void_def isMember_def value_find_def json_assert_def c
      initBasic_def type_of_def with_map_def set_payload_def map_erase_def CZString_short map_of_value_def)
qed

theorem removeMember_String_stops_at_NUL_witness:
  "removeMember_void (''a'' @ NUL # ''b'') (initBasic (PObject [(CZStr (''a'' @ NUL # ''b''), Value_of_bool True)])) =
     Inr (initBasic (PObject [(CZStr (''a'' @ NUL # ''b''), Value_of_bool True)]))"
proof -
  have "member_put (''a'' @ NUL # ''b'') (Value_of_bool True) (Value_of_type objectValue) =
      Inr (initBasic (PObject [(CZStr (''a'' @ NUL # ''b''), Value_of_bool True)]))"
    by (simp add: member_put_def resolveReference_def json_assert_def Value_of_type_def initBasic_def
      type_of_def coerce_def with_map_def set_payload_def ref_put_def map_put_def CZString_short
      map_emplace_Cons)
  from removeMember_String_stops_at_NUL [OF this] show ?thesis by simp
qed

text \<open>What \<open>v[k] = x\<close> stores is what \<open>v[k]\<close> reads back, and no other member changes, for any well-formed
  object or null value and any keys of less than \<open>2 ^ 30\<close> characters, embedded NULs included.\<close>

theorem member_lookup_after_assignment:
  assumes "wf_value v" "member_put k x v = Inr v'" "length k < 2 ^ 30" "length k' < 2 ^ 30"
  shows "member_get k' v' = (if k' = k then Inr x else member_get k' v)"
  using member_get_put [OF assms(1,2), of k'] assms(3,4) by (simp add: CZString_short)

theorem member_lookup_after_assignment_witness:
  "\<exists>v'. member_put ''a'' (Value_of_bool True) (Value_of_type objectValue) = Inr v' \<and>
     member_get ''a'' v' = Inr (Value_of_bool True)"
proof -
  have "\<exists>v'. member_put ''a'' (Value_of_bool True) (Value_of_type objectValue) = Inr v'"
    by (simp add: member_put_def resolveReference_def json_assert_def Value_of_type_def initBasic_def type_of_def)
  then obtain v' where "member_put ''a'' (Value_of_bool True) (Value_of_type objectValue) = Inr v'" by blast
  with member_lookup_after_assignment [OF wf_null(2) this, of "''a''"] show ?thesis by simp
qed

end
