(* ===== verification/Json_Reader.thy ===== *)
theory Json_Reader
  imports Json_Value "HOL-Library.Sublist"
begin

text \<open>
  The JSON parser \<open>Json::Reader\<close> (\<open>src/components/jsoncpp/json_reader.cpp\<close>, first half;
  \<open>reader.h\<close>, \<open>json_features.h\<close>), the one the Firebase client parses every server reply with:
  tokens, comments, numbers, strings with their escapes, arrays, objects, error recording and
  recovery. A \<open>Location\<close> is an offset into the document, a \<open>Value*\<close> the path from the root to
  the value, so that writes through \<open>nodes_\<close> and \<open>lastValue_\<close> alias as in the source. The mutual
  recursion of \<open>readValue\<close>, \<open>readArray\<close> and \<open>readObject\<close> carries fuel.
\<close>

section \<open>Results\<close>

datatype 'a res = Ok 'a | Abort abort | OutOfFuel

fun bind :: "'a res \<Rightarrow> ('a \<Rightarrow> 'b res) \<Rightarrow> 'b res" where
  "bind (Ok x) f = f x"
| "bind (Abort e) f = Abort e"
| "bind OutOfFuel f = OutOfFuel"

lemma bind_cong [fundef_cong]:
  "x = y \<Longrightarrow> (\<And>a. y = Ok a \<Longrightarrow> f a = g a) \<Longrightarrow> bind x f = bind y g"
  by (cases y) auto

lemma bind_Ok [simp]: "bind x f = Ok r \<longleftrightarrow> (\<exists>a. x = Ok a \<and> f a = Ok r)"
  by (cases x) simp_all

definition lift :: "'a outcome \<Rightarrow> 'a res" where
  "lift r = (case r of Inl e \<Rightarrow> Abort e | Inr x \<Rightarrow> Ok x)"

section \<open>State\<close>

record Features =
  allowComments :: bool
  strictRoot :: bool
  allowDroppedNullPlaceholders :: bool
  allowNumericKeys :: bool

definition Features_all :: Features where
  "Features_all = \<lparr>allowComments = True, strictRoot = False, allowDroppedNullPlaceholders = False,
     allowNumericKeys = False\<rparr>"

definition Features_strictMode :: Features where
  "Features_strictMode = \<lparr>allowComments = False, strictRoot = True,
     allowDroppedNullPlaceholders = False, allowNumericKeys = False\<rparr>"

text \<open>The last three token types are those \<open>OurReader\<close> adds.\<close>

datatype TokenType = tokenEndOfStream | tokenObjectBegin | tokenObjectEnd | tokenArrayBegin
  | tokenArrayEnd | tokenString | tokenNumber | tokenTrue | tokenFalse | tokenNull
  | tokenArraySeparator | tokenMemberSeparator | tokenComment | tokenError
  | tokenNaN | tokenPosInf | tokenNegInf

record Token =
  t_type :: TokenType
  t_start :: nat
  t_end :: nat

record ErrorInfo =
  e_token :: Token
  e_message :: string
  e_extra :: "nat option"

type_synonym path = "czstring list"

text \<open>
  The members of \<open>Reader\<close> and of its copy \<open>OurReader\<close>, which have different options \<open>features\<close>. \<open>begin_pos\<close> is \<open>begin_\<close> as an
  offset into the document; it differs from 0 only when \<open>OurReader\<close> skipped a byte order mark.
\<close>

record 'f Scanner =
  doc :: string
  begin_pos :: nat
  current :: nat
  lastValueEnd :: "nat option"
  lastValue :: "path option"
  commentsBefore :: string
  errors :: "ErrorInfo list"
  nodes :: "path list"
  root :: Value
  features :: 'f
  collectComments :: bool

type_synonym ('f, 'a) scanner = "('f, 'a) Scanner_scheme"

type_synonym Reader = "Features Scanner"

text \<open>A value reached by a path, and an update of it in place.\<close>

fun get_at :: "path \<Rightarrow> Value \<Rightarrow> Value option" where
  "get_at [] v = Some v"
| "get_at (k # ks) v = (case map_find k (map_of_value v) of None \<Rightarrow> None | Some x \<Rightarrow> get_at ks x)"

fun upd_at :: "path \<Rightarrow> (Value \<Rightarrow> Value) \<Rightarrow> Value \<Rightarrow> Value" where
  "upd_at [] f v = f v"
| "upd_at (k # ks) f v = with_map (map (\<lambda>(k', x). (k', if k' = k then upd_at ks f x else x))) v"

definition currentPath :: "('f, 'a) scanner \<Rightarrow> path" where
  "currentPath s = hd (nodes s)"

definition upd_current :: "(Value \<Rightarrow> Value) \<Rightarrow> ('f, 'a) scanner \<Rightarrow> ('f, 'a) scanner" where
  "upd_current f s = s\<lparr>root := upd_at (currentPath s) f (root s)\<rparr>"

definition upd_outcome :: "path \<Rightarrow> (Value \<Rightarrow> Value outcome) \<Rightarrow> ('f, 'a) scanner \<Rightarrow> ('f, 'a) scanner res" where
  "upd_outcome p f s = (case get_at p (root s) of
     None \<Rightarrow> Abort (Undefined ''dangling'')
   | Some v \<Rightarrow> bind (lift (f v)) (\<lambda>v'. Ok (s\<lparr>root := upd_at p (\<lambda>_. v') (root s)\<rparr>)))"

text \<open>A location as an offset from \<open>begin_\<close>.\<close>

definition offset :: "('f, 'a) scanner \<Rightarrow> nat \<Rightarrow> int" where
  "offset s p = int p - int (begin_pos s)"

definition setOffsets :: "int \<Rightarrow> int \<Rightarrow> Value \<Rightarrow> Value" where
  "setOffsets a b v = setOffsetLimit b (setOffsetStart a v)"

section \<open>Characters\<close>

definition end_pos :: "('f, 'a) scanner \<Rightarrow> nat" where "end_pos s = length (doc s)"

definition peek :: "string \<Rightarrow> nat \<Rightarrow> char" where
  "peek d i = (if i < length d then d ! i else NUL)"

definition getNextChar :: "('f, 'a) scanner \<Rightarrow> char \<times> ('f, 'a) scanner" where
  "getNextChar s = (if current s = end_pos s then (NUL, s)
     else (doc s ! current s, s\<lparr>current := current s + 1\<rparr>))"

definition is_space :: "char \<Rightarrow> bool" where
  "is_space c \<longleftrightarrow> c = CHR '' '' \<or> c = CHR 0x09 \<or> c = CHR 0x0D \<or> c = CHR 0x0A"

definition skip_from :: "(char \<Rightarrow> bool) \<Rightarrow> string \<Rightarrow> nat \<Rightarrow> nat" where
  "skip_from P d i = i + length (takeWhile P (drop i d))"

definition skipSpaces :: "('f, 'a) scanner \<Rightarrow> ('f, 'a) scanner" where
  "skipSpaces s = s\<lparr>current := skip_from is_space (doc s) (current s)\<rparr>"

definition match :: "string \<Rightarrow> ('f, 'a) scanner \<Rightarrow> bool \<times> ('f, 'a) scanner" where
  "match pattern s =
    (if take (length pattern) (drop (current s) (doc s)) = pattern
     then (True, s\<lparr>current := current s + length pattern\<rparr>) else (False, s))"

section \<open>Errors and comments\<close>

definition addError :: "string \<Rightarrow> Token \<Rightarrow> nat option \<Rightarrow> ('f, 'a) scanner \<Rightarrow> ('f, 'a) scanner" where
  "addError message token extra s =
     s\<lparr>errors := errors s @ [\<lparr>e_token = token, e_message = message, e_extra = extra\<rparr>]\<rparr>"

definition slice :: "nat \<Rightarrow> nat \<Rightarrow> string \<Rightarrow> string" where
  "slice a b d = take (b - a) (drop a d)"

definition containsNewLine :: "string \<Rightarrow> nat \<Rightarrow> nat \<Rightarrow> bool" where
  "containsNewLine d a b = list_ex (\<lambda>c. c = CHR 0x0A \<or> c = CHR 0x0D) (slice a b d)"

fun normalizeEOL :: "string \<Rightarrow> string" where
  "normalizeEOL [] = []"
| "normalizeEOL (c # cs) =
    (if c = CHR 0x0D then CHR 0x0A #
       (case cs of [] \<Rightarrow> []
        | c' # cs' \<Rightarrow> if c' = CHR 0x0A then normalizeEOL cs' else normalizeEOL cs)
     else c # normalizeEOL cs)"

definition addComment :: "nat \<Rightarrow> nat \<Rightarrow> CommentPlacement \<Rightarrow> ('f, 'a) scanner \<Rightarrow> ('f, 'a) scanner res" where
  "addComment a b placement s =
    (let normalized = normalizeEOL (slice a b (doc s)) in
     if placement = commentAfterOnSameLine then
       (case lastValue s of
          None \<Rightarrow> Abort (LogicError ''assert: lastValue_ != nullptr'')
        | Some p \<Rightarrow> upd_outcome p (setComment normalized placement) s)
     else Ok (s\<lparr>commentsBefore := commentsBefore s @ normalized\<rparr>))"

text \<open>
  The two comment loops, as the position they stop at. \<open>c_comment\<close> is
  \<open>while ((current_ + 1) < end_) { c = getNextChar(); if (c == '*' && *current_ == '/') break; }\<close>
\<close>

function c_comment :: "string \<Rightarrow> nat \<Rightarrow> nat" where
  "c_comment d i =
    (if i + 1 < length d then
       (if d ! i = CHR ''*'' \<and> d ! (i + 1) = CHR ''/'' then i + 1 else c_comment d (i + 1))
     else i)"
  by pat_completeness auto
termination
  by (relation "measure (\<lambda>(d, i). length d - i)") auto

declare c_comment.simps [simp del]

definition readCStyleComment :: "('f, 'a) scanner \<Rightarrow> bool \<times> ('f, 'a) scanner" where
  "readCStyleComment s =
    (let (c, s) = getNextChar (s\<lparr>current := c_comment (doc s) (current s)\<rparr>) in (c = CHR ''/'', s))"

definition readCppStyleComment :: "('f, 'a) scanner \<Rightarrow> bool \<times> ('f, 'a) scanner" where
  "readCppStyleComment s =
    (let i = skip_from (\<lambda>c. c \<noteq> CHR 0x0A \<and> c \<noteq> CHR 0x0D) (doc s) (current s) in
     if i = end_pos s then (True, s\<lparr>current := i\<rparr>)
     else if doc s ! i = CHR 0x0A then (True, s\<lparr>current := i + 1\<rparr>)
     else if i + 1 \<noteq> end_pos s \<and> doc s ! (i + 1) = CHR 0x0A then (True, s\<lparr>current := i + 2\<rparr>)
     else (True, s\<lparr>current := i + 1\<rparr>))"

definition readComment :: "Reader \<Rightarrow> (bool \<times> Reader) res" where
  "readComment s =
    (let commentBegin = current s - 1; (c, s) = getNextChar s;
         (successful, s) = (if c = CHR ''*'' then readCStyleComment s
           else if c = CHR ''/'' then readCppStyleComment s else (False, s)) in
     if \<not> successful then Ok (False, s)
     else if collectComments s then
       (let placement =
          (case lastValueEnd s of None \<Rightarrow> commentBefore | Some e \<Rightarrow>
             if \<not> containsNewLine (doc s) e commentBegin \<and>
                (c \<noteq> CHR ''*'' \<or> \<not> containsNewLine (doc s) commentBegin (current s))
             then commentAfterOnSameLine else commentBefore) in
        bind (addComment commentBegin (current s) placement s) (\<lambda>s. Ok (True, s)))
     else Ok (True, s))"

section \<open>Tokens\<close>

text \<open>\<open>readNumber\<close>: the position behind the longest number-like text; \<open>current_\<close> ends there.\<close>

definition number_end :: "string \<Rightarrow> nat \<Rightarrow> nat" where
  "number_end d i =
    (let i = skip_from is_digit d i;
         i = (if peek d i = CHR ''.'' then skip_from is_digit d (i + 1) else i)
     in if peek d i = CHR ''e'' \<or> peek d i = CHR ''E'' then
          (let i = i + 1; i = (if peek d i = CHR ''+'' \<or> peek d i = CHR ''-'' then i + 1 else i)
           in skip_from is_digit d i)
        else i)"

definition readNumber :: "('f, 'a) scanner \<Rightarrow> ('f, 'a) scanner" where
  "readNumber s = s\<lparr>current := number_end (doc s) (current s)\<rparr>"

text \<open>
  \<open>readString\<close>: the opening quote is consumed. The result is whether the last character the
  loop read as its own was the closing quote, and the rest of the document.
\<close>

fun string_scan :: "string \<Rightarrow> bool \<times> string" where
  "string_scan [] = (False, [])"
| "string_scan (c # cs) =
    (if c = bslash then (case cs of [] \<Rightarrow> (False, []) | _ # cs' \<Rightarrow> string_scan cs')
     else if c = dquote then (True, cs) else string_scan cs)"

definition readString :: "('f, 'a) scanner \<Rightarrow> bool \<times> ('f, 'a) scanner" where
  "readString s =
    (let (ok, rest) = string_scan (drop (current s) (doc s)) in
     (ok, s\<lparr>current := end_pos s - length rest\<rparr>))"

definition tok :: "TokenType \<Rightarrow> nat \<Rightarrow> bool \<Rightarrow> ('f, 'a) scanner \<Rightarrow> (bool \<times> Token \<times> ('f, 'a) scanner) res" where
  "tok t start ok s =
     Ok (ok, \<lparr>t_type = (if ok then t else tokenError), t_start = start, t_end = current s\<rparr>, s)"

definition readToken :: "Reader \<Rightarrow> (bool \<times> Token \<times> Reader) res" where
  "readToken s =
    (let s = skipSpaces s; start = current s; (c, s) = getNextChar s in
     if c = CHR ''{'' then tok tokenObjectBegin start True s
     else if c = CHR ''}'' then tok tokenObjectEnd start True s
     else if c = CHR ''['' then tok tokenArrayBegin start True s
     else if c = CHR '']'' then tok tokenArrayEnd start True s
     else if c = dquote then (let (ok, s) = readString s in tok tokenString start ok s)
     else if c = CHR ''/'' then bind (readComment s) (\<lambda>(ok, s). tok tokenComment start ok s)
     else if is_digit c \<or> c = CHR ''-'' then tok tokenNumber start True (readNumber s)
     else if c = CHR ''t'' then (let (ok, s) = match ''rue'' s in tok tokenTrue start ok s)
     else if c = CHR ''f'' then (let (ok, s) = match ''alse'' s in tok tokenFalse start ok s)
     else if c = CHR ''n'' then (let (ok, s) = match ''ull'' s in tok tokenNull start ok s)
     else if c = CHR '','' then tok tokenArraySeparator start True s
     else if c = CHR '':'' then tok tokenMemberSeparator start True s
     else if c = NUL then tok tokenEndOfStream start True s
     else tok tokenError start False s)"

section \<open>Values in place\<close>

lemma with_map_with_map [simp]: "with_map f (with_map g v) = with_map (f \<circ> g) v"
  by (cases v; cases "payload v") (simp_all add: with_map_def set_payload_def)

lemma with_map_id: "(\<And>m. f m = m) \<Longrightarrow> with_map f v = v"
  by (cases v; cases "payload v") (simp_all add: with_map_def set_payload_def)

lemma with_map_cong: "(\<And>m. f m = g m) \<Longrightarrow> with_map f v = with_map g v"
  by (simp add: with_map_def split: Payload.splits)

lemma map_of_value_with_map: "map_of_value (with_map f v) = (if type_of v = arrayValue \<or> type_of v = objectValue
    then f (map_of_value v) else [])"
  by (cases v; cases "payload v")
    (simp_all add: with_map_def set_payload_def map_of_value_def type_of_def)

lemma upd_at_append: "upd_at (p @ q) f v = upd_at p (upd_at q f) v"
  by (induction p arbitrary: v) (auto intro!: with_map_cong)

lemma upd_at_comp: "upd_at p f (upd_at p g v) = upd_at p (\<lambda>x. f (g x)) v"
  by (induction p arbitrary: v) (auto intro!: with_map_cong simp: case_prod_unfold)

lemma upd_at_id: "upd_at p (\<lambda>x. x) v = v"
  by (induction p arbitrary: v) (auto intro!: with_map_id map_idI)

lemma get_at_upd_at: "get_at p v = Some x \<Longrightarrow> get_at p (upd_at p f v) = Some (f x)"
proof (induction p arbitrary: v)
  case (Cons k p)
  then obtain y where y: "map_find k (map_of_value v) = Some y" "get_at p y = Some x"
    by (auto split: option.splits)
  then have "map_of_value v \<noteq> []" by auto
  then have "type_of v = arrayValue \<or> type_of v = objectValue"
    by (auto simp: map_of_value_def type_of_def split: Payload.splits)
  with y Cons.IH [OF y(2)] show ?case by (simp add: map_of_value_with_map find_map_snd)
qed simp

lemma get_at_append: "get_at (p @ q) v = (case get_at p v of None \<Rightarrow> None | Some x \<Rightarrow> get_at q x)"
  by (induction p arbitrary: v) (auto split: option.splits)

text \<open>The types of the values below a value, by path; comments and offsets do not matter.\<close>

definition tree :: "Value \<Rightarrow> path \<Rightarrow> ValueType option" where
  "tree v q = map_option type_of (get_at q v)"

lemma tree_payload: "payload v = payload w \<Longrightarrow> tree v = tree w"
proof (rule ext)
  fix q assume "payload v = payload w"
  then show "tree v q = tree w q" by (cases q) (simp_all add: tree_def type_of_def map_of_value_def)
qed

lemma tree_append: "tree v (p @ q) = (case get_at p v of None \<Rightarrow> None | Some x \<Rightarrow> tree x q)"
  by (simp add: tree_def get_at_append split: option.split)

lemma tree_Nil [simp]: "tree v [] = Some (type_of v)"
  by (simp add: tree_def)

lemma tree_Cons: "tree v (k # q) = (case map_find k (map_of_value v) of None \<Rightarrow> None | Some x \<Rightarrow> tree x q)"
  by (simp add: tree_def split: option.split)

lemma find_with_map: "map_find k' (map_of_value (with_map (map (\<lambda>(k', x). (k', if k' = k then h x else x))) v)) =
    map_option (\<lambda>x. if k' = k then h x else x) (map_find k' (map_of_value v))"
  unfolding map_of_value_with_map by (cases "payload v") (simp_all add: find_map_snd type_of_def map_of_value_def)

lemma tree_upd_at_Cons: "tree (upd_at (k # p) f v) (k' # q) =
    (if k' = k then (case map_find k (map_of_value v) of None \<Rightarrow> None | Some x \<Rightarrow> tree (upd_at p f x) q) else tree v (k' # q))"
  by (simp add: tree_Cons find_with_map split: option.split)

lemma tree_upd_at_other: "\<not> prefix p q \<Longrightarrow> tree (upd_at p f v) q = tree v q"
proof (induction p arbitrary: v q)
  case (Cons k p)
  show ?case
  proof (cases q)
    case (Cons k' q')
    then show ?thesis using Cons.IH [of q'] Cons.prems
      unfolding Cons tree_upd_at_Cons by (auto simp: tree_Cons split: option.split)
  qed simp
qed simp

lemma tree_upd_at_same: "(\<And>x. get_at p v = Some x \<Longrightarrow> tree (f x) = tree x) \<Longrightarrow> tree (upd_at p f v) = tree v"
proof (induction p arbitrary: v)
  case (Cons k p)
  have IH: "tree (upd_at p f x) = tree x" if "map_find k (map_of_value v) = Some x" for x
    using Cons that by simp
  show ?case
  proof (rule ext)
    fix q
    show "tree (upd_at (k # p) f v) q = tree v q"
    proof (cases q)
      case (Cons k' q')
      then show ?thesis using IH unfolding Cons tree_upd_at_Cons by (auto simp: tree_Cons split: option.split)
    qed simp
  qed
qed simp

lemma tree_setComment: "setComment c p v = Inr w \<Longrightarrow> tree w = tree v"
  by (rule tree_payload) (auto simp: setComment_def Let_def json_assert_def split: if_splits)

lemma tree_comment_at: "get_at p v = Some x \<Longrightarrow> setComment c place x = Inr w \<Longrightarrow> tree (upd_at p (\<lambda>_. w) v) = tree v"
  by (rule tree_upd_at_same) (simp add: tree_setComment)

lemma wf_upd_at: "wf_value v \<Longrightarrow> (\<And>x. wf_value x \<Longrightarrow> wf_value (f x)) \<Longrightarrow> wf_value (upd_at p f v)"
proof (induction p arbitrary: v)
  case (Cons k p)
  have "wf_map b (map (\<lambda>(k', x). (k', if k' = k then upd_at p f x else x)) m)" if "wf_map b m" for b m
    using that Cons by (fastforce simp: wf_map_def sorted_map_def)
  then show ?case using Cons.prems(1) by (auto intro: wf_with_map)
qed simp

lemma wf_get_at: "wf_value v \<Longrightarrow> get_at p v = Some x \<Longrightarrow> wf_value x"
proof (induction p arbitrary: v)
  case (Cons k p)
  then obtain y where y: "map_find k (map_of_value v) = Some y" "get_at p y = Some x" by (auto split: option.splits)
  have "wf_value y" using wf_ref_get [OF Cons.prems(1), of k] y(1) by (simp add: ref_get_def)
  then show ?case using Cons.IH y(2) by blast
qed simp

lemma wf_comment_at: "wf_value v \<Longrightarrow> get_at p v = Some x \<Longrightarrow> setComment c place x = Inr w \<Longrightarrow> wf_value (upd_at p (\<lambda>_. w) v)"
  using wf_get_at [of v p x] by (intro wf_upd_at) (auto simp: setComment_def Let_def wf_iff)

section \<open>The scanner stays inside the document and moves forward\<close>

lemma skip_from_bounds [bounds_intros]: "i \<le> skip_from P d i" "i \<le> length d \<Longrightarrow> skip_from P d i \<le> length d"
  using length_takeWhile_le [of P "drop i d"] by (simp_all add: skip_from_def)

lemma peek_nonNUL: "peek d i \<noteq> NUL \<Longrightarrow> i < length d"
  by (simp add: peek_def split: if_splits)

lemma c_comment_bounds: "i \<le> c_comment d i \<and> (i \<le> length d \<longrightarrow> c_comment d i \<le> length d)"
proof (induction d i rule: c_comment.induct)
  case (1 d i)
  then show ?case by (auto simp: c_comment.simps [of d i])
qed

lemma number_end_bounds: "i \<le> length d \<Longrightarrow> i \<le> number_end d i \<and> number_end d i \<le> length d"
proof -
  assume i: "i \<le> length d"
  define j where "j = skip_from is_digit d i"
  define k where "k = (if peek d j = CHR ''.'' then skip_from is_digit d (j + 1) else j)"
  have j: "i \<le> j" "j \<le> length d" using skip_from_bounds i by (simp_all add: j_def)
  have k: "i \<le> k" "k \<le> length d"
    using j skip_from_bounds(1) [of "j + 1" is_digit d] skip_from_bounds(2) [of "j + 1" d is_digit]
      peek_nonNUL [of d j] by (auto simp: k_def)
  define l where "l = (if peek d (k + 1) = CHR ''+'' \<or> peek d (k + 1) = CHR ''-'' then k + 1 + 1 else k + 1)"
  define e where "e \<longleftrightarrow> peek d k = CHR ''e'' \<or> peek d k = CHR ''E''"
  have n: "number_end d i = (if e then skip_from is_digit d l else k)"
    unfolding number_end_def Let_def j_def k_def l_def e_def by (rule refl)
  show ?thesis
  proof (cases e)
    case True
    then have "k \<le> l" "l \<le> length d"
      using peek_nonNUL [of d k] peek_nonNUL [of d "k + 1"] by (auto simp: l_def e_def)
    with True k(1) skip_from_bounds(1) [of l is_digit d] skip_from_bounds(2) [of l d is_digit] n
    show ?thesis by simp
  qed (use n k in simp)
qed

lemma string_scan_length: "length (snd (string_scan cs)) \<le> length cs"
proof (induction cs rule: string_scan.induct)
  case (2 c cs)
  have "length (snd (string_scan cs')) \<le> length cs" if "c = bslash" "cs = c' # cs'" for c' cs'
    using 2(1) [OF that] that by simp
  moreover have "length (snd (string_scan cs)) \<le> length cs" if "c \<noteq> bslash" "c \<noteq> dquote"
    using 2(2) [OF that] .
  ultimately show ?case
    by (simp add: string_scan.simps(2) [of c cs] le_SucI del: string_scan.simps split: list.splits)
qed simp

text \<open>
  \<open>moved s s'\<close>: the reader went from \<open>s\<close> to \<open>s'\<close> over the same document, without going back or
  leaving it, with the same options, node stack and last value; of the values at most comments changed, and only when
  they are collected.
\<close>

definition in_doc :: "('f, 'a) scanner \<Rightarrow> bool" where "in_doc s \<longleftrightarrow> current s \<le> end_pos s"

definition moved :: "('f, 'a) scanner \<Rightarrow> ('f, 'a) scanner \<Rightarrow> bool" where
  "moved s s' \<longleftrightarrow> current s \<le> current s' \<and> in_doc s' \<and> doc s' = doc s \<and>
     features s' = features s \<and> collectComments s' = collectComments s \<and> nodes s' = nodes s \<and>
     lastValue s' = lastValue s \<and> lastValueEnd s' = lastValueEnd s \<and> tree (root s') = tree (root s) \<and>
     (wf_value (root s) \<longrightarrow> wf_value (root s')) \<and> (\<not> collectComments s \<longrightarrow> root s' = root s)"

lemma moved_refl: "in_doc s \<Longrightarrow> moved s s"
  by (simp add: moved_def)

lemma moved_trans [trans]: "moved s t \<Longrightarrow> moved t u \<Longrightarrow> moved s u"
  by (auto simp: moved_def)

lemma moved_in_doc: "moved s t \<Longrightarrow> in_doc t"
  by (simp add: moved_def)

lemma moved_skipSpaces: "in_doc s \<Longrightarrow> moved s (skipSpaces s)"
  using skip_from_bounds(1) [of "current s" is_space "doc s"] skip_from_bounds(2) [of "current s" "doc s" is_space]
  by (simp add: moved_def skipSpaces_def in_doc_def end_pos_def)

lemma moved_getNextChar: "in_doc s \<Longrightarrow> getNextChar s = (c, s') \<Longrightarrow>
  moved s s' \<and> (c \<noteq> NUL \<longrightarrow> current s < current s')"
  by (auto simp: getNextChar_def moved_def in_doc_def end_pos_def split: if_splits)

lemma moved_match: "in_doc s \<Longrightarrow> match p s = (ok, s') \<Longrightarrow> moved s s'"
proof -
  assume a: "in_doc s" "match p s = (ok, s')"
  have "take (length p) (drop (current s) (doc s)) = p \<Longrightarrow> length p \<le> length (doc s) - current s"
    by (metis length_drop length_take min.cobounded1)
  with a show ?thesis
    by (auto simp: match_def moved_def in_doc_def end_pos_def split: if_splits)
qed

lemma moved_set: "in_doc s \<Longrightarrow> current s \<le> n \<Longrightarrow> n \<le> length (doc s) \<Longrightarrow> moved s (s\<lparr>current := n\<rparr>)"
  by (simp add: moved_def in_doc_def end_pos_def)

lemma moved_readString: "in_doc s \<Longrightarrow> readString s = (ok, s') \<Longrightarrow> moved s s'"
  using string_scan_length [of "drop (current s) (doc s)"]
  by (auto simp: readString_def end_pos_def in_doc_def intro!: moved_set split: prod.splits)

lemma moved_readNumber: "in_doc s \<Longrightarrow> moved s (readNumber s)"
  using number_end_bounds [of "current s" "doc s"]
  by (auto simp: readNumber_def in_doc_def end_pos_def intro!: moved_set)

lemma moved_readCStyleComment: "in_doc s \<Longrightarrow> readCStyleComment s = (ok, s') \<Longrightarrow> moved s s'"
proof -
  assume a: "in_doc s" "readCStyleComment s = (ok, s')"
  let ?t = "s\<lparr>current := c_comment (doc s) (current s)\<rparr>"
  have "moved s ?t" using c_comment_bounds [of "current s" "doc s"] a(1)
    by (intro moved_set) (auto simp: in_doc_def end_pos_def)
  moreover obtain c where "getNextChar ?t = (c, s')"
    using a(2) by (auto simp: readCStyleComment_def split: prod.splits)
  ultimately show ?thesis using moved_getNextChar [of ?t c s'] moved_in_doc moved_trans by blast
qed

lemma moved_readCppStyleComment: "in_doc s \<Longrightarrow> readCppStyleComment s = (ok, s') \<Longrightarrow> moved s s'"
proof -
  assume a: "in_doc s" "readCppStyleComment s = (ok, s')"
  define i where "i = skip_from (\<lambda>c. c \<noteq> CHR 0x0A \<and> c \<noteq> CHR 0x0D) (doc s) (current s)"
  have "current s \<le> i" "i \<le> length (doc s)"
    using skip_from_bounds a(1) unfolding i_def in_doc_def end_pos_def by blast+
  then show ?thesis using a
    by (auto simp: readCppStyleComment_def Let_def end_pos_def simp flip: i_def
      split: if_splits intro!: moved_set)
qed

lemma moved_addComment: "in_doc s \<Longrightarrow> collectComments s \<Longrightarrow> addComment a b p s = Ok s' \<Longrightarrow> moved s s' \<and> current s' = current s"
  by (auto simp: addComment_def upd_outcome_def Let_def lift_def moved_def in_doc_def end_pos_def
    tree_comment_at split: if_splits option.splits sum.splits intro: wf_comment_at)

lemma moved_readComment: "in_doc s \<Longrightarrow> readComment s = Ok (ok, s') \<Longrightarrow> moved s s'"
proof -
  assume a: "in_doc s" "readComment s = Ok (ok, s')"
  obtain c t where t: "getNextChar s = (c, t)" by force
  define r where "r = (if c = CHR ''*'' then readCStyleComment t
      else if c = CHR ''/'' then readCppStyleComment t else (False, t))"
  obtain ok' u where u: "r = (ok', u)" by force
  have st: "moved s t" using moved_getNextChar [OF a(1) t] by simp
  moreover have tu: "moved t u"
    using u moved_in_doc [OF st] unfolding r_def
    by (auto split: if_splits intro: moved_readCStyleComment moved_readCppStyleComment moved_refl)
  moreover have "moved u s'"
  proof -
    have "s' = u \<or> collectComments u \<and> (\<exists>a b p. addComment a b p u = Ok s')"
      using a(2) t u unfolding readComment_def Let_def r_def
      by (auto split: if_splits)
    then show ?thesis using moved_in_doc [OF tu] moved_addComment moved_refl by blast
  qed
  ultimately show ?thesis using moved_trans by blast
qed

lemma tok_Ok: "tok t a ok s = Ok (ok', tk, s') \<longleftrightarrow>
    ok' = ok \<and> s' = s \<and> tk = \<lparr>t_type = (if ok then t else tokenError), t_start = a, t_end = current s\<rparr>"
  by (auto simp: tok_def)

lemma if_any: "(if b then x else y) = r \<Longrightarrow> x = r \<or> y = r"
  by (simp split: if_splits)

text \<open>What a token tells: its range, its end is the new position, and it is not empty unless it is the end of the stream.\<close>

lemma readToken_moved:
  assumes "in_doc s" "readToken s = Ok (ok, tk, s')"
  shows "moved s s' \<and> current s \<le> t_start tk \<and> t_start tk \<le> t_end tk \<and> t_end tk = current s' \<and>
    (t_type tk \<noteq> tokenEndOfStream \<longrightarrow> t_start tk < t_end tk) \<and> (\<not> ok \<longrightarrow> t_type tk = tokenError)"
proof -
  obtain c u where u: "getNextChar (skipSpaces s) = (c, u)" by force
  let ?a = "current (skipSpaces s)"
  have 1: "moved s (skipSpaces s)" by (rule moved_skipSpaces [OF assms(1)])
  have 2: "moved (skipSpaces s) u" "c \<noteq> NUL \<Longrightarrow> ?a < current u"
    using moved_getNextChar [OF moved_in_doc [OF 1] u] by auto
  have "\<exists>t. tok t ?a ok s' = Ok (ok, tk, s') \<and> moved u s' \<and> (c = NUL \<longrightarrow> t = tokenEndOfStream \<and> ok)"
  proof (cases "c = NUL")
    case True
    then have "readToken s = tok tokenEndOfStream ?a True u"
      by (simp add: readToken_def Let_def u is_digit_def less_eq_char_def)
    with assms(2) moved_refl [OF moved_in_doc [OF 2(1)]] show ?thesis by (auto simp: tok_Ok)
  next
    case False
    from assms(2) have "\<exists>t. tok t ?a ok s' = Ok (ok, tk, s') \<and> moved u s'"
      using moved_refl [OF moved_in_doc [OF 2(1)]] moved_in_doc [OF 2(1)]
      unfolding readToken_def Let_def u prod.case
      by (elim if_any [elim_format] disjE)
        (auto simp: tok_Ok split: prod.splits
          intro: moved_readString moved_readComment moved_readNumber moved_match)
    with False show ?thesis by blast
  qed
  then obtain t where t: "tok t ?a ok s' = Ok (ok, tk, s')" "moved u s'"
    "c = NUL \<longrightarrow> t = tokenEndOfStream \<and> ok" by blast
  have "current u \<le> current s'" using t(2) by (simp add: moved_def)
  moreover have "current s \<le> ?a" "?a \<le> current u" using 1 2(1) by (simp_all add: moved_def)
  moreover have "moved s s'" using 1 2(1) t(2) moved_trans by blast
  ultimately show ?thesis using t 2(2) by (auto simp: tok_Ok)
qed

section \<open>Token loops\<close>

text \<open>
  Reading with \<open>current_\<close> behind \<open>end_\<close> is undefined behaviour; the loops say so explicitly, which
  also makes them total. \<open>in_doc\<close> is an invariant, so that branch is never taken.
\<close>

function skip_comments :: "bool \<Rightarrow> Token \<Rightarrow> Reader \<Rightarrow> (bool \<times> Token \<times> Reader) res" where
  "skip_comments ok tk s =
    (if \<not> (t_type tk = tokenComment \<and> ok) then Ok (ok, tk, s)
     else if \<not> in_doc s then Abort (Undefined ''read past end'')
     else bind (readToken s) (\<lambda>(ok, tk, s). skip_comments ok tk s))"
  by pat_completeness auto
termination
proof (relation "measure (\<lambda>(ok, tk, s). (if t_type tk = tokenComment then 1 else 0) + (length (doc s) - current s))")
  fix ok :: bool and tk :: Token and s r ok' p tk' s'
  assume a: "\<not> \<not> (t_type tk = tokenComment \<and> ok)" "\<not> \<not> in_doc s" "readToken s = Ok r" "(ok', p) = r" "(tk', s') = p"
  with readToken_moved [of s ok' tk' s'] have m: "moved s s'"
    "t_type tk' \<noteq> tokenEndOfStream \<longrightarrow> current s < current s'" by auto
  then show "((ok', tk', s'), ok, tk, s) \<in> measure (\<lambda>(ok, tk, s).
      (if t_type tk = tokenComment then 1 else 0) + (length (doc s) - current s))"
    using a(1) by (auto simp: moved_def in_doc_def end_pos_def)
qed simp

declare skip_comments.simps [simp del]

definition skipCommentTokens :: "Reader \<Rightarrow> (Token \<times> Reader) res" where
  "skipCommentTokens s =
    bind (readToken s) (\<lambda>(ok, tk, s).
      if allowComments (features s) then bind (skip_comments True tk s) (\<lambda>(ok, tk, s). Ok (tk, s))
      else Ok (tk, s))"

function recover_loop :: "TokenType \<Rightarrow> nat \<Rightarrow> Reader \<Rightarrow> Reader res" where
  "recover_loop skipUntilToken errorCount s =
    (if \<not> in_doc s then Abort (Undefined ''read past end'')
     else bind (readToken s) (\<lambda>(ok, skip, s).
       if t_type skip = skipUntilToken \<or> t_type skip = tokenEndOfStream then Ok s
       else recover_loop skipUntilToken errorCount
         (if ok then s else s\<lparr>errors := take errorCount (errors s)\<rparr>)))"
  by pat_completeness auto
termination
proof (relation "measure (\<lambda>(_, _, s). length (doc s) - current s)")
  fix u n s r ok p skip s'
  assume a: "\<not> \<not> in_doc s" "readToken s = Ok r" "(ok, p) = r" "(skip, s') = p"
    "\<not> (t_type skip = u \<or> t_type skip = tokenEndOfStream)"
  with readToken_moved [of s ok skip s'] have "moved s s'" "current s < current s'" by auto
  then show "((u, n, if ok then s' else s'\<lparr>errors := take n (errors s')\<rparr>), u, n, s)
      \<in> measure (\<lambda>(_, _, s). length (doc s) - current s)"
    by (auto simp: moved_def in_doc_def end_pos_def)
qed simp

declare recover_loop.simps [simp del]

definition recoverFromError :: "TokenType \<Rightarrow> Reader \<Rightarrow> (bool \<times> Reader) res" where
  "recoverFromError skipUntilToken s =
    (let errorCount = length (errors s) in
     bind (recover_loop skipUntilToken errorCount s)
       (\<lambda>s. Ok (False, s\<lparr>errors := take errorCount (errors s)\<rparr>)))"

definition addErrorAndRecover :: "string \<Rightarrow> Token \<Rightarrow> TokenType \<Rightarrow> Reader \<Rightarrow> (bool \<times> Reader) res" where
  "addErrorAndRecover message token skipUntilToken s =
     recoverFromError skipUntilToken (addError message token None s)"

section \<open>Numbers\<close>

text \<open>
  The digit loop of \<open>decodeNumber\<close> on the rest of the token; \<open>None\<close> is the call of
  \<open>decodeDouble\<close>.
\<close>

fun decode_digits :: "u64 \<Rightarrow> u64 \<Rightarrow> u64 \<Rightarrow> string \<Rightarrow> u64 option" where
  "decode_digits maxIntegerValue threshold value [] = Some value"
| "decode_digits maxIntegerValue threshold value (c # rest) =
    (if \<not> is_digit c then None else
     let digit = word_of_nat (digit_val c) in
     if value \<ge> threshold \<and> (value > threshold \<or> rest \<noteq> [] \<or> digit > maxIntegerValue mod 10) then None
     else decode_digits maxIntegerValue threshold (value * 10 + digit) rest)"

definition decode_integer :: "string \<Rightarrow> Value option" where
  "decode_integer text =
    (let isNegative = (text \<noteq> [] \<and> hd text = CHR ''-'');
         digits = (if isNegative then tl text else text);
         maxIntegerValue = (if isNegative then maxLargestInt + 1 else maxLargestUInt);
         threshold = maxIntegerValue div 10
     in case decode_digits maxIntegerValue threshold 0 digits of
          None \<Rightarrow> None
        | Some value \<Rightarrow> Some
           (if isNegative \<and> value = maxIntegerValue then Value_of_Int64 minLargestInt
            else if isNegative then Value_of_Int64 (- value)
            else if value \<le> 0x7FFFFFFF then Value_of_Int64 value
            else Value_of_UInt64 value))"

text \<open>
  \<open>is >> value\<close> on a string stream: the text must be an optional sign, digits with an optional
  fraction and an optional exponent as a whole, and the result is the correctly rounded double.
  When the text has another shape the extraction fails with the value 0; when the number is too
  large it fails with the largest double, which \<open>decodeDouble\<close> turns into an infinity.
\<close>

definition exponent_of :: "string \<Rightarrow> int option" where
  "exponent_of r =
    (if r = [] then Some 0
     else if hd r = CHR ''e'' \<or> hd r = CHR ''E'' then
       (let r = tl r; neg = (r \<noteq> [] \<and> hd r = CHR ''-'');
            r = (if r \<noteq> [] \<and> (hd r = CHR ''-'' \<or> hd r = CHR ''+'') then tl r else r)
        in if r \<noteq> [] \<and> list_all is_digit r then Some (if neg then - int (undec r) else int (undec r))
           else None)
     else None)"

definition decodeDouble :: "string \<Rightarrow> double option" where
  "decodeDouble text =
    (let neg = (text \<noteq> [] \<and> hd text = CHR ''-''); r = (if neg then tl text else text);
         ip = takeWhile is_digit r; r = dropWhile is_digit r;
         fp = (if r \<noteq> [] \<and> hd r = CHR ''.'' then takeWhile is_digit (tl r) else []);
         r = (if r \<noteq> [] \<and> hd r = CHR ''.'' then dropWhile is_digit (tl r) else r)
     in if ip @ fp = [] then None else
        case exponent_of r of None \<Rightarrow> None
        | Some e \<Rightarrow>
           (let q = of_nat (undec (ip @ fp)) * 10 powi (e - int (length fp)) in
            if neg \<and> q = 0 then Some DNegZero else Some (double_of (if neg then - q else q))))"

definition decodeNumber_value :: "string \<Rightarrow> Value option" where
  "decodeNumber_value text = (case decode_integer text of
     Some v \<Rightarrow> Some v | None \<Rightarrow> map_option Value_of_double (decodeDouble text))"

definition token_text :: "Token \<Rightarrow> ('f, 'a) scanner \<Rightarrow> string" where
  "token_text tk s = slice (t_start tk) (t_end tk) (doc s)"

definition not_a_number :: "string \<Rightarrow> string" where
  "not_a_number text = [CHR 0x27] @ text @ [CHR 0x27] @ '' is not a number.''"

definition store_decoded :: "Token \<Rightarrow> Value \<Rightarrow> ('f, 'a) scanner \<Rightarrow> ('f, 'a) scanner" where
  "store_decoded tk decoded s =
     upd_current (\<lambda>v. setOffsets (offset s (t_start tk)) (offset s (t_end tk)) (set_payload (payload decoded) v)) s"

definition decodeNumber :: "Token \<Rightarrow> Reader \<Rightarrow> bool \<times> Reader" where
  "decodeNumber tk s = (case decodeNumber_value (token_text tk s) of
     None \<Rightarrow> (False, addError (not_a_number (token_text tk s)) tk None s)
   | Some decoded \<Rightarrow> (True, store_decoded tk decoded s))"

section \<open>Strings\<close>

definition hex_value :: "char \<Rightarrow> nat option" where
  "hex_value c =
    (if CHR ''0'' \<le> c \<and> c \<le> CHR ''9'' then Some (of_char c - of_char (CHR ''0''))
     else if CHR ''a'' \<le> c \<and> c \<le> CHR ''f'' then Some (of_char c - of_char (CHR ''a'') + 10)
     else if CHR ''A'' \<le> c \<and> c \<le> CHR ''F'' then Some (of_char c - of_char (CHR ''A'') + 10)
     else None)"

text \<open>
  The decoders work on the text from \<open>current\<close> to \<open>end\<close>; an error is its message and the rest of
  the text at the reported location.
\<close>

type_synonym decode_error = "string \<times> string"

fun unicode_digits :: "nat \<Rightarrow> nat \<Rightarrow> string \<Rightarrow> decode_error + nat \<times> string" where
  "unicode_digits 0 unicode cs = Inr (unicode, cs)"
| "unicode_digits (Suc n) unicode (c # cs) = (case hex_value c of
     None \<Rightarrow> Inl (''Bad unicode escape sequence in string: hexadecimal digit expected.'', cs)
   | Some d \<Rightarrow> unicode_digits n (unicode * 16 + d) cs)"
| "unicode_digits (Suc n) unicode [] = Inl (''Bad unicode escape sequence in string: four digits expected.'', [])"

definition decodeUnicodeEscapeSequence :: "string \<Rightarrow> decode_error + codepoint \<times> string" where
  "decodeUnicodeEscapeSequence cs =
    (if length cs < 4 then Inl (''Bad unicode escape sequence in string: four digits expected.'', cs)
     else map_sum id (\<lambda>(u, cs). (word_of_nat u, cs)) (unicode_digits 4 0 cs))"

definition surrogate_message :: string where
  "surrogate_message = ''expecting another '' @ [bslash] @
     ''u token to begin the second half of a unicode surrogate pair''"

definition decodeUnicodeCodePoint :: "string \<Rightarrow> decode_error + codepoint \<times> string" where
  "decodeUnicodeCodePoint cs =
    (case decodeUnicodeEscapeSequence cs of
       Inl e \<Rightarrow> Inl e
     | Inr (unicode, cs) \<Rightarrow>
        if unicode \<ge> 0xD800 \<and> unicode \<le> 0xDBFF then
          (if length cs < 6 then
             Inl (''additional six characters expected to parse unicode surrogate pair.'', cs)
           else if hd cs \<noteq> bslash then Inl (surrogate_message, tl cs)
           else if hd (tl cs) \<noteq> CHR ''u'' then Inl (surrogate_message, tl (tl cs))
           else case decodeUnicodeEscapeSequence (tl (tl cs)) of
               Inl e \<Rightarrow> Inl e
             | Inr (surrogatePair, cs) \<Rightarrow>
                Inr (0x10000 + push_bit 10 (unicode AND 0x3FF) + (surrogatePair AND 0x3FF), cs))
        else Inr (unicode, cs))"

definition simple_escape :: "char \<Rightarrow> char option" where
  "simple_escape c =
    (if c = dquote then Some dquote else if c = CHR ''/'' then Some (CHR ''/'')
     else if c = bslash then Some bslash else if c = CHR ''b'' then Some (CHR 0x08)
     else if c = CHR ''f'' then Some (CHR 0x0C) else if c = CHR ''n'' then Some (CHR 0x0A)
     else if c = CHR ''r'' then Some (CHR 0x0D) else if c = CHR ''t'' then Some (CHR 0x09) else None)"

lemma unicode_digits_length:
  "unicode_digits n u cs = Inr (v, cs') \<Longrightarrow> length cs' \<le> length cs"
  by (induction n u cs rule: unicode_digits.induct) (auto split: option.splits)

lemma decodeUnicodeEscapeSequence_length:
  "decodeUnicodeEscapeSequence cs = Inr (v, cs') \<Longrightarrow> length cs' \<le> length cs"
  by (auto simp: decodeUnicodeEscapeSequence_def split: if_splits dest: unicode_digits_length)

lemma decodeUnicodeCodePoint_length:
  "decodeUnicodeCodePoint cs = Inr (v, cs') \<Longrightarrow> length cs' \<le> length cs"
  by (fastforce simp: decodeUnicodeCodePoint_def split: if_splits sum.splits
    dest: decodeUnicodeEscapeSequence_length)

function decode_chars :: "string \<Rightarrow> string \<Rightarrow> decode_error + string" where
  "decode_chars [] decoded = Inr decoded"
| "decode_chars (c # cs) decoded =
    (if c = dquote then Inr decoded
     else if c = bslash then
       (case cs of
          [] \<Rightarrow> Inl (''Empty escape sequence in string'', cs)
        | esc # cs \<Rightarrow>
           (case simple_escape esc of
              Some d \<Rightarrow> decode_chars cs (decoded @ [d])
            | None \<Rightarrow>
                if esc = CHR ''u'' then
                  (case decodeUnicodeCodePoint cs of
                     Inl e \<Rightarrow> Inl e
                   | Inr (unicode, cs) \<Rightarrow> decode_chars cs (decoded @ codePointToUTF8 unicode))
                else Inl (''Bad escape sequence in string'', cs)))
     else decode_chars cs (decoded @ [c]))"
  by pat_completeness auto
termination
  by (relation "measure (\<lambda>(cs, _). length cs)") (auto dest!: decodeUnicodeCodePoint_length)

declare decode_chars.simps [simp del]

definition string_body :: "Token \<Rightarrow> ('f, 'a) scanner \<Rightarrow> string" where
  "string_body tk s = slice (t_start tk + 1) (t_end tk - 1) (doc s)"

definition decodeString_value :: "Token \<Rightarrow> ('f, 'a) scanner \<Rightarrow> ('f, 'a) scanner + string" where
  "decodeString_value tk s = (case decode_chars (string_body tk s) [] of
     Inl (message, rest) \<Rightarrow> Inl (addError message tk (Some (t_end tk - 1 - length rest)) s)
   | Inr decoded \<Rightarrow> Inr decoded)"

definition decodeString :: "Token \<Rightarrow> ('f, 'a) scanner \<Rightarrow> (bool \<times> ('f, 'a) scanner) res" where
  "decodeString tk s = (case decodeString_value tk s of
     Inl s \<Rightarrow> Ok (False, s)
   | Inr decoded \<Rightarrow> bind (lift (Value_of_String decoded)) (\<lambda>v. Ok (True, store_decoded tk v s)))"

section \<open>Values, arrays, objects\<close>

definition stackLimit_g :: nat where "stackLimit_g = 1000"

definition push :: "path \<Rightarrow> ('f, 'a) scanner \<Rightarrow> ('f, 'a) scanner" where
  "push p s = s\<lparr>nodes := p # nodes s\<rparr>"

definition pop :: "('f, 'a) scanner \<Rightarrow> ('f, 'a) scanner" where
  "pop s = s\<lparr>nodes := tl (nodes s)\<rparr>"

text \<open>The comment collected so far goes to the value about to be read.\<close>

definition take_comments :: "('f, 'a) scanner \<Rightarrow> ('f, 'a) scanner res" where
  "take_comments s =
    (if collectComments s \<and> commentsBefore s \<noteq> [] then
       bind (upd_outcome (currentPath s) (setComment (commentsBefore s) commentBefore) s)
         (\<lambda>s. Ok (s\<lparr>commentsBefore := []\<rparr>))
     else Ok s)"

definition mark_value :: "Reader \<Rightarrow> Reader" where
  "mark_value s =
    (if collectComments s then s\<lparr>lastValueEnd := Some (current s), lastValue := Some (currentPath s)\<rparr>
     else s)"

definition store_literal :: "Payload \<Rightarrow> Token \<Rightarrow> ('f, 'a) scanner \<Rightarrow> ('f, 'a) scanner" where
  "store_literal p tk s = store_decoded tk (initBasic p) s"

definition limit_here :: "bool \<times> ('f, 'a) scanner \<Rightarrow> (bool \<times> ('f, 'a) scanner) res" where
  "limit_here r = (case r of (ok, s) \<Rightarrow>
     Ok (ok, upd_current (setOffsetLimit (offset s (current s))) s))"

definition start_container :: "Payload \<Rightarrow> Token \<Rightarrow> ('f, 'a) scanner \<Rightarrow> ('f, 'a) scanner" where
  "start_container p tk s =
     upd_current (\<lambda>v. setOffsetStart (offset s (t_start tk)) (set_payload p v)) s"

text \<open>
  \<open>current_--\<close> in the branch for dropped null placeholders: the token is one character long, so
  the new position is its start.
\<close>

definition unread :: "('f, 'a) scanner \<Rightarrow> ('f, 'a) scanner" where
  "unread s = (let s = s\<lparr>current := current s - 1\<rparr> in
     upd_current (\<lambda>v. setOffsetLimit (offset s (current s)) (setOffsetStart (offset s (current s) - 1)
       (set_payload PNull v))) s)"

text \<open>
  The bodies of \<open>readValue\<close>, of the loop of \<open>readObject\<close> and of the loop of \<open>readArray\<close>, with the
  recursive calls as arguments; the recursion is tied below.
\<close>

type_synonym parser = "Reader \<Rightarrow> (bool \<times> Reader) res"

definition value_expected :: "Token \<Rightarrow> ('f, 'a) scanner \<Rightarrow> (bool option \<times> ('f, 'a) scanner) res" where
  "value_expected token s =
     Ok (None, addError ''Syntax error: value, object or array expected.'' token None
       (upd_current (setOffsets (offset s (t_start token)) (offset s (t_end token))) s))"

definition with_result :: "bool \<times> ('f, 'a) scanner \<Rightarrow> (bool option \<times> ('f, 'a) scanner) res" where
  "with_result r = Ok (Some (fst r), snd r)"

definition value_switch ::
  "(Token \<Rightarrow> parser) \<Rightarrow> (Token \<Rightarrow> parser) \<Rightarrow> Token \<Rightarrow> Reader \<Rightarrow> (bool option \<times> Reader) res" where
  "value_switch read_object read_array token s =
    (case t_type token of
       tokenObjectBegin \<Rightarrow> bind (bind (read_object token s) limit_here) with_result
     | tokenArrayBegin \<Rightarrow> bind (bind (read_array token s) limit_here) with_result
     | tokenNumber \<Rightarrow> with_result (decodeNumber token s)
     | tokenString \<Rightarrow> bind (decodeString token s) with_result
     | tokenTrue \<Rightarrow> with_result (True, store_literal (PBool True) token s)
     | tokenFalse \<Rightarrow> with_result (True, store_literal (PBool False) token s)
     | tokenNull \<Rightarrow> with_result (True, store_literal PNull token s)
     | t \<Rightarrow>
        if (t = tokenArraySeparator \<or> t = tokenObjectEnd \<or> t = tokenArrayEnd) \<and>
           allowDroppedNullPlaceholders (features s)
        then with_result (True, unread s) else value_expected token s)"

definition value_body :: "(Token \<Rightarrow> parser) \<Rightarrow> (Token \<Rightarrow> parser) \<Rightarrow> parser" where
  "value_body read_object read_array s =
    (if length (nodes s) > stackLimit_g then Abort (RuntimeError ''Exceeded stackLimit in readValue().'')
     else
     bind (skipCommentTokens s) (\<lambda>(token, s).
     bind (take_comments s) (\<lambda>s.
     bind (value_switch read_object read_array token s) (\<lambda>(r, s).
       case r of None \<Rightarrow> Ok (False, s) | Some successful \<Rightarrow> Ok (successful, mark_value s)))))"

definition quoted :: "string \<Rightarrow> string" where "quoted s = [CHR 0x27] @ s @ [CHR 0x27]"

definition comma_body :: "(string \<Rightarrow> parser) \<Rightarrow> string \<Rightarrow> parser" where
  "comma_body next name s =
    bind (readToken s) (\<lambda>(ok, comma, s).
    if \<not> ok \<or> t_type comma \<noteq> tokenObjectEnd \<and> t_type comma \<noteq> tokenArraySeparator \<and>
       t_type comma \<noteq> tokenComment then
      addErrorAndRecover (''Missing '' @ quoted '','' @ '' or '' @ quoted ''}'' @ '' in object declaration'')
        comma tokenObjectEnd s
    else
    bind (skip_comments True comma s) (\<lambda>(_, comma, s).
    if t_type comma = tokenObjectEnd then Ok (True, s) else next name s))"

text \<open>Create the child, push it, read it, pop it; \<open>after\<close> is what follows when it was read.\<close>

definition child_body ::
  "(Value \<Rightarrow> Value outcome) \<Rightarrow> czstring \<Rightarrow> TokenType \<Rightarrow> parser \<Rightarrow> parser \<Rightarrow> parser" where
  "child_body create k skipUntilToken read_value after s =
    bind (upd_outcome (currentPath s) create s) (\<lambda>s.
    bind (read_value (push (currentPath s @ [k]) s)) (\<lambda>(ok, s).
    if \<not> ok then recoverFromError skipUntilToken (pop s) else after (pop s)))"

definition member_body :: "parser \<Rightarrow> (string \<Rightarrow> parser) \<Rightarrow> string \<Rightarrow> parser" where
  "member_body read_value next name s =
    bind (readToken s) (\<lambda>(ok, colon, s).
    if \<not> ok \<or> t_type colon \<noteq> tokenMemberSeparator then
      addErrorAndRecover (''Missing '' @ quoted '':'' @ '' after object member name'') colon tokenObjectEnd s
    else child_body (resolveReference name) (CZString name) tokenObjectEnd read_value (comma_body next name) s)"

definition name_body :: "parser \<Rightarrow> (string \<Rightarrow> parser) \<Rightarrow> string \<Rightarrow> bool \<Rightarrow> Token \<Rightarrow> parser" where
  "name_body read_value next name ok tokenName s =
    (if ok \<and> t_type tokenName = tokenObjectEnd \<and> name = [] then Ok (True, s)
     else if ok \<and> t_type tokenName = tokenString then
       (case decodeString_value tokenName s of
          Inl s \<Rightarrow> recoverFromError tokenObjectEnd s
        | Inr name \<Rightarrow> member_body read_value next name s)
     else if ok \<and> t_type tokenName = tokenNumber \<and> allowNumericKeys (features s) then
       (case decodeNumber_value (token_text tokenName s) of
          None \<Rightarrow> recoverFromError tokenObjectEnd
            (addError (not_a_number (token_text tokenName s)) tokenName None s)
        | Some numberName \<Rightarrow>
            bind (lift (asString numberName)) (\<lambda>name. member_body read_value next name s))
     else addErrorAndRecover (''Missing '' @ quoted ''}'' @ '' or object member name'') tokenName tokenObjectEnd s)"

definition object_body :: "parser \<Rightarrow> (string \<Rightarrow> parser) \<Rightarrow> string \<Rightarrow> parser" where
  "object_body read_value next name s =
    bind (readToken s) (\<lambda>(ok, tokenName, s).
    bind (skip_comments ok tokenName s) (\<lambda>(ok, tokenName, s). name_body read_value next name ok tokenName s))"

definition separator_body :: "(int \<Rightarrow> parser) \<Rightarrow> int \<Rightarrow> parser" where
  "separator_body next index s =
    bind (readToken s) (\<lambda>(ok, currentToken, s).
    bind (skip_comments ok currentToken s) (\<lambda>(ok, currentToken, s).
    if \<not> ok \<or> t_type currentToken \<noteq> tokenArraySeparator \<and> t_type currentToken \<noteq> tokenArrayEnd then
      addErrorAndRecover (''Missing '' @ quoted '','' @ '' or '' @ quoted '']'' @ '' in array declaration'')
        currentToken tokenArrayEnd s
    else if t_type currentToken = tokenArrayEnd then Ok (True, s)
    else next (index + 1) s))"

definition array_body :: "parser \<Rightarrow> (int \<Rightarrow> parser) \<Rightarrow> int \<Rightarrow> parser" where
  "array_body read_value next index s =
     child_body (index_ref_int index) (CZIndex (word_of_int index)) tokenArrayEnd read_value
       (separator_body next index) s"

fun readValue :: "nat \<Rightarrow> parser"
  and readObject :: "nat \<Rightarrow> Token \<Rightarrow> parser"
  and readObject_loop :: "nat \<Rightarrow> string \<Rightarrow> parser"
  and readArray :: "nat \<Rightarrow> Token \<Rightarrow> parser"
  and readArray_loop :: "nat \<Rightarrow> int \<Rightarrow> parser" where
  "readValue 0 s = OutOfFuel"
| "readValue (Suc n) s = value_body (\<lambda>token s. readObject n token s) (\<lambda>token s. readArray n token s) s"

| "readObject n token s = readObject_loop n [] (start_container (PObject []) token s)"

| "readObject_loop 0 name s = OutOfFuel"
| "readObject_loop (Suc n) name s =
     object_body (\<lambda>s. readValue n s) (\<lambda>name s. readObject_loop n name s) name s"

| "readArray n token s =
    (let s = skipSpaces (start_container (PArray []) token s) in
     if current s \<noteq> end_pos s \<and> doc s ! current s = CHR '']'' then
       bind (readToken s) (\<lambda>(_, endArray, s). Ok (True, s))
     else readArray_loop n 0 s)"

| "readArray_loop 0 index s = OutOfFuel"
| "readArray_loop (Suc n) index s =
     array_body (\<lambda>s. readValue n s) (\<lambda>index s. readArray_loop n index s) index s"

text \<open>White space before a token, a value or an element does not matter.\<close>

lemma skipSpaces_idem: "skipSpaces (skipSpaces s) = skipSpaces s"
proof -
  let ?r = "drop (current s) (doc s)"
  have "drop (current s + length (takeWhile is_space ?r)) (doc s) = dropWhile is_space ?r"
    by (metis add.commute drop_drop dropWhile_eq_drop)
  moreover have "takeWhile is_space (dropWhile is_space r) = []" for r by (induction r) auto
  ultimately show ?thesis by (simp add: skipSpaces_def skip_from_def)
qed

lemma readToken_skipSpaces: "readToken (skipSpaces s) = readToken s"
  by (simp add: readToken_def skipSpaces_idem)

lemma readValue_skipSpaces: "readValue n (skipSpaces s) = readValue n s"
proof (cases n)
  case (Suc k)
  have "nodes (skipSpaces s) = nodes s" by (simp add: skipSpaces_def)
  then show ?thesis unfolding Suc by (simp add: value_body_def skipCommentTokens_def readToken_skipSpaces)
qed simp

lemma child_body_skipSpaces:
  "child_body create k e (\<lambda>s. readValue n s) after (skipSpaces s) = child_body create k e (\<lambda>s. readValue n s) after s"
proof -
  have p: "push q ((skipSpaces s)\<lparr>root := x\<rparr>) = skipSpaces (push q (s\<lparr>root := x\<rparr>))" for q x
    by (simp add: push_def skipSpaces_def)
  have q: "currentPath (skipSpaces s) = currentPath s" "root (skipSpaces s) = root s"
    "currentPath ((skipSpaces s)\<lparr>root := x\<rparr>) = currentPath s" "currentPath (s\<lparr>root := x\<rparr>) = currentPath s" for x
    by (simp_all add: currentPath_def skipSpaces_def)
  show ?thesis
    by (cases "get_at (currentPath s) (root s)"; cases "create (the (get_at (currentPath s) (root s)))")
      (simp_all add: child_body_def upd_outcome_def q p readValue_skipSpaces lift_def)
qed

lemma readArray_loop_skipSpaces: "readArray_loop n i (skipSpaces s) = readArray_loop n i s"
  by (cases n) (simp_all add: array_body_def child_body_skipSpaces)

section \<open>The parser\<close>

text \<open>
  \<open>parse(beginDoc, endDoc, root, collectComments)\<close> on a reader \<open>s\<close>; the other overloads pass a
  string's characters. The fuel \<open>parse_fuel\<close> depends on the length of the document only; that it
  suffices is a theorem (theory \<open>Json_Reader_Props\<close>).
\<close>

definition new_reader :: "Features \<Rightarrow> Reader" where
  "new_reader f = \<lparr>doc = [], begin_pos = 0, current = 0, lastValueEnd = None, lastValue = None, commentsBefore = [],
     errors = [], nodes = [], root = nullSingleton, features = f, collectComments = False\<rparr>"

definition init_parse :: "string \<Rightarrow> Value \<Rightarrow> bool \<Rightarrow> Reader \<Rightarrow> Reader" where
  "init_parse d v collect s =
     s\<lparr>doc := d, begin_pos := 0, current := 0, lastValueEnd := None, lastValue := None, commentsBefore := [],
       errors := [], nodes := [[]], root := v, collectComments := collect \<and> allowComments (features s)\<rparr>"

definition parse_loop :: "nat \<Rightarrow> string \<Rightarrow> Value \<Rightarrow> bool \<Rightarrow> Reader \<Rightarrow> (bool \<times> Reader) res" where
  "parse_loop fuel d v collect s =
    bind (readValue fuel (init_parse d v collect s)) (\<lambda>(successful, s).
    bind (skipCommentTokens s) (\<lambda>(token, s).
    bind (if collectComments s \<and> commentsBefore s \<noteq> []
          then upd_outcome [] (setComment (commentsBefore s) commentAfter) s else Ok s) (\<lambda>s.
    if strictRoot (features s) \<and> \<not> isArray (root s) \<and> \<not> isObject (root s) then
      Ok (False, addError ''A valid JSON document must be either an array or an object value.''
        \<lparr>t_type = tokenError, t_start = 0, t_end = length d\<rparr> None s)
    else Ok (successful, s))))"

definition parse_fuel :: "string \<Rightarrow> nat" where
  "parse_fuel d = 2 * length d + 2"

definition parse :: "string \<Rightarrow> Value \<Rightarrow> bool \<Rightarrow> Reader \<Rightarrow> (bool \<times> Reader) res" where
  "parse d v collect s = parse_loop (parse_fuel d) d v collect s"

section \<open>Error reports\<close>

text \<open>
  \<open>getLocationLineAndColumn\<close>: the loop keeps the position, the start of the line and the line
  number. After a carriage return it looks at the next character without checking for the end
  of the document; \<open>peek\<close> is what a document followed by a NUL has there.
\<close>

function location_loop :: "string \<Rightarrow> nat \<Rightarrow> nat \<Rightarrow> nat \<Rightarrow> nat \<Rightarrow> nat \<times> nat" where
  "location_loop d location pos lastLineStart line =
    (if pos < location \<and> pos < length d then
       (let c = d ! pos; pos = pos + 1 in
        if c = CHR 0x0D then
          (let pos = (if peek d pos = CHR 0x0A then pos + 1 else pos)
           in location_loop d location pos pos (line + 1))
        else if c = CHR 0x0A then location_loop d location pos pos (line + 1)
        else location_loop d location pos lastLineStart line)
     else (lastLineStart, line))"
  by pat_completeness auto
termination
  by (relation "measure (\<lambda>(d, _, c, _, _). length d - c)") auto

declare location_loop.simps [simp del]

definition getLocationLineAndColumn :: "nat \<Rightarrow> ('f, 'a) scanner \<Rightarrow> int \<times> int" where
  "getLocationLineAndColumn location s =
    (let (lastLineStart, line) = location_loop (doc s) location (begin_pos s) (begin_pos s) 0 in
     (int line + 1, int location - int lastLineStart + 1))"

definition int_text :: "int \<Rightarrow> string" where
  "int_text i = (if i < 0 then ''-'' @ dec (nat (- i)) else dec (nat i))"

definition location_text :: "nat \<Rightarrow> ('f, 'a) scanner \<Rightarrow> string" where
  "location_text location s =
    (let (line, column) = getLocationLineAndColumn location s in
     c_trunc 51 (''Line '' @ int_text line @ '', Column '' @ int_text column))"

definition getFormattedErrorMessages :: "('f, 'a) scanner \<Rightarrow> string" where
  "getFormattedErrorMessages s =
     concat (map (\<lambda>e. ''* '' @ location_text (t_start (e_token e)) s @ [CHR 0x0A] @
       ''  '' @ e_message e @ [CHR 0x0A] @
       (case e_extra e of None \<Rightarrow> []
        | Some x \<Rightarrow> ''See '' @ location_text x s @ '' for detail.'' @ [CHR 0x0A])) (errors s))"

definition getStructuredErrors :: "('f, 'a) scanner \<Rightarrow> (int \<times> int \<times> string) list" where
  "getStructuredErrors s = map (\<lambda>e. (offset s (t_start (e_token e)), offset s (t_end (e_token e)), e_message e)) (errors s)"

definition pushError :: "Value \<Rightarrow> string \<Rightarrow> Value option \<Rightarrow> Reader \<Rightarrow> bool \<times> Reader" where
  "pushError v message extra s =
    (let len = int (end_pos s) - int (begin_pos s) in
     if v_start v > len \<or> v_limit v > len \<or> (case extra of None \<Rightarrow> False | Some x \<Rightarrow> v_limit x > len)
     then (False, s)
     else (True, addError message
       \<lparr>t_type = tokenError, t_start = nat (int (begin_pos s) + v_start v), t_end = nat (int (begin_pos s) + v_limit v)\<rparr>
       (map_option (\<lambda>x. nat (int (begin_pos s) + v_start x)) extra) s))"

definition good :: "Reader \<Rightarrow> bool" where "good s = (errors s = [])"

end
