(* ===== verification/Json_Reader_Props.thy ===== *)
theory Json_Reader_Props
  imports Json_Reader
begin

text \<open>
  What the parser guarantees on every input: it terminates within \<open>parse_fuel\<close>, never reads
  outside the document, changes nothing but the value it was given, and aborts only at the stack limit: the comments it
  collects go to values that exist and are accepted by \<open>setComment\<close>. \<open>safe E P r\<close> is the judgement the proofs use: the
  result \<open>r\<close> satisfies \<open>P\<close>, or is an abort in \<open>E\<close>, and is never out of fuel.
\<close>

section \<open>Safety of results\<close>

definition safe :: "(abort \<Rightarrow> bool) \<Rightarrow> ('a \<Rightarrow> bool) \<Rightarrow> 'a res \<Rightarrow> bool" where
  "safe E P r = (case r of Ok x \<Rightarrow> P x | Abort e \<Rightarrow> E e | OutOfFuel \<Rightarrow> False)"

lemma safe_simps [simp]: "safe E P (Ok x) = P x" "safe E P (Abort e) = E e" "\<not> safe E P OutOfFuel"
  by (simp_all add: safe_def)

lemma safe_bind: "safe E P x \<Longrightarrow> (\<And>a. P a \<Longrightarrow> safe E Q (f a)) \<Longrightarrow> safe E Q (bind x f)"
  by (cases x) auto

lemma safe_bind_eq: "safe E P x \<Longrightarrow> (\<And>a. P a \<Longrightarrow> x = Ok a \<Longrightarrow> safe E Q (f a)) \<Longrightarrow> safe E Q (bind x f)"
  by (cases x) auto

lemma safe_mono: "safe E P x \<Longrightarrow> (\<And>a. P a \<Longrightarrow> Q a) \<Longrightarrow> safe E Q x"
  by (cases x) auto

lemma safe_Ok: "safe E P x \<Longrightarrow> (\<And>a. P a \<Longrightarrow> x = Ok a \<Longrightarrow> Q a) \<Longrightarrow> safe E Q x"
  by (cases x) auto

lemma safe_weaken: "safe E P r \<Longrightarrow> (\<And>e. E e \<Longrightarrow> E' e) \<Longrightarrow> (\<And>a. P a \<Longrightarrow> Q a) \<Longrightarrow> safe E' Q r"
  by (cases r) auto

definition stack_exceeded :: abort where
  "stack_exceeded = RuntimeError ''Exceeded stackLimit in readValue().''"

section \<open>Comments\<close>

text \<open>
  \<open>commented\<close>: what \<open>setComment\<close> accepts, or nothing. \<open>noted\<close>: the value that the next comment on the same line goes to
  exists. \<open>poised\<close> is what every part of the parser starts from and keeps.
\<close>

definition commented :: "string \<Rightarrow> bool" where
  "commented t \<longleftrightarrow> t = [] \<or> 2 \<le> length t \<and> hd t = CHR ''/''"

definition noted :: "('f, 'a) scanner \<Rightarrow> bool" where
  "noted s \<longleftrightarrow> (collectComments s \<or> lastValue s = None) \<and> (lastValueEnd s \<noteq> None \<longrightarrow> lastValue s \<noteq> None) \<and>
     (\<forall>p. lastValue s = Some p \<longrightarrow> tree (root s) p \<noteq> None) \<and> commented (commentsBefore s)"

definition poised :: "('f, 'a) scanner \<Rightarrow> bool" where
  "poised s \<longleftrightarrow> in_doc s \<and> noted s"

lemma commented_append: "commented a \<Longrightarrow> commented b \<Longrightarrow> commented (a @ b)"
  by (auto simp: commented_def hd_append)

lemma setComment_commented:
  assumes "commented c" "c \<noteq> []"
  shows "\<exists>w. setComment c p v = Inr w"
proof -
  have "2 \<le> length c" "hd c = CHR ''/''" using assms by (auto simp: commented_def)
  moreover from this(1) obtain a b r where "c = a # b # r" by (cases c; cases "tl c") auto
  ultimately show ?thesis by (simp add: setComment_def Let_def json_assert_def)
qed

lemma tree_get_at: "tree v q = None \<longleftrightarrow> get_at q v = None"
  by (simp add: tree_def)

lemma poised_in_doc: "poised s \<Longrightarrow> in_doc s"
  by (simp add: poised_def)

lemma poised_moved: "poised s \<Longrightarrow> moved s t \<Longrightarrow> commented (commentsBefore t) \<Longrightarrow> poised t"
  by (auto simp: poised_def noted_def moved_def)

lemma poised_comments: "poised s \<Longrightarrow> commented (commentsBefore s)"
  by (simp add: poised_def noted_def)

lemma comment_text:
  assumes "a + 2 \<le> b" "b \<le> length d" "d ! a = CHR ''/''" "d ! (a + 1) \<noteq> CHR 0x0D"
  shows "commented (normalizeEOL (slice a b d)) \<and> normalizeEOL (slice a b d) \<noteq> []"
proof -
  have "drop a d = d ! a # drop (Suc a) d" "drop (Suc a) d = d ! (a + 1) # drop (a + 2) d"
    using assms(1,2) by (simp_all add: Cons_nth_drop_Suc)
  moreover have "b - a = Suc (Suc (b - a - 2))" using assms(1) by simp
  ultimately have "slice a b d = CHR ''/'' # d ! (a + 1) # take (b - a - 2) (drop (a + 2) d)"
    unfolding slice_def by (metis assms(3) take_Suc_Cons)
  then show ?thesis using assms(4) by (simp add: commented_def)
qed

lemma safe_addComment:
  assumes "poised s" "collectComments s" "a + 2 \<le> b" "b \<le> length (doc s)" "doc s ! a = CHR ''/''" "doc s ! (a + 1) \<noteq> CHR 0x0D"
    and "p = commentAfterOnSameLine \<Longrightarrow> lastValueEnd s \<noteq> None"
  shows "safe E (\<lambda>s'. commented (commentsBefore s')) (addComment a b p s)"
proof -
  let ?t = "normalizeEOL (slice a b (doc s))"
  have t: "commented ?t" "?t \<noteq> []" using comment_text [OF assms(3-6)] by auto
  have c: "commented (commentsBefore s)" using assms(1) by (rule poised_comments)
  have "\<exists>q v w. lastValue s = Some q \<and> get_at q (root s) = Some v \<and> setComment ?t p v = Inr w" if "p = commentAfterOnSameLine"
    using assms(1) assms(7) [OF that] setComment_commented [OF t] by (auto simp: poised_def noted_def tree_get_at)
  then show ?thesis using c commented_append [OF c t(1)]
    by (auto simp: addComment_def Let_def upd_outcome_def lift_def)
qed

lemma collect_getNextChar: "getNextChar s = (c, t) \<Longrightarrow> collectComments t = collectComments s"
  by (auto simp: getNextChar_def split: if_splits)

text \<open>What the comment loops change is the position.\<close>

lemma comments_kept [simp]: "commentsBefore (readNumber s) = commentsBefore s" "commentsBefore (skipSpaces s) = commentsBefore s"
  by (simp_all add: readNumber_def skipSpaces_def)

lemma comments_snd:
  "commentsBefore (snd (getNextChar s)) = commentsBefore s" "commentsBefore (snd (match p s)) = commentsBefore s"
  "commentsBefore (snd (readString s)) = commentsBefore s" "commentsBefore (snd (readCppStyleComment s)) = commentsBefore s"
  by (simp_all add: getNextChar_def match_def readString_def readCppStyleComment_def Let_def case_prod_unfold)

lemma comments_scan:
  "getNextChar s = (c, t) \<Longrightarrow> commentsBefore t = commentsBefore s"
  "match p s = (ok, t) \<Longrightarrow> commentsBefore t = commentsBefore s"
  "readString s = (ok, t) \<Longrightarrow> commentsBefore t = commentsBefore s"
  "readCppStyleComment s = (ok, t) \<Longrightarrow> commentsBefore t = commentsBefore s"
  "readCStyleComment s = (ok, t) \<Longrightarrow> commentsBefore t = commentsBefore s"
  using comments_snd(1,3,4) [of s] comments_snd(2) [of p s] comments_snd(1) [of "s\<lparr>current := c_comment (doc s) (current s)\<rparr>"]
  by (auto simp: readCStyleComment_def case_prod_unfold Let_def)

text \<open>A comment token, behind its first slash.\<close>

definition at_slash :: "('f, 'a) scanner \<Rightarrow> bool" where
  "at_slash s \<longleftrightarrow> poised s \<and> 0 < current s \<and> doc s ! (current s - 1) = CHR ''/''"

lemma at_slash_getNextChar: "poised s \<Longrightarrow> getNextChar s = (CHR ''/'', t) \<Longrightarrow> at_slash t"
  by (auto simp: at_slash_def getNextChar_def poised_def noted_def in_doc_def end_pos_def split: if_splits)

lemma comment_second_char:
  assumes "at_slash s" "getNextChar s = (c, t)" "c = CHR ''*'' \<or> c = CHR ''/''"
  shows "current t = current s + 1" "doc s ! current s = c" "current s < length (doc s)"
  using assms by (auto simp: getNextChar_def at_slash_def poised_def in_doc_def end_pos_def split: if_splits)

lemma safe_readComment:
  assumes s: "at_slash s"
  shows "safe E (\<lambda>(ok, s'). commented (commentsBefore s')) (readComment s)"
proof -
  obtain c t where t: "getNextChar s = (c, t)" by force
  define r where "r = (if c = CHR ''*'' then readCStyleComment t
      else if c = CHR ''/'' then readCppStyleComment t else (False, t))"
  obtain ok u where u: "r = (ok, u)" by force
  have d: "in_doc s" using s by (simp add: at_slash_def poised_def)
  have st: "moved s t" using moved_getNextChar [OF d t] by simp
  have tu: "moved t u" using u moved_in_doc [OF st] unfolding r_def
    by (auto split: if_splits intro: moved_readCStyleComment moved_readCppStyleComment moved_refl)
  have cu: "commentsBefore u = commentsBefore s" using u comments_scan(1) [OF t] unfolding r_def
    by (auto dest: comments_scan split: if_splits)
  have m: "moved s u" using moved_trans [OF st tu] .
  have ru: "poised u" using poised_moved [OF _ m] s cu by (simp add: at_slash_def poised_comments)
  show ?thesis
  proof (cases "ok \<and> collectComments u")
    case True
    then have c: "c = CHR ''*'' \<or> c = CHR ''/''" using u by (auto simp: r_def split: if_splits)
    from comment_second_char [OF s t this] have t1: "current t = current s + 1" "doc s ! current s = c" "current s < length (doc s)" .
    have p: "0 < current s" "doc s ! (current s - 1) = CHR ''/''" using s by (auto simp: at_slash_def)
    have "doc s ! (current s - 1 + 1) \<noteq> CHR 0x0D" using c t1(2) p(1) by auto
    moreover have "current s - 1 + 2 \<le> current u" "current u \<le> length (doc s)" "doc u = doc s"
      using tu m t1(1) p(1) by (auto simp: moved_def in_doc_def end_pos_def)
    ultimately have "safe E (\<lambda>s'. commented (commentsBefore s')) (addComment (current s - 1) (current u) pl u)"
      if "pl = commentAfterOnSameLine \<Longrightarrow> lastValueEnd u \<noteq> None" for pl
      using True p(2) that by (intro safe_addComment [OF ru]) simp_all
    then show ?thesis using True u unfolding readComment_def Let_def t prod.case r_def [symmetric]
      by (auto intro!: safe_bind [where P = "\<lambda>s'. commented (commentsBefore s')"] split: option.split)
  next
    case False
    then show ?thesis using poised_comments [OF ru] unfolding readComment_def Let_def t prod.case r_def [symmetric] u by auto
  qed
qed

lemma safe_tok [simp]: "safe E P (tok t a ok s) =
    P (ok, \<lparr>t_type = (if ok then t else tokenError), t_start = a, t_end = current s\<rparr>, s)"
  by (simp add: tok_def)

definition token_step :: "('f, 'a) scanner \<Rightarrow> bool \<times> Token \<times> ('f, 'a) scanner \<Rightarrow> bool" where
  "token_step s r = (case r of (ok, tk, s') \<Rightarrow>
     moved s s' \<and> poised s' \<and> (t_type tk \<noteq> tokenEndOfStream \<longrightarrow> current s < current s'))"

lemma token_stepI:
  assumes "poised s" "safe E (\<lambda>(ok, tk, s'). commented (commentsBefore s')) r"
    and "\<And>ok tk s'. r = Ok (ok, tk, s') \<Longrightarrow> moved s s' \<and> current s \<le> t_start tk \<and> t_start tk \<le> t_end tk \<and> t_end tk = current s' \<and>
      (t_type tk \<noteq> tokenEndOfStream \<longrightarrow> t_start tk < t_end tk) \<and> (\<not> ok \<longrightarrow> t_type tk = tokenError)"
  shows "safe E (token_step s) r"
  using assms(2) by (rule safe_Ok) (auto simp: token_step_def dest!: assms(3) intro: poised_moved [OF assms(1)])

lemma safe_readToken:
  assumes "poised s"
  shows "safe E (token_step s) (readToken s)"
proof (rule token_stepI [OF assms _ readToken_moved [OF poised_in_doc [OF assms]]])
  obtain c t where t: "getNextChar (skipSpaces s) = (c, t)" by force
  have s: "poised (skipSpaces s)"
    using poised_moved [OF assms moved_skipSpaces] assms by (simp add: poised_in_doc poised_comments)
  then have "commented (commentsBefore t)" using comments_scan(1) [OF t] assms by (simp add: poised_comments)
  moreover have r: "safe E (\<lambda>(ok, tk, s'). commented (commentsBefore s')) (bind (readComment t) (\<lambda>(ok, s). tok tokenComment a ok s))"
    if "c = CHR ''/''" for a
    using safe_readComment [OF at_slash_getNextChar [OF s, of t]] t that
    by (intro safe_bind [where P = "\<lambda>(ok, s'). commented (commentsBefore s')"]) (auto split: prod.splits)
  ultimately show "safe E (\<lambda>(ok, tk, s'). commented (commentsBefore s')) (readToken s)"
    unfolding readToken_def Let_def t prod.case by (simp add: r [unfolded case_prod_unfold] case_prod_unfold comments_snd)
qed simp

lemma codePointToUTF8_length: "length (codePointToUTF8 cp) \<le> 4"
  by (simp add: codePointToUTF8_def)

lemma unicode_digits_consumes:
  "unicode_digits n u cs = Inr (v, cs') \<Longrightarrow> length cs' + n = length cs"
  by (induction n u cs rule: unicode_digits.induct) (auto split: option.splits)

lemma decodeUnicodeEscapeSequence_consumes:
  "decodeUnicodeEscapeSequence cs = Inr (v, cs') \<Longrightarrow> length cs' + 4 = length cs"
  by (auto simp: decodeUnicodeEscapeSequence_def split: if_splits dest: unicode_digits_consumes)

lemma decodeUnicodeCodePoint_consumes:
  "decodeUnicodeCodePoint cs = Inr (v, cs') \<Longrightarrow> length cs' + 4 \<le> length cs"
  by (fastforce simp: decodeUnicodeCodePoint_def split: if_splits sum.splits
    dest: decodeUnicodeEscapeSequence_consumes)

lemma decode_chars_length: "decode_chars cs d = Inr r \<Longrightarrow> length r \<le> length d + length cs"
proof (induction cs d rule: decode_chars.induct)
  case (2 c cs d)
  have IH1: "length r \<le> length d + length xs + 1" if "c = bslash" "cs = e # xs" "simple_escape e = Some y"
      "decode_chars xs (d @ [y]) = Inr r" for e xs y
    using 2(2) [OF _ that(1,2,3)] that by simp
  have IH2: "length r \<le> length d + length xs" if "c = bslash" "cs = CHR ''u'' # xs" "simple_escape (CHR ''u'') = None"
      "decodeUnicodeCodePoint xs = Inr (v, ys)" "decode_chars ys (d @ codePointToUTF8 v) = Inr r" for xs v ys
    using 2(1) [OF _ that(1,2,3) refl that(4) refl that(5)] that codePointToUTF8_length [of v]
      decodeUnicodeCodePoint_consumes [OF that(4)] by simp
  have IH3: "length r \<le> length d + length cs + 1" if "c \<noteq> bslash" "c \<noteq> dquote" "decode_chars cs (d @ [c]) = Inr r"
    using 2(3) that by simp
  have "c = dquote \<and> r = d \<or> c \<noteq> bslash \<and> c \<noteq> dquote \<and> decode_chars cs (d @ [c]) = Inr r \<or>
    c = bslash \<and> (\<exists>e xs y. cs = e # xs \<and> simple_escape e = Some y \<and> decode_chars xs (d @ [y]) = Inr r) \<or>
    c = bslash \<and> (\<exists>xs v ys. cs = CHR ''u'' # xs \<and> simple_escape (CHR ''u'') = None \<and>
      decodeUnicodeCodePoint xs = Inr (v, ys) \<and> decode_chars ys (d @ codePointToUTF8 v) = Inr r)"
    using 2(4) by (auto simp: decode_chars.simps(2) [of c cs d] split: if_splits list.splits option.splits sum.splits)
  then show ?case using IH1 IH2 IH3 by (elim disjE conjE exE) (simp, fastforce+)
qed (simp add: decode_chars.simps)

lemma slice_length: "length (slice a b d) \<le> length d"
  by (simp add: slice_def)



section \<open>The recursive part\<close>

text \<open>
  \<open>framed s s'\<close>: a part of the parser that works on the current value took the reader from \<open>s\<close> to \<open>s'\<close>: it moved forward, and of
  the values that are not below the current one it changed at most comments, and well-formed values it left well-formed.
\<close>

definition framed :: "('f, 'a) scanner \<Rightarrow> ('f, 'a) scanner \<Rightarrow> bool" where
  "framed s s' \<longleftrightarrow> current s \<le> current s' \<and> poised s' \<and> doc s' = doc s \<and>
     features s' = features s \<and> collectComments s' = collectComments s \<and> nodes s' = nodes s \<and>
     (\<forall>q. \<not> prefix (currentPath s) q \<longrightarrow> tree (root s') q = tree (root s) q) \<and> tree (root s') (currentPath s) \<noteq> None \<and>
     (wf_value (root s) \<longrightarrow> wf_value (root s'))"

text \<open>Preconditions: the value being read exists, the container being read is one.\<close>

definition cur :: "(ValueType \<Rightarrow> bool) \<Rightarrow> ('f, 'a) scanner \<Rightarrow> bool" where
  "cur P s \<longleftrightarrow> poised s \<and> length (doc s) \<le> 2147483642 \<and> nodes s \<noteq> [] \<and>
     (\<exists>t. tree (root s) (currentPath s) = Some t \<and> P t)"

text \<open>
  The value that was read last is not inside the value about to be read (\<open>fresh\<close>), or not inside an element of the
  container being read (\<open>loose\<close>): replacing these does not leave \<open>lastValue_\<close> dangling.
\<close>

definition fresh :: "('f, 'a) scanner \<Rightarrow> bool" where
  "fresh s \<longleftrightarrow> (\<forall>q. lastValue s = Some q \<longrightarrow> \<not> strict_prefix (currentPath s) q)"

definition loose :: "('f, 'a) scanner \<Rightarrow> bool" where
  "loose s \<longleftrightarrow> (\<forall>q k. lastValue s = Some q \<longrightarrow> \<not> strict_prefix (currentPath s @ [k]) q)"

definition marked :: "('f, 'a) scanner \<Rightarrow> ('f, 'a) scanner \<Rightarrow> bool" where
  "marked s s' \<longleftrightarrow> lastValue s' = None \<or> lastValue s' = Some (currentPath s)"

lemma fresh_loose: "fresh s \<Longrightarrow> loose s"
  by (auto simp: fresh_def loose_def strict_prefix_def prefix_def)

lemma moved_path: "moved s t \<Longrightarrow> currentPath t = currentPath s"
  by (simp add: moved_def currentPath_def)

lemma fresh_moved: "fresh s \<Longrightarrow> moved s t \<Longrightarrow> fresh t"
  by (simp add: fresh_def moved_def currentPath_def)

lemma loose_moved: "loose s \<Longrightarrow> moved s t \<Longrightarrow> loose t"
  by (simp add: loose_def moved_def currentPath_def)

lemma framed_trans: "framed s t \<Longrightarrow> framed t u \<Longrightarrow> framed s u"
  by (auto simp: framed_def currentPath_def)

lemma cur_poised: "cur P s \<Longrightarrow> poised s"
  by (simp add: cur_def)

lemma cur_in_doc: "cur P s \<Longrightarrow> in_doc s"
  by (simp add: cur_def poised_def)

lemma framed_in_doc: "framed s t \<Longrightarrow> in_doc t"
  by (simp add: framed_def poised_def)

lemma framed_poised: "framed s t \<Longrightarrow> poised t"
  by (simp add: framed_def)

lemma cur_mono: "cur P s \<Longrightarrow> (\<And>t. P t \<Longrightarrow> Q t) \<Longrightarrow> cur Q s"
  by (auto simp: cur_def)

lemma cur_moved: "cur P s \<Longrightarrow> moved s t \<Longrightarrow> poised t \<Longrightarrow> cur P t"
  by (auto simp: cur_def moved_def currentPath_def)

lemma cur_framed: "cur P s \<Longrightarrow> framed s t \<Longrightarrow> cur (\<lambda>_. True) t"
  by (auto simp: cur_def framed_def currentPath_def)

lemma moved_framed: "cur P s \<Longrightarrow> moved s t \<Longrightarrow> poised t \<Longrightarrow> framed s t"
  by (auto simp: cur_def moved_def framed_def currentPath_def)

lemma framed_self: "cur P s \<Longrightarrow> framed s s"
  by (simp add: moved_framed cur_poised cur_in_doc moved_refl)

lemma framed_moved: "framed s t \<Longrightarrow> moved t u \<Longrightarrow> poised u \<Longrightarrow> framed s u"
  by (auto simp: moved_def framed_def currentPath_def)

text \<open>Replacing the current value.\<close>

lemma framed_replace:
  assumes "cur P s" "fresh s" "\<And>v. wf_value v \<Longrightarrow> wf_value (f v)"
  shows "framed s (upd_current f s)" "fresh (upd_current f s)"
    "(\<And>v. type_of (f v) = ty) \<Longrightarrow> cur (\<lambda>t. t = ty) (upd_current f s)"
proof -
  let ?p = "currentPath s" and ?r = "upd_at (currentPath s) f (root s)"
  obtain v where v: "get_at ?p (root s) = Some v" using assms(1) by (auto simp: cur_def tree_def)
  then have p: "tree ?r ?p = Some (type_of (f v))" by (simp add: tree_def get_at_upd_at)
  have "tree ?r q \<noteq> None" if "lastValue s = Some q" for q
  proof (cases "prefix ?p q")
    case True
    then have "q = ?p" using assms(2) that by (auto simp: fresh_def strict_prefix_def)
    with p show ?thesis by simp
  next
    case False
    then show ?thesis using assms(1) that by (simp add: tree_upd_at_other cur_def poised_def noted_def)
  qed
  then have r: "poised (upd_current f s)"
    using assms(1) by (auto simp: cur_def poised_def noted_def upd_current_def in_doc_def end_pos_def)
  with p assms(3) show "framed s (upd_current f s)"
    by (simp add: framed_def upd_current_def tree_upd_at_other currentPath_def wf_upd_at)
  show "fresh (upd_current f s)" using assms(2) by (simp add: fresh_def upd_current_def currentPath_def)
  show "cur (\<lambda>t. t = ty) (upd_current f s)" if "\<And>v. type_of (f v) = ty"
    using r p that assms(1) by (simp add: cur_def upd_current_def currentPath_def)
qed

text \<open>Changing its offsets or comments.\<close>

lemma framed_offsets:
  assumes "framed s0 s" "\<And>v. payload (f v) = payload v"
  shows "framed s0 (upd_current f s)"
proof -
  have "tree (upd_at (currentPath s) f (root s)) = tree (root s)"
    by (rule tree_upd_at_same) (rule tree_payload, rule assms(2))
  moreover have "wf_value (root s) \<Longrightarrow> wf_value (upd_at (currentPath s) f (root s))"
    by (rule wf_upd_at) (simp_all add: wf_iff assms(2))
  ultimately show ?thesis using assms(1) by (auto simp: framed_def upd_current_def poised_def noted_def in_doc_def end_pos_def)
qed

lemma moved_addError [simp]: "in_doc s \<Longrightarrow> moved s (addError m tk x s)"
  by (simp add: moved_def addError_def in_doc_def end_pos_def)

lemma poised_addError [simp]: "poised (addError m tk x s) = poised s"
  by (simp add: addError_def poised_def noted_def in_doc_def end_pos_def)

lemma type_of_set_payload [simp]: "type_of (set_payload p v) = payload_type p" "payload (set_payload p v) = p" "type_of (setOffsetStart a v) = type_of v"
    "type_of (setOffsetLimit b v) = type_of v" "type_of (setOffsets a b v) = type_of v"
    "payload (setOffsetStart a v) = payload v" "payload (setOffsetLimit b v) = payload v" "payload (setOffsets a b v) = payload v"
  by (simp_all add: type_of_def set_payload_def setOffsetStart_def setOffsetLimit_def setOffsets_def)

lemma wf_empty: "wf_payload (PArray [])" "wf_payload (PObject [])"
  by (simp_all add: wf_map_def)

lemma framed_store:
  assumes "cur P s" "fresh s"
  shows "wf_value v \<Longrightarrow> framed s (store_decoded tk v s)" "wf_payload p \<Longrightarrow> framed s (store_literal p tk s)"
    "wf_payload p \<Longrightarrow> framed s (start_container p tk s)" "wf_payload p \<Longrightarrow> fresh (start_container p tk s)"
    "wf_payload p \<Longrightarrow> cur (\<lambda>t. t = payload_type p) (start_container p tk s)"
  unfolding store_literal_def store_decoded_def start_container_def
  by (simp_all add: framed_replace [OF assms] wf_iff initBasic_def)

lemma start_container_simps [simp]: "doc (start_container p tk s) = doc s" "current (start_container p tk s) = current s"
  by (simp_all add: start_container_def upd_current_def)

lemma wf_number: "decodeNumber_value x = Some v \<Longrightarrow> wf_value v"
  by (auto simp: decodeNumber_value_def decode_integer_def Let_def Value_of_Int64_def Value_of_UInt64_def
    Value_of_double_def initBasic_def split: option.splits if_splits)

lemma framed_decodeNumber:
  assumes "cur P s" "fresh s"
  shows "framed s (snd (decodeNumber tk s))"
  using wf_number framed_store(1) [OF assms] moved_framed [OF assms(1) moved_addError] cur_in_doc [OF assms(1)] cur_poised [OF assms(1)]
  by (auto simp: decodeNumber_def split: option.splits)

lemma safe_decodeString:
  assumes "cur P s" "fresh s"
  shows "safe E (\<lambda>(ok, s'). framed s s') (decodeString tk s)"
proof (cases "decode_chars (string_body tk s) []")
  case (Inl e)
  then show ?thesis using moved_framed [OF assms(1) moved_addError] cur_in_doc [OF assms(1)] cur_poised [OF assms(1)]
    by (auto simp: decodeString_def decodeString_value_def split: prod.splits)
next
  case (Inr r)
  have "length r \<le> length (doc s)"
    using decode_chars_length [OF Inr] slice_length [of "t_start tk + 1" "t_end tk - 1" "doc s"]
    by (simp add: string_body_def)
  then have "Value_of_String r = Inr (initBasic (PString r))" using assms(1)
    by (simp add: Value_of_String_def duplicateAndPrefixStringValue_def json_assert_def maxInt_def cur_def)
  with Inr framed_store(1) [OF assms, of "initBasic (PString r)"] show ?thesis
    by (simp add: decodeString_def decodeString_value_def lift_def initBasic_def)
qed

lemma framed_unread:
  assumes "framed s t" "cur P t" "fresh t" "current s < current t"
  shows "framed s (unread t)"
proof -
  let ?t = "t\<lparr>current := current t - 1\<rparr>"
  have "cur P ?t" "fresh ?t" "framed s ?t"
    using assms by (auto simp: cur_def fresh_def framed_def poised_def noted_def in_doc_def end_pos_def currentPath_def)
  from framed_trans [OF this(3) framed_replace(1) [OF this(1,2)]] show ?thesis
    by (simp add: unread_def Let_def wf_iff)
qed

text \<open>Creating an element and descending to it.\<close>

definition creates :: "ValueType \<Rightarrow> czstring \<Rightarrow> (Value \<Rightarrow> Value outcome) \<Rightarrow> bool" where
  "creates ty k f \<longleftrightarrow> (\<forall>v. type_of v = ty \<longrightarrow> (\<exists>x. f v = Inr x \<and> type_of x = ty \<and> map_find k (map_of_value x) \<noteq> None \<and>
     (wf_value v \<longrightarrow> wf_value x) \<and> (\<forall>k'. map_find k' (map_of_value v) \<noteq> None \<longrightarrow> map_find k' (map_of_value x) \<noteq> None)))"

lemma coerce_same: "type_of v = t \<Longrightarrow> t \<noteq> nullValue \<Longrightarrow> coerce t v = v"
  by (simp add: coerce_def)

lemma map_find_emplace: "\<exists>y. map_find k (map_emplace k x m) = Some y"
    "map_find k' m = Some y \<Longrightarrow> \<exists>z. map_find k' (map_emplace k x m) = Some z"
  by (induction m) (auto simp: map_emplace_Cons split: if_splits)

lemma creates_member: "creates objectValue (CZString name) (resolveReference name)"
  using map_find_emplace(1) wf_resolveReference [of _ name]
  by (auto simp: creates_def resolveReference_def json_assert_def coerce_same map_of_value_with_map intro: map_find_emplace(2))

lemma creates_element: "0 \<le> i \<Longrightarrow> creates arrayValue (CZIndex (word_of_int i)) (index_ref_int i)"
  using map_find_emplace(1) wf_index_ref
  by (auto simp: creates_def index_ref_int_def index_ref_def json_assert_def coerce_same map_of_value_with_map
    intro: map_find_emplace(2))

lemma safe_child:
  assumes "cur (\<lambda>t. t = ty) s" "loose s" "creates ty k f"
  obtains w where "upd_outcome (currentPath s) f s = Ok w" "framed s w" "current w = current s" "cur (\<lambda>t. t = ty) w"
    "cur (\<lambda>_. True) (push (currentPath w @ [k]) w)" "fresh (push (currentPath w @ [k]) w)"
proof -
  let ?p = "currentPath s"
  obtain v where v: "get_at ?p (root s) = Some v" "type_of v = ty" using assms(1) by (auto simp: cur_def tree_def)
  then obtain x where x: "f v = Inr x" "type_of x = ty" "map_find k (map_of_value x) \<noteq> None" "wf_value v \<longrightarrow> wf_value x"
    "\<And>k'. map_find k' (map_of_value v) \<noteq> None \<Longrightarrow> map_find k' (map_of_value x) \<noteq> None"
    using assms(3) unfolding creates_def by blast
  let ?r = "upd_at ?p (\<lambda>_. x) (root s)"
  define w where "w = s\<lparr>root := ?r\<rparr>"
  have g: "get_at ?p ?r = Some x" using v(1) by (simp add: get_at_upd_at)
  have below: "tree ?r (?p @ [k']) \<noteq> None" if "tree (root s) (?p @ [k']) \<noteq> None" for k'
    using that v(1) g x(5) [of k'] by (auto simp: tree_append tree_Cons split: option.splits)
  have "tree ?r q \<noteq> None" if "lastValue s = Some q" for q
  proof -
    have q: "tree (root s) q \<noteq> None" using assms(1) that by (simp add: cur_def poised_def noted_def)
    have "\<not> prefix ?p q \<or> q = ?p \<or> (\<exists>k'. q = ?p @ [k'])"
    proof (cases "prefix ?p q")
      case True
      then obtain r where r: "q = ?p @ r" by (auto simp: prefix_def)
      then show ?thesis using assms(2) that by (cases r) (auto simp: loose_def strict_prefix_def prefix_def)
    qed simp
    moreover have "tree ?r ?p \<noteq> None" using g by (simp add: tree_def)
    ultimately show ?thesis using q below tree_upd_at_other [of ?p q "\<lambda>_. x" "root s"] by auto
  qed
  then have r: "poised w" using assms(1) by (auto simp: w_def cur_def poised_def noted_def in_doc_def end_pos_def)
  have c: "currentPath w = ?p" "doc w = doc s" "nodes w = nodes s" "current w = current s" "root w = ?r" "lastValue w = lastValue s"
    by (simp_all add: w_def currentPath_def)
  have "upd_outcome ?p f s = Ok w" using v(1) x(1) by (simp add: upd_outcome_def lift_def w_def)
  moreover have "wf_value (root s) \<Longrightarrow> wf_value ?r" using x(4) wf_get_at [OF _ v(1)] by (auto intro!: wf_upd_at)
  then have "framed s w" using r g tree_append [of ?r ?p "[]"] by (simp add: framed_def w_def tree_upd_at_other)
  moreover have "cur (\<lambda>t. t = ty) w" using r g x(2) assms(1) by (simp add: cur_def c tree_def)
  moreover have "cur (\<lambda>_. True) (push (currentPath w @ [k]) w)" using r g x(3) assms(1)
    by (auto simp: cur_def c push_def tree_append tree_Cons poised_def noted_def in_doc_def end_pos_def currentPath_def)
  moreover have "fresh (push (currentPath w @ [k]) w)" using assms(2)
    by (simp add: fresh_def loose_def push_def currentPath_def w_def)
  ultimately show ?thesis using that c(4) by blast
qed

lemma framed_pop:
  assumes "framed (push (currentPath s @ [k]) s) t" "cur (\<lambda>u. u = ty) s"
  shows "framed s (pop t)" "cur (\<lambda>u. u = ty) (pop t)" "marked (push (currentPath s @ [k]) s) t \<Longrightarrow> loose (pop t)"
proof -
  let ?p = "currentPath s"
  have c: "currentPath (push (?p @ [k]) s) = ?p @ [k]" "nodes (push (?p @ [k]) s) = (?p @ [k]) # nodes s"
    by (simp_all add: currentPath_def push_def)
  have "tree (root t) q = tree (root s) q" if "\<not> prefix ?p q \<or> q = ?p" for q
    using assms(1) that unfolding framed_def c by (auto simp: push_def prefix_def)
  moreover have "poised (pop t)" using framed_poised [OF assms(1)] by (simp add: pop_def poised_def noted_def in_doc_def end_pos_def)
  ultimately show "framed s (pop t)" "cur (\<lambda>u. u = ty) (pop t)"
    using assms by (auto simp: framed_def cur_def c push_def pop_def currentPath_def)
  have "currentPath (pop t) = ?p" using assms(1) by (simp add: framed_def push_def pop_def currentPath_def)
  then show "loose (pop t)" if "marked (push (?p @ [k]) s) t"
    using that by (auto simp: marked_def c loose_def pop_def strict_prefix_def prefix_def)
qed

section \<open>What is read from tokens\<close>

abbreviation rem :: "('f, 'a) scanner \<Rightarrow> nat" where "rem s \<equiv> length (doc s) - current s"

abbreviation reads :: "(abort \<Rightarrow> bool) \<Rightarrow> ('f, 'a) scanner \<Rightarrow> (bool \<times> ('f, 'a) scanner) res \<Rightarrow> bool" where
  "reads E s r \<equiv> safe E (\<lambda>(ok, s'). framed s s') r"

text \<open>A value was read: when it is in order, it is the one the next comment on the line belongs to.\<close>

abbreviation reads_one :: "(abort \<Rightarrow> bool) \<Rightarrow> ('f, 'a) scanner \<Rightarrow> (bool \<times> ('f, 'a) scanner) res \<Rightarrow> bool" where
  "reads_one E s r \<equiv> safe E (\<lambda>(ok, s'). framed s s' \<and> (ok \<longrightarrow> marked s s')) r"

lemma reads_trans: "reads E t r \<Longrightarrow> framed s t \<Longrightarrow> reads E s r"
  by (erule safe_mono) (auto intro: framed_trans)

lemma safe_take_comments:
  assumes "cur P s"
  shows "safe E (\<lambda>s'. moved s s' \<and> cur P s' \<and> current s' = current s) (take_comments s)"
proof (cases "collectComments s \<and> commentsBefore s \<noteq> []")
  case True
  obtain v where v: "get_at (currentPath s) (root s) = Some v" using assms by (auto simp: cur_def tree_def)
  obtain w where w: "setComment (commentsBefore s) commentBefore v = Inr w"
    using setComment_commented True poised_comments [OF cur_poised [OF assms]] by blast
  let ?s = "s\<lparr>root := upd_at (currentPath s) (\<lambda>_. w) (root s), commentsBefore := []\<rparr>"
  have "moved s ?s" using True cur_in_doc [OF assms] tree_comment_at [OF v w] wf_comment_at [OF _ v w] by (simp add: moved_def in_doc_def end_pos_def)
  moreover from this have "poised ?s" by (intro poised_moved [OF cur_poised [OF assms]]) (simp_all add: commented_def)
  moreover have "take_comments s = Ok ?s" using True v w by (simp add: take_comments_def upd_outcome_def lift_def)
  ultimately show ?thesis using cur_moved [OF assms] by simp
next
  case False
  then have "take_comments s = Ok s" by (auto simp: take_comments_def)
  then show ?thesis using moved_refl [OF cur_in_doc [OF assms]] assms by simp
qed

lemma framed_limit: "reads E s r \<Longrightarrow> reads E s (bind r limit_here)"
  by (erule safe_bind) (auto simp: limit_here_def intro!: framed_offsets)

lemma safe_with_result: "reads E s r \<Longrightarrow> safe E (\<lambda>(r, s'). framed s s') (bind r with_result)"
  by (erule safe_bind) (auto simp: with_result_def)

lemma safe_value_expected:
  assumes "framed s0 s"
  shows "safe E (\<lambda>(r, s'). framed s0 s') (value_expected tk s)"
proof -
  let ?u = "upd_current (setOffsets (offset s (t_start tk)) (offset s (t_end tk))) s"
  have "framed s0 ?u" using framed_offsets [OF assms] by simp
  then show ?thesis using framed_moved [OF _ moved_addError [OF framed_in_doc]] framed_poised by (fastforce simp: value_expected_def)
qed

text \<open>
  Both parsers read tokens one by one, skip comments, and recover from errors by skipping tokens. The locale states what they
  rely on (a token is read inside the document and moves the reader forward) with the equations of their loops, and shows
  what every part of the parsers built from them preserves. \<open>E\<close> tells which aborts are possible.
\<close>

definition comments_step :: "Token \<Rightarrow> bool \<Rightarrow> ('f, 'a) scanner \<Rightarrow> bool \<times> Token \<times> ('f, 'a) scanner \<Rightarrow> bool" where
  "comments_step tk ok s r = (case r of (ok', tk', s') \<Rightarrow> moved s s' \<and> poised s' \<and> (tk' = tk \<and> s' = s \<and> ok' = ok \<or>
      t_type tk = tokenComment \<and> (t_type tk' \<noteq> tokenEndOfStream \<longrightarrow> current s < current s')))"

locale token_reader =
  fixes rt :: "('f, 'a) scanner \<Rightarrow> (bool \<times> Token \<times> ('f, 'a) scanner) res"
    and sk :: "bool \<Rightarrow> Token \<Rightarrow> ('f, 'a) scanner \<Rightarrow> (bool \<times> Token \<times> ('f, 'a) scanner) res"
    and rl :: "TokenType \<Rightarrow> nat \<Rightarrow> ('f, 'a) scanner \<Rightarrow> ('f, 'a) scanner res"
    and rec :: "TokenType \<Rightarrow> ('f, 'a) scanner \<Rightarrow> (bool \<times> ('f, 'a) scanner) res"
    and aer :: "string \<Rightarrow> Token \<Rightarrow> TokenType \<Rightarrow> ('f, 'a) scanner \<Rightarrow> (bool \<times> ('f, 'a) scanner) res"
    and ct :: "('f, 'a) scanner \<Rightarrow> (Token \<times> ('f, 'a) scanner) res"
    and comments :: "('f, 'a) scanner \<Rightarrow> bool"
    and mk :: "('f, 'a) scanner \<Rightarrow> ('f, 'a) scanner"
    and E :: "abort \<Rightarrow> bool"
  assumes safe_rt: "poised s \<Longrightarrow> safe E (token_step s) (rt s)"
    and sk_eq: "sk ok tk s = (if \<not> (t_type tk = tokenComment \<and> ok) then Ok (ok, tk, s)
      else if \<not> in_doc s then Abort (Undefined ''read past end'') else bind (rt s) (\<lambda>(ok, tk, s). sk ok tk s))"
    and rl_eq: "rl u n s = (if \<not> in_doc s then Abort (Undefined ''read past end'')
      else bind (rt s) (\<lambda>(ok, skip, s). if t_type skip = u \<or> t_type skip = tokenEndOfStream then Ok s
        else rl u n (if ok then s else s\<lparr>errors := take n (errors s)\<rparr>)))"
    and rec_eq: "rec u s = (let errorCount = length (errors s) in
      bind (rl u errorCount s) (\<lambda>s. Ok (False, s\<lparr>errors := take errorCount (errors s)\<rparr>)))"
    and aer_eq: "aer m tk u s = rec u (addError m tk None s)"
    and ct_eq: "ct s = bind (rt s) (\<lambda>(ok, tk, s). if comments s then bind (sk True tk s) (\<lambda>(ok, tk, s). Ok (tk, s)) else Ok (tk, s))"
    and mk_framed: "framed s t \<Longrightarrow> framed s (mk t) \<and> marked s (mk t)"
begin

lemma safe_sk: "poised s \<Longrightarrow> safe E (comments_step tk ok s) (sk ok tk s)"
proof (induction "(if t_type tk = tokenComment then 1 else 0) + rem s" arbitrary: ok tk s rule: less_induct)
  case less
  show ?case
  proof (cases "t_type tk = tokenComment \<and> ok")
    case False
    then show ?thesis using moved_refl [OF poised_in_doc [OF less.prems]] less.prems by (simp add: sk_eq [of ok tk s] comments_step_def)
  next
    case True
    have "safe E (comments_step tk ok s) (bind (rt s) (\<lambda>(ok, tk, s). sk ok tk s))"
    proof (rule safe_bind [OF safe_rt [OF less.prems]], clarify)
      fix ok1 tk1 s1 assume "token_step s (ok1, tk1, s1)"
      then have m: "moved s s1" "poised s1" "t_type tk1 \<noteq> tokenEndOfStream \<longrightarrow> current s < current s1"
        by (auto simp: token_step_def)
      then have "(if t_type tk1 = tokenComment then 1 else 0) + rem s1 < (if t_type tk = tokenComment then 1 else 0) + rem s"
        using True by (auto simp: moved_def in_doc_def end_pos_def)
      then have "safe E (comments_step tk1 ok1 s1) (sk ok1 tk1 s1)" using less.hyps m(2) by blast
      then show "safe E (comments_step tk ok s) (sk ok1 tk1 s1)" using m True
        by (elim safe_mono) (auto simp: comments_step_def moved_def split: prod.splits)
    qed
    then show ?thesis using True poised_in_doc [OF less.prems] by (subst sk_eq) simp
  qed
qed

lemma safe_rl: "poised s \<Longrightarrow> safe E (\<lambda>s'. moved s s' \<and> poised s') (rl u n s)"
proof (induction "rem s" arbitrary: s rule: less_induct)
  case less
  have "safe E (\<lambda>s'. moved s s' \<and> poised s') (bind (rt s) (\<lambda>(ok, skip, s). if t_type skip = u \<or> t_type skip = tokenEndOfStream then Ok s
       else rl u n (if ok then s else s\<lparr>errors := take n (errors s)\<rparr>)))"
  proof (rule safe_bind [OF safe_rt [OF less.prems]], clarify)
    fix ok tk s' assume "token_step s (ok, tk, s')"
    then have r: "moved s s'" "poised s'" "t_type tk \<noteq> tokenEndOfStream \<longrightarrow> current s < current s'" by (auto simp: token_step_def)
    let ?t = "if ok then s' else s'\<lparr>errors := take n (errors s')\<rparr>"
    have m: "moved s ?t" "poised ?t"
      using r(1,2) by (auto simp: moved_def poised_def noted_def in_doc_def end_pos_def)
    have "safe E (\<lambda>s'. moved s s' \<and> poised s') (rl u n ?t)" if "\<not> (t_type tk = u \<or> t_type tk = tokenEndOfStream)"
    proof -
      have "rem ?t < rem s" using r that by (auto simp: moved_def in_doc_def end_pos_def)
      then have "safe E (\<lambda>s'. moved ?t s' \<and> poised s') (rl u n ?t)" using less.hyps m(2) by blast
      then show ?thesis by (rule safe_mono) (use moved_trans [OF m(1)] in blast)
    qed
    with r show "safe E (\<lambda>s'. moved s s' \<and> poised s') (if t_type tk = u \<or> t_type tk = tokenEndOfStream then Ok s' else rl u n ?t)"
      by simp
  qed
  then show ?case using poised_in_doc [OF less.prems] by (simp add: rl_eq [of u n s])
qed

lemma safe_rec: "poised s \<Longrightarrow> safe E (\<lambda>(ok, s'). \<not> ok \<and> moved s s' \<and> poised s') (rec u s)"
  unfolding rec_eq Let_def
  by (rule safe_bind [OF safe_rl]) (auto simp: moved_def poised_def noted_def in_doc_def end_pos_def)

lemma safe_ct:
  assumes "poised s"
  shows "safe E (\<lambda>(tk, s'). moved s s' \<and> poised s' \<and> (t_type tk \<noteq> tokenEndOfStream \<longrightarrow> current s < current s')) (ct s)"
  unfolding ct_eq
proof (rule safe_bind [OF safe_rt [OF assms]], clarify)
  fix ok tk t assume "token_step s (ok, tk, t)"
  then have m: "moved s t" "poised t" "t_type tk \<noteq> tokenEndOfStream \<longrightarrow> current s < current t" by (auto simp: token_step_def)
  have "safe E (\<lambda>(tk, s'). moved s s' \<and> poised s' \<and> (t_type tk \<noteq> tokenEndOfStream \<longrightarrow> current s < current s'))
      (bind (sk True tk t) (\<lambda>(ok, tk, s). Ok (tk, s)))"
    by (rule safe_bind [OF safe_sk [OF m(2)]]) (use m in \<open>auto simp: comments_step_def moved_def\<close>)
  with m show "safe E (\<lambda>(tk, s'). moved s s' \<and> poised s' \<and> (t_type tk \<noteq> tokenEndOfStream \<longrightarrow> current s < current s'))
      (if comments t then bind (sk True tk t) (\<lambda>(ok, tk, s). Ok (tk, s)) else Ok (tk, t))"
    by simp
qed

lemma reads_rec: "cur P s \<Longrightarrow> reads E s (rec u s)"
  by (rule safe_mono [OF safe_rec]) (auto simp: cur_poised moved_framed)

lemma reads_error:
  assumes "cur P s"
  shows "reads E s (rec u (addError m tk x s))"
proof -
  have m: "moved s (addError m tk x s)" "poised (addError m tk x s)" using cur_in_doc [OF assms] cur_poised [OF assms] by simp_all
  from reads_trans [OF reads_rec [OF cur_moved [OF assms m]] moved_framed [OF assms m]] show ?thesis .
qed

lemma reads_aer: "cur P s \<Longrightarrow> reads E s (aer m tk u s)"
  using reads_error by (simp add: aer_eq)

text \<open>The pattern \<open>readToken\<close>, skip comments, go on with the token found.\<close>

lemma reads_token:
  assumes "cur P s"
    and "\<And>ok tk t. moved s t \<Longrightarrow> t_type tk \<noteq> tokenEndOfStream \<longrightarrow> current s < current t \<Longrightarrow> cur P t \<Longrightarrow> reads E t (g ok tk t)"
  shows "reads E s (bind (rt s) (\<lambda>(ok, tk, s). g ok tk s))"
proof (rule safe_bind [OF safe_rt [OF cur_poised [OF assms(1)]]], clarify)
  fix ok tk u assume "token_step s (ok, tk, u)"
  then have u: "moved s u" "poised u" "t_type tk \<noteq> tokenEndOfStream \<longrightarrow> current s < current u" by (auto simp: token_step_def)
  from reads_trans [OF assms(2) [OF u(1,3) cur_moved [OF assms(1) u(1,2)]] moved_framed [OF assms(1) u(1,2)]]
  show "reads E s (g ok tk u)" .
qed

lemma reads_comments:
  assumes "cur P s"
    and "\<And>ok' tk' t. moved s t \<Longrightarrow> tk' = tk \<and> t = s \<and> ok' = ok \<or> t_type tk = tokenComment \<and> (t_type tk' \<noteq> tokenEndOfStream \<longrightarrow> current s < current t) \<Longrightarrow>
       cur P t \<Longrightarrow> reads E t (g ok' tk' t)"
  shows "reads E s (bind (sk ok tk s) (\<lambda>(ok, tk, s). g ok tk s))"
proof (rule safe_bind [OF safe_sk [OF cur_poised [OF assms(1)]]], clarify)
  fix ok2 tk2 w assume b: "comments_step tk ok s (ok2, tk2, w)"
  then have w: "moved s w" "poised w" by (auto simp: comments_step_def)
  from reads_trans [OF assms(2) [OF w(1) _ cur_moved [OF assms(1) w]] moved_framed [OF assms(1) w]] b
  show "reads E s (g ok2 tk2 w)" by (simp add: comments_step_def)
qed

lemma reads_token_comments:
  assumes "cur P s"
    and "\<And>ok tk t. moved s t \<Longrightarrow> t_type tk \<noteq> tokenEndOfStream \<longrightarrow> current s < current t \<Longrightarrow> cur P t \<Longrightarrow> reads E t (g ok tk t)"
  shows "reads E s (bind (rt s) (\<lambda>(ok, tk, s). bind (sk ok tk s) (\<lambda>(ok, tk, s). g ok tk s)))"
proof (rule reads_token [OF assms(1)])
  fix ok1 and tk1 :: Token and t
  assume t: "moved s t" "t_type tk1 \<noteq> tokenEndOfStream \<longrightarrow> current s < current t" "cur P t"
  show "reads E t (bind (sk ok1 tk1 t) (\<lambda>(ok, tk, s). g ok tk s))"
  proof (rule reads_comments [OF t(3)])
    fix ok' and tk' :: Token and u
    assume u: "moved t u" "tk' = tk1 \<and> u = t \<and> ok' = ok1 \<or> t_type tk1 = tokenComment \<and> (t_type tk' \<noteq> tokenEndOfStream \<longrightarrow> current t < current u)"
      "cur P u"
    have "t_type tk' \<noteq> tokenEndOfStream \<longrightarrow> current s < current u" using u(1,2) t(1,2) by (auto simp: moved_def)
    then show "reads E u (g ok' tk' u)" using assms(2) [OF moved_trans [OF t(1) u(1)] _ u(3)] by blast
  qed
qed

lemma reads_child:
  assumes "cur (\<lambda>t. t = ty) s" "loose s" "creates ty k create"
    and rv: "\<And>p. cur (\<lambda>_. True) p \<Longrightarrow> fresh p \<Longrightarrow> rem p = rem s \<Longrightarrow> reads_one E p (rv p)"
    and after: "\<And>t. framed s t \<Longrightarrow> cur (\<lambda>t. t = ty) t \<Longrightarrow> loose t \<Longrightarrow> reads E t (after t)"
  shows "reads E s (bind (upd_outcome (currentPath s) create s) (\<lambda>s.
    bind (rv (push (currentPath s @ [k]) s)) (\<lambda>(ok, s). if \<not> ok then rec u (pop s) else after (pop s))))"
proof -
  obtain w where w: "upd_outcome (currentPath s) create s = Ok w" "framed s w" "current w = current s" "cur (\<lambda>t. t = ty) w"
    "cur (\<lambda>_. True) (push (currentPath w @ [k]) w)" "fresh (push (currentPath w @ [k]) w)"
    using safe_child [OF assms(1-3)] .
  let ?p = "push (currentPath w @ [k]) w"
  have "rem ?p = rem s" using w(2,3) by (simp add: framed_def push_def)
  have "reads E s (bind (rv ?p) (\<lambda>(ok, s). if \<not> ok then rec u (pop s) else after (pop s)))"
  proof (rule safe_bind [OF rv [OF w(5,6) \<open>rem ?p = rem s\<close>]], clarify)
    fix ok t assume a: "framed ?p t" "ok \<longrightarrow> marked ?p t"
    have t: "framed s (pop t)" "cur (\<lambda>t. t = ty) (pop t)" "ok \<Longrightarrow> loose (pop t)"
      using framed_trans [OF w(2) framed_pop(1) [OF a(1) w(4)]] framed_pop(2,3) [OF a(1) w(4)] a(2) by auto
    show "reads E s (if \<not> ok then rec u (pop t) else after (pop t))"
      using reads_trans [OF reads_rec [OF t(2)] t(1)] reads_trans [OF after [OF t] t(1)] by simp
  qed
  then show ?thesis by (simp add: w(1))
qed

lemma reads_separator:
  assumes "cur P s"
    and "\<And>t. moved s t \<Longrightarrow> current s < current t \<Longrightarrow> cur P t \<Longrightarrow> reads E t (next t)"
  shows "reads E s (bind (rt s) (\<lambda>(ok, currentToken, s). bind (sk ok currentToken s) (\<lambda>(ok, currentToken, s).
    if \<not> ok \<or> t_type currentToken \<noteq> tokenArraySeparator \<and> t_type currentToken \<noteq> tokenArrayEnd then aer m currentToken tokenArrayEnd s
    else if t_type currentToken = tokenArrayEnd then Ok (True, s) else next s)))"
  by (rule reads_token_comments [OF assms(1)])
    (use assms(2) reads_aer framed_self in auto)

lemma reads_comma:
  assumes "cur P s"
    and "\<And>t. moved s t \<Longrightarrow> cur P t \<Longrightarrow> reads E t (next t)"
  shows "reads E s (bind (rt s) (\<lambda>(ok, comma, s).
    if \<not> ok \<or> t_type comma \<noteq> tokenObjectEnd \<and> t_type comma \<noteq> tokenArraySeparator \<and> t_type comma \<noteq> tokenComment then aer m comma tokenObjectEnd s
    else bind (sk True comma s) (\<lambda>(_, comma, s). if t_type comma = tokenObjectEnd then Ok (True, s) else next s)))"
proof (rule reads_token [OF assms(1)])
  fix ok and comma :: Token and t assume t: "moved s t" "cur P t"
  have "reads E t (bind (sk True comma t) (\<lambda>(ok, comma, s). if t_type comma = tokenObjectEnd then Ok (True, s) else next s))"
    by (rule reads_comments [OF t(2)]) (use assms(2) moved_trans [OF t(1)] framed_self in auto)
  then show "reads E t (if \<not> ok \<or> t_type comma \<noteq> tokenObjectEnd \<and> t_type comma \<noteq> tokenArraySeparator \<and> t_type comma \<noteq> tokenComment
      then aer m comma tokenObjectEnd t
      else bind (sk True comma t) (\<lambda>(_, comma, s). if t_type comma = tokenObjectEnd then Ok (True, s) else next s))"
    using reads_aer [OF t(2)] by simp
qed

lemma reads_value:
  assumes "cur (\<lambda>_. True) s" "fresh s"
    and sw: "\<And>tk u. framed s u \<Longrightarrow> cur (\<lambda>_. True) u \<Longrightarrow> fresh u \<Longrightarrow> t_type tk \<noteq> tokenEndOfStream \<longrightarrow> current s < current u \<Longrightarrow>
      safe E (\<lambda>(r, s'). framed s s') (sw tk u)"
  shows "reads_one E s (bind (ct s) (\<lambda>(token, s). bind (take_comments s) (\<lambda>s. bind (sw token s) (\<lambda>(r, s).
    case r of None \<Rightarrow> Ok (False, s) | Some successful \<Rightarrow> Ok (successful, mk s)))))"
proof (rule safe_bind [OF safe_ct [OF cur_poised [OF assms(1)]]], clarify)
  fix tk :: Token and t assume t: "moved s t" "poised t" "t_type tk \<noteq> tokenEndOfStream \<longrightarrow> current s < current t"
  show "reads_one E s (bind (take_comments t) (\<lambda>s. bind (sw tk s) (\<lambda>(r, s).
      case r of None \<Rightarrow> Ok (False, s) | Some successful \<Rightarrow> Ok (successful, mk s))))"
  proof (rule safe_bind [OF safe_take_comments [OF cur_moved [OF assms(1) t(1,2)]]])
    fix u assume u: "moved t u \<and> cur (\<lambda>_. True) u \<and> current u = current t"
    then have m: "moved s u" using moved_trans [OF t(1)] by blast
    have "framed s u" using moved_framed [OF assms(1) m] u cur_poised by blast
    from sw [OF this _ fresh_moved [OF assms(2) m]] t(3) u
    show "reads_one E s (bind (sw tk u) (\<lambda>(r, s). case r of None \<Rightarrow> Ok (False, s) | Some successful \<Rightarrow> Ok (successful, mk s)))"
      by (intro safe_bind [where P = "\<lambda>(r, s'). framed s s'"]) (auto simp: mk_framed split: option.splits)
  qed
qed

lemma safe_closing:
  assumes "poised t"
  shows "safe E (\<lambda>(ok, s'). current s' \<le> length (doc t) \<and> doc s' = doc t \<and> features s' = features t \<and>
      (wf_value (root t) \<longrightarrow> wf_value (root s')))
    (bind (ct t) (\<lambda>(token, s). if extra token s then Ok (False, addError m token None s)
      else bind (if collectComments s \<and> commentsBefore s \<noteq> []
          then upd_outcome [] (setComment (commentsBefore s) commentAfter) s else Ok s) (\<lambda>s.
        if strict s then Ok (False, addError m' tk' None s) else Ok (ok, s))))"
    (is "safe _ ?fin (bind _ (\<lambda>(token, s). if _ then _ else bind (?comment s) (?rest :: ('f, 'a) scanner \<Rightarrow> _)))")
proof (rule safe_bind [OF safe_ct [OF assms]], clarify)
  fix tk u assume u: "moved t u" "poised u"
  then have u': "current u \<le> length (doc t)" "doc u = doc t" "features u = features t" "wf_value (root t) \<longrightarrow> wf_value (root u)"
    by (auto simp: moved_def in_doc_def end_pos_def)
  have "\<exists>v. ?comment u = Ok (u\<lparr>root := v\<rparr>) \<and> (wf_value (root u) \<longrightarrow> wf_value v)"
  proof (cases "collectComments u \<and> commentsBefore u \<noteq> []")
    case True
    then obtain w where w: "setComment (commentsBefore u) commentAfter (root u) = Inr w"
      using setComment_commented [OF poised_comments [OF u(2)]] by blast
    with True wf_comment_at [of "root u" "[]", OF _ _ w] show ?thesis by (auto simp: upd_outcome_def lift_def)
  next
    case False
    then have "?comment u = Ok u" by (rule if_not_P)
    then show ?thesis by (intro exI [of _ "root u"]) simp
  qed
  then obtain v where "?comment u = Ok (u\<lparr>root := v\<rparr>)" "wf_value (root u) \<longrightarrow> wf_value v" by blast
  then show "safe E ?fin (if extra tk u then Ok (False, addError m tk None u) else bind (?comment u) ?rest)"
    using u' by (simp add: addError_def)
qed

end

section \<open>The mutual recursion\<close>

definition reader_aborts :: "abort \<Rightarrow> bool" where
  "reader_aborts e \<longleftrightarrow> e = stack_exceeded"

lemma framed_mark:
  assumes "framed s t" "lastValue u = (if collectComments t then Some (currentPath t) else lastValue t)"
    "root u = root t" "doc u = doc t" "current u = current t" "features u = features t" "collectComments u = collectComments t"
    "nodes u = nodes t" "commentsBefore u = commentsBefore t"
    "lastValueEnd u = (if collectComments t then Some (current t) else lastValueEnd t)"
  shows "framed s u \<and> marked s u"
proof -
  have "currentPath t = currentPath s" using assms(1) by (simp add: framed_def currentPath_def)
  then show ?thesis using assms by (auto simp: framed_def marked_def poised_def noted_def in_doc_def end_pos_def)
qed

interpretation reader: token_reader readToken skip_comments recover_loop recoverFromError addErrorAndRecover skipCommentTokens
  "\<lambda>s. allowComments (features s)" mark_value reader_aborts
proof
  fix s t :: Reader and ok :: bool and tk :: Token and u :: TokenType and n :: nat
  show "skip_comments ok tk s = (if \<not> (t_type tk = tokenComment \<and> ok) then Ok (ok, tk, s)
      else if \<not> in_doc s then Abort (Undefined ''read past end'') else bind (readToken s) (\<lambda>(ok, tk, s). skip_comments ok tk s))"
    by (rule skip_comments.simps)
  show "recover_loop u n s = (if \<not> in_doc s then Abort (Undefined ''read past end'')
      else bind (readToken s) (\<lambda>(ok, skip, s). if t_type skip = u \<or> t_type skip = tokenEndOfStream then Ok s
        else recover_loop u n (if ok then s else s\<lparr>errors := take n (errors s)\<rparr>)))"
    by (rule recover_loop.simps)
  show "framed s t \<Longrightarrow> framed s (mark_value t) \<and> marked s (mark_value t)"
    by (erule framed_mark) (simp_all add: mark_value_def)
qed (simp_all add: safe_readToken recoverFromError_def addErrorAndRecover_def skipCommentTokens_def)

definition value_safe :: "nat \<Rightarrow> bool" where
  "value_safe n \<longleftrightarrow> (\<forall>s. cur (\<lambda>_. True) s \<longrightarrow> fresh s \<longrightarrow> 2 * rem s + 1 \<le> n \<longrightarrow> reads_one reader_aborts s (readValue n s))"

definition object_safe :: "nat \<Rightarrow> bool" where
  "object_safe n \<longleftrightarrow> (\<forall>s name. cur (\<lambda>t. t = objectValue) s \<longrightarrow> loose s \<longrightarrow> 2 * rem s + 2 \<le> n \<longrightarrow>
     reads reader_aborts s (readObject_loop n name s))"

definition array_safe :: "nat \<Rightarrow> bool" where
  "array_safe n \<longleftrightarrow> (\<forall>s i. cur (\<lambda>t. t = arrayValue) s \<longrightarrow> loose s \<longrightarrow> 0 \<le> i \<longrightarrow> 2 * rem s + 2 \<le> n \<longrightarrow>
     reads reader_aborts s (readArray_loop n i s))"

lemma reads_readObject:
  assumes "object_safe n" "cur P s" "fresh s" "2 * rem s + 2 \<le> n"
  shows "reads reader_aborts s (readObject n tk s)"
proof -
  note t = framed_store(3-5) [OF assms(2,3), of "PObject []" tk, OF wf_empty(2)]
  have "reads reader_aborts (start_container (PObject []) tk s) (readObject n tk s)"
    using assms(1,4) t(3) fresh_loose [OF t(2)] by (simp add: object_safe_def)
  then show ?thesis using t(1) by (rule reads_trans)
qed

lemma reads_readArray:
  assumes "array_safe n" "cur P s" "fresh s" "2 * rem s + 2 \<le> n"
  shows "reads reader_aborts s (readArray n tk s)"
proof -
  let ?u = "start_container (PArray []) tk s"
  let ?t = "skipSpaces ?u"
  note u = framed_store(3-5) [OF assms(2,3), of "PArray []" tk, OF wf_empty(1)]
  have m: "moved ?u ?t" using u(3) by (simp add: cur_in_doc moved_skipSpaces)
  have r: "poised ?t" using poised_moved [OF cur_poised [OF u(3)] m] u(3) by (simp add: poised_comments cur_poised)
  have t: "cur (\<lambda>t. t = arrayValue) ?t" "loose ?t" using cur_moved [OF _ m r] u(3) loose_moved [OF fresh_loose [OF u(2)] m] by simp_all
  have "reads reader_aborts ?t (readArray_loop n 0 ?t)"
    using assms(1,4) t m by (auto simp: array_safe_def moved_def)
  moreover have "reads reader_aborts ?t (bind (readToken ?t) (\<lambda>(ok, endArray, s). Ok (True, s)))"
    by (rule reader.reads_token [OF t(1)]) (auto intro: framed_self)
  ultimately show ?thesis using reads_trans [OF _ framed_moved [OF u(1) m r]] by (simp add: Let_def)
qed

lemma safe_value_switch:
  assumes "cur P s" "fresh s" "framed s0 s" "t_type tk \<noteq> tokenEndOfStream \<longrightarrow> current s0 < current s"
    and "t_type tk = tokenObjectBegin \<Longrightarrow> reads E s (ro tk s)" "t_type tk = tokenArrayBegin \<Longrightarrow> reads E s (ra tk s)"
  shows "safe E (\<lambda>(r, s'). framed s0 s') (value_switch ro ra tk s)"
proof -
  have tr: "safe E (\<lambda>(r, s'). framed s s') r \<Longrightarrow> safe E (\<lambda>(r, s'). framed s0 s') r" for r
    by (erule safe_mono) (auto intro: framed_trans [OF assms(3)])
  have u: "t_type tk \<noteq> tokenEndOfStream \<Longrightarrow> framed s0 (unread s)"
    using framed_unread [OF assms(3,1,2)] assms(4) by simp
  have n: "safe E (\<lambda>(r, s'). framed s0 s') (with_result (decodeNumber tk s))"
    using framed_trans [OF assms(3) framed_decodeNumber [OF assms(1,2)]] by (simp add: with_result_def)
  have l: "wf_payload p \<Longrightarrow> framed s0 (store_literal p tk s)" for p using framed_trans [OF assms(3) framed_store(2) [OF assms(1,2)]] .
  show ?thesis
    using assms(5,6) safe_value_expected [OF assms(3)] u n l
    by (cases "t_type tk")
      (auto simp: value_switch_def with_result_def [of "(_, _)"] intro!: tr safe_with_result framed_limit safe_decodeString [OF assms(1,2)])
qed

lemma value_step:
  assumes "object_safe n" "array_safe n"
  shows "value_safe (Suc n)"
  unfolding value_safe_def
proof (intro allI impI)
  fix s :: Reader assume s: "cur (\<lambda>_. True) s" "fresh s" "2 * rem s + 1 \<le> Suc n"
  have "reads_one reader_aborts s (bind (skipCommentTokens s) (\<lambda>(token, s). bind (take_comments s) (\<lambda>s.
     bind (value_switch (readObject n) (readArray n) token s) (\<lambda>(r, s).
       case r of None \<Rightarrow> Ok (False, s) | Some successful \<Rightarrow> Ok (successful, mark_value s)))))"
  proof (rule reader.reads_value [OF s(1,2)])
    fix tk :: Token and u
    assume u: "framed s u" "cur (\<lambda>_. True) u" "fresh u" "t_type tk \<noteq> tokenEndOfStream \<longrightarrow> current s < current u"
    have r: "2 * rem u + 2 \<le> n" if "t_type tk \<noteq> tokenEndOfStream"
      using that u(1,4) s(3) framed_in_doc [OF u(1)] by (auto simp: framed_def in_doc_def end_pos_def)
    show "safe reader_aborts (\<lambda>(r, s'). framed s s') (value_switch (readObject n) (readArray n) tk u)"
      by (rule safe_value_switch [OF u(2,3,1,4)])
        (use reads_readObject [OF assms(1) u(2,3)] reads_readArray [OF assms(2) u(2,3)] r in auto)
  qed
  then show "reads_one reader_aborts s (readValue (Suc n) s)"
    by (simp add: value_body_def stack_exceeded_def [symmetric] reader_aborts_def)
qed

lemma reads_child_body:
  assumes "value_safe n" "cur (\<lambda>t. t = ty) s" "loose s" "2 * rem s + 1 \<le> n" "creates ty k create"
    and after: "\<And>t. framed s t \<Longrightarrow> cur (\<lambda>t. t = ty) t \<Longrightarrow> loose t \<Longrightarrow> reads reader_aborts t (after t)"
  shows "reads reader_aborts s (child_body create k u (readValue n) after s)"
  unfolding child_body_def
  by (rule reader.reads_child [OF assms(2,3,5) _ after]) (use assms(1,4) in \<open>auto simp: value_safe_def\<close>)

lemma array_step:
  assumes "value_safe n" "array_safe n"
  shows "array_safe (Suc n)"
  unfolding array_safe_def
proof (intro allI impI)
  fix s :: Reader and i :: int
  assume s: "cur (\<lambda>t. t = arrayValue) s" "loose s" "0 \<le> i" "2 * rem s + 2 \<le> Suc n"
  have "reads reader_aborts s (array_body (readValue n) (readArray_loop n) i s)"
    unfolding array_body_def
  proof (rule reads_child_body [OF assms(1) s(1,2) _ creates_element [OF s(3)]])
    show "2 * rem s + 1 \<le> n" using s(4) by simp
    fix t :: Reader assume t: "framed s t" "cur (\<lambda>t. t = arrayValue) t" "loose t"
    show "reads reader_aborts t (separator_body (readArray_loop n) i t)"
      unfolding separator_body_def
    proof (rule reader.reads_separator [OF t(2)])
      fix u :: Reader assume u: "moved t u" "current t < current u" "cur (\<lambda>t. t = arrayValue) u"
      have "2 * rem u + 2 \<le> n" using s(4) t(1) u(1,2) by (auto simp: framed_def moved_def in_doc_def end_pos_def)
      then show "reads reader_aborts u (readArray_loop n (i + 1) u)"
        using assms(2) u(3) loose_moved [OF t(3) u(1)] s(3) by (simp add: array_safe_def)
    qed
  qed
  then show "reads reader_aborts s (readArray_loop (Suc n) i s)" by simp
qed

lemma reads_member_body:
  assumes "value_safe n" "object_safe n" "cur (\<lambda>t. t = objectValue) s" "loose s" "2 * rem s + 1 \<le> n"
  shows "reads reader_aborts s (member_body (readValue n) (readObject_loop n) name s)"
  unfolding member_body_def
proof (rule reader.reads_token [OF assms(3)])
  fix ok and colon :: Token and u :: Reader
  assume u: "moved s u" "t_type colon \<noteq> tokenEndOfStream \<longrightarrow> current s < current u" "cur (\<lambda>t. t = objectValue) u"
  have "reads reader_aborts u (child_body (resolveReference name) (CZString name) tokenObjectEnd (readValue n)
      (comma_body (readObject_loop n) name) u)" if colon: "t_type colon = tokenMemberSeparator"
  proof (rule reads_child_body [OF assms(1) u(3) loose_moved [OF assms(4) u(1)] _ creates_member])
    show "2 * rem u + 1 \<le> n" using assms(5) u(1) by (auto simp: moved_def)
    fix t :: Reader assume t: "framed u t" "cur (\<lambda>t. t = objectValue) t" "loose t"
    have r: "2 * rem t + 2 \<le> n"
      using t(1) u colon assms(5) framed_in_doc [OF t(1)] by (auto simp: framed_def moved_def in_doc_def end_pos_def)
    show "reads reader_aborts t (comma_body (readObject_loop n) name t)"
      unfolding comma_body_def
    proof (rule reader.reads_comma [OF t(2)])
      fix x :: Reader assume x: "moved t x" "cur (\<lambda>t. t = objectValue) x"
      have "2 * rem x + 2 \<le> n" using r(1) x(1) by (auto simp: moved_def)
      then show "reads reader_aborts x (readObject_loop n name x)"
        using assms(2) x(2) loose_moved [OF t(3) x(1)] by (simp add: object_safe_def)
    qed
  qed
  then show "reads reader_aborts u (if \<not> ok \<or> t_type colon \<noteq> tokenMemberSeparator then
      addErrorAndRecover (''Missing '' @ quoted '':'' @ '' after object member name'') colon tokenObjectEnd u
    else child_body (resolveReference name) (CZString name) tokenObjectEnd (readValue n)
      (comma_body (readObject_loop n) name) u)"
    using reader.reads_aer [OF u(3)] by simp
qed

lemma asString_number: "decodeNumber_value text = Some v \<Longrightarrow> \<exists>t. asString v = Inr t"
  by (auto simp: decodeNumber_value_def decode_integer_def Let_def Value_of_Int64_def Value_of_UInt64_def
    Value_of_double_def initBasic_def asString_def split: option.splits if_splits)

lemma object_step:
  assumes "value_safe n" "object_safe n"
  shows "object_safe (Suc n)"
  unfolding object_safe_def
proof (intro allI impI)
  fix s :: Reader and name :: string
  assume s: "cur (\<lambda>t. t = objectValue) s" "loose s" "2 * rem s + 2 \<le> Suc n"
  have "reads reader_aborts s (object_body (readValue n) (readObject_loop n) name s)"
    unfolding object_body_def
  proof (rule reader.reads_token_comments [OF s(1)])
    fix ok :: bool and tk :: Token and w :: Reader
    assume w: "moved s w" "cur (\<lambda>t. t = objectValue) w"
    have m: "reads reader_aborts w (member_body (readValue n) (readObject_loop n) nm w)" for nm
      by (rule reads_member_body [OF assms w(2) loose_moved [OF s(2) w(1)]]) (use s(3) w(1) in \<open>auto simp: moved_def\<close>)
    show "reads reader_aborts w (name_body (readValue n) (readObject_loop n) name ok tk w)"
      using m reader.reads_error [OF w(2)] reader.reads_aer [OF w(2)] framed_self [OF w(2)]
      by (auto simp: name_body_def decodeString_value_def lift_def split: sum.splits option.splits prod.splits
        dest: asString_number)
  qed
  then show "reads reader_aborts s (readObject_loop (Suc n) name s)" by simp
qed

lemma all_safe: "value_safe n \<and> object_safe n \<and> array_safe n"
proof (induction n)
  case 0
  show ?case by (simp add: value_safe_def object_safe_def array_safe_def)
next
  case (Suc n)
  then show ?case using value_step object_step array_step by blast
qed

section \<open>The whole parser\<close>

lemma init_reads:
  assumes "length d \<le> 2147483642"
  shows "reads_one reader_aborts (init_parse d v collect s) (readValue (parse_fuel d) (init_parse d v collect s))"
proof -
  let ?i = "init_parse d v collect s"
  have "cur (\<lambda>_. True) ?i" "fresh ?i" "2 * rem ?i + 1 \<le> parse_fuel d"
    using assms by (simp_all add: cur_def fresh_def poised_def noted_def commented_def init_parse_def in_doc_def end_pos_def
      currentPath_def parse_fuel_def)
  then show ?thesis using all_safe [of "parse_fuel d"] by (simp add: value_safe_def)
qed

lemma safe_parse:
  assumes "length d \<le> 2147483642"
  shows "safe reader_aborts (\<lambda>(ok, s'). current s' \<le> length d \<and> doc s' = d \<and> features s' = features s \<and>
    (wf_value v \<longrightarrow> wf_value (root s'))) (parse d v collect s)"
proof -
  let ?i = "init_parse d v collect s"
  have i: "doc ?i = d" "features ?i = features s" "root ?i = v" by (simp_all add: init_parse_def)
  from init_reads [OF assms] show ?thesis unfolding parse_def parse_loop_def
  proof (rule safe_bind, clarify)
    fix ok t assume t: "framed ?i t"
    then have t': "poised t" "doc t = d" "features t = features s" "wf_value v \<longrightarrow> wf_value (root t)"
      using i by (simp_all add: framed_def)
    show "safe reader_aborts (\<lambda>(ok, s'). current s' \<le> length d \<and> doc s' = d \<and> features s' = features s \<and>
        (wf_value v \<longrightarrow> wf_value (root s')))
      (bind (skipCommentTokens t) (\<lambda>(token, s).
       bind (if collectComments s \<and> commentsBefore s \<noteq> []
          then upd_outcome [] (setComment (commentsBefore s) commentAfter) s else Ok s) (\<lambda>s.
       if strictRoot (features s) \<and> \<not> isArray (root s) \<and> \<not> isObject (root s) then
         Ok (False, addError ''A valid JSON document must be either an array or an object value.''
           \<lparr>t_type = tokenError, t_start = 0, t_end = length d\<rparr> None s)
       else Ok (ok, s))))"
      by (rule safe_mono [OF reader.safe_closing [OF t'(1), of "\<lambda>_ _. False", unfolded if_False]]) (use t' in auto)
  qed
qed

text \<open>
  C2. \<open>Reader::parse\<close> terminates on every document of at most \<open>2^31 - 6\<close> characters (the fuel
  \<open>2 * length + 2\<close> is always enough) and never reads past its end: it returns with the cursor inside the
  document, or is ended by the nesting limit. In particular the comments it collects never go through a null or dangling
  \<open>lastValue_\<close> and never fail an assertion.
\<close>

theorem parse_terminates_inside_document:
  assumes "length d \<le> 2147483642"
  shows "case parse d v collect s of
      OutOfFuel \<Rightarrow> False
    | Abort e \<Rightarrow> e = RuntimeError ''Exceeded stackLimit in readValue().''
    | Ok (ok, s') \<Rightarrow> current s' \<le> length d \<and> doc s' = d"
  using safe_parse [OF assms, of s v collect]
  by (auto simp: safe_def reader_aborts_def stack_exceeded_def split: res.splits)

theorem parse_terminates_inside_document_witness:
  "case parse ''[1 // one'' nullSingleton True (new_reader Features_all) of
      OutOfFuel \<Rightarrow> False
    | Abort e \<Rightarrow> e = RuntimeError ''Exceeded stackLimit in readValue().''
    | Ok (ok, s') \<Rightarrow> current s' \<le> 9 \<and> doc s' = ''[1 // one''"
proof -
  have "length ''[1 // one'' = 9" by simp
  with parse_terminates_inside_document [where d = "''[1 // one''" and v = nullSingleton and collect = True and s = "new_reader Features_all"]
  show ?thesis by (auto split: res.splits)
qed

end
