(* ===== verification/Json_Writer.thy ===== *)
theory Json_Writer
  imports Json_Value
begin

text \<open>
  \<open>Json::FastWriter\<close> (\<open>src/components/jsoncpp/json_writer.cpp\<close>, \<open>writer.h\<close>), the writer the
  Firebase client serialises values with. The text a call appends to \<open>document_\<close> is its result.
\<close>

record FastWriter =
  yamlCompatibilityEnabled :: bool
  dropNullPlaceholders :: bool
  omitEndingLineFeed :: bool

definition FastWriter_default :: FastWriter where
  "FastWriter_default =
     \<lparr>yamlCompatibilityEnabled = False, dropNullPlaceholders = False, omitEndingLineFeed = False\<rparr>"

definition write_null :: "FastWriter \<Rightarrow> string" where
  "write_null w = (if \<not> dropNullPlaceholders w then ''null'' else [])"

text \<open>The sizes that make the recursion through \<open>value[index]\<close> and \<open>value[name]\<close> end.\<close>

abbreviation map_size :: "ObjectValues \<Rightarrow> nat" where
  "map_size \<equiv> size_list (size_prod (\<lambda>_. 0) size)"

lemma map_find_size: "map_find k m = Some x \<Longrightarrow> size x < map_size m"
  by (induction m) (auto split: if_splits)

function writeValue :: "FastWriter \<Rightarrow> Value \<Rightarrow> string"
  and write_elements :: "FastWriter \<Rightarrow> ObjectValues \<Rightarrow> u32 list \<Rightarrow> string"
  and write_members :: "FastWriter \<Rightarrow> ObjectValues \<Rightarrow> bool \<Rightarrow> string list \<Rightarrow> string" where
  "writeValue w (Value p c a b) = (case p of
     PNull \<Rightarrow> write_null w
   | PInt i \<Rightarrow> valueToString_LargestInt i
   | PUInt u \<Rightarrow> valueToString_LargestUInt u
   | PReal d \<Rightarrow> valueToString_double d False defaultRealPrecision significantDigits
   | PString s \<Rightarrow> valueToQuotedStringN s False
   | PBool b \<Rightarrow> valueToString_bool b
   | PArray m \<Rightarrow> ''['' @ write_elements w m (index_range 0 (value_size (Value p c a b))) @ '']''
   | PObject m \<Rightarrow> ''{'' @ write_members w m True (map (cz_name \<circ> fst) m) @ ''}'')"
| "write_elements w m [] = []"
| "write_elements w m (index # is) =
     (if index > 0 then '','' else []) @
     (case map_find (CZIndex index) m of None \<Rightarrow> write_null w | Some x \<Rightarrow> writeValue w x) @
     write_elements w m is"
| "write_members w m first [] = []"
| "write_members w m first (name # names) =
     (if first then [] else '','') @ valueToQuotedStringN name False @
     (if yamlCompatibilityEnabled w then '': '' else '':'') @
     (case map_find (CZString name) m of None \<Rightarrow> write_null w | Some x \<Rightarrow> writeValue w x) @
     write_members w m False names"
  by pat_completeness auto
termination
proof (relation "measures [case_sum (\<lambda>(_, v). size v) (case_sum (\<lambda>(_, m, _). map_size m) (\<lambda>(_, m, _, _). map_size m)),
    case_sum (\<lambda>_. 0) (case_sum (\<lambda>(_, _, is). Suc (length is)) (\<lambda>(_, _, _, ns). Suc (length ns)))]")
qed (auto dest: map_find_size)

definition FastWriter_write :: "FastWriter \<Rightarrow> Value \<Rightarrow> string" where
  "FastWriter_write w v = writeValue w v @ (if omitEndingLineFeed w then [] else [CHR 0x0A])"

end
