(* ===== verification/C_Lib.thy ===== *)
theory C_Lib
  imports Prelude
begin

text \<open>
  The C string functions the firmware calls, on C strings without their NUL: \<open>strstr\<close>,
  \<open>strtok_r\<close>, \<open>isspace\<close>, \<open>atoi\<close>, \<open>strtoul\<close> in base 0, \<open>strcasecmp\<close> and the \<open>%d\<close> conversion, with
  \<open>int\<close> and \<open>long\<close> of 32 bits.
\<close>

section \<open>Searching and splitting\<close>

text \<open>\<open>strstr\<close> returns the rest of the text from the first match on.\<close>

fun strstr :: "string \<Rightarrow> string \<Rightarrow> string option" where
  "strstr pat [] = (if pat = [] then Some [] else None)"
| "strstr pat (c # s) = (if prefix pat (c # s) then Some (c # s) else strstr pat s)"

lemma strstr_None_iff: "strstr pat s = None \<longleftrightarrow> \<not> sublist pat s"
  by (induction s) (auto simp: sublist_Cons_right)

lemma strstr_Some: "strstr pat s = Some r \<Longrightarrow> \<exists>pre post. s = pre @ r \<and> r = pat @ post"
proof (induction s)
  case (Cons c s)
  show ?case
  proof (cases "prefix pat (c # s)")
    case True
    with Cons.prems show ?thesis by (auto simp: prefix_def)
  next
    case False
    with Cons obtain pre post where "s = pre @ r" "r = pat @ post" by auto
    then have "c # s = (c # pre) @ r \<and> r = pat @ post" by simp
    then show ?thesis by blast
  qed
qed (auto split: if_splits)

text \<open>
  One call of \<open>strtok_r\<close> with the single delimiter \<open>d\<close>: the token and what \<open>save\<close> points to. Empty
  fields are skipped.
\<close>

definition strtok :: "char \<Rightarrow> string \<Rightarrow> (string \<times> string) option" where
  "strtok d s = (let r = dropWhile (\<lambda>c. c = d) s in
     if r = [] then None else Some (takeWhile (\<lambda>c. c \<noteq> d) r, drop 1 (dropWhile (\<lambda>c. c \<noteq> d) r)))"

lemma strtok_shorter: "strtok d s = Some (t, rest) \<Longrightarrow> length rest < length s"
proof -
  assume "strtok d s = Some (t, rest)"
  then have r: "dropWhile (\<lambda>c. c = d) s \<noteq> []" "rest = drop 1 (dropWhile (\<lambda>c. c \<noteq> d) (dropWhile (\<lambda>c. c = d) s))"
    by (auto simp: strtok_def Let_def split: if_splits)
  then show ?thesis
    using length_dropWhile_le [of "\<lambda>c. c \<noteq> d" "dropWhile (\<lambda>c. c = d) s"] length_dropWhile_le [of "\<lambda>c. c = d" s]
    by (cases "dropWhile (\<lambda>c. c = d) s") auto
qed

lemma strtok_field:
  "t \<noteq> [] \<Longrightarrow> d \<notin> set t \<Longrightarrow> strtok d (t @ d # rest) = Some (t, rest)"
proof -
  assume t: "t \<noteq> []" "d \<notin> set t"
  have l: "dropWhile (\<lambda>c. c = d) (t @ d # rest) = t @ d # rest" using t by (cases t) auto
  have "takeWhile (\<lambda>c. c \<noteq> d) (t @ d # rest) = t" "dropWhile (\<lambda>c. c \<noteq> d) (t @ d # rest) = d # rest"
    using t(2) by (induction t) auto
  with t(1) l show ?thesis by (simp add: strtok_def)
qed

section \<open>Characters and numbers\<close>

definition is_c_space :: "char \<Rightarrow> bool" where
  "is_c_space c \<longleftrightarrow> c = CHR '' '' \<or> (9 \<le> (of_char c :: nat) \<and> (of_char c :: nat) \<le> 13)"

text \<open>The digits of \<open>s\<close> read in base \<open>b\<close>; \<open>hex_val\<close> is 99 on a character that is no digit.\<close>

definition hex_val :: "char \<Rightarrow> int" where
  "hex_val c = (let n = int (of_char c) in
     if 48 \<le> n \<and> n \<le> 57 then n - 48 else if 65 \<le> n \<and> n \<le> 70 then n - 55
     else if 97 \<le> n \<and> n \<le> 102 then n - 87 else 99)"

definition read_base :: "int \<Rightarrow> string \<Rightarrow> int" where
  "read_base b s = foldl (\<lambda>v c. v * b + hex_val c) 0 (takeWhile (\<lambda>c. hex_val c < b) s)"

definition strip_sign :: "string \<Rightarrow> bool \<times> string" where
  "strip_sign s = (if s \<noteq> [] \<and> (hd s = CHR ''-'' \<or> hd s = CHR ''+'') then (hd s = CHR ''-'', tl s) else (False, s))"

text \<open>\<open>atoi\<close>: \<open>strtol\<close> in base 10, clamped to the range of a 32-bit \<open>long\<close>.\<close>

definition atoi :: "string \<Rightarrow> int" where
  "atoi s = (let (neg, r) = strip_sign (dropWhile is_c_space (cstr s)); n = read_base 10 r
     in if neg then max (- 2147483648) (- n) else min 2147483647 n)"

definition is_hex_prefix :: "string \<Rightarrow> bool" where
  "is_hex_prefix r \<longleftrightarrow> (case r of z # x # h # _ \<Rightarrow>
     z = CHR ''0'' \<and> (x = CHR ''x'' \<or> x = CHR ''X'') \<and> hex_val h < 16 | _ \<Rightarrow> False)"

definition strtoul :: "string \<Rightarrow> u32" where
  "strtoul s = (let (neg, r) = strip_sign (dropWhile is_c_space (cstr s));
       n = (if is_hex_prefix r then read_base 16 (drop 2 r)
            else if r \<noteq> [] \<and> hd r = CHR ''0'' then read_base 8 r else read_base 10 r)
     in if n > 4294967295 then word_of_int 4294967295 else if neg then - word_of_int n else word_of_int n)"

definition c_tolower :: "char \<Rightarrow> char" where
  "c_tolower c = (let n = (of_char c :: nat) in if 65 \<le> n \<and> n \<le> 90 then char_of (n + 32) else c)"

definition strcasecmp_eq :: "string \<Rightarrow> string \<Rightarrow> bool" where
  "strcasecmp_eq s t \<longleftrightarrow> map c_tolower s = map c_tolower t"

definition fmt_d :: "int \<Rightarrow> string" where
  "fmt_d i = (if i < 0 then CHR ''-'' # dec (nat (- i)) else dec (nat i))"

section \<open>Reading back decimal and hexadecimal numbers\<close>

lemma hex_val_digit [simp]: "d < 10 \<Longrightarrow> hex_val (digit_char d) = int d"
  by (simp add: hex_val_def)

lemma dec_chars: "c \<in> set (dec n) \<Longrightarrow> \<exists>d < 10. c = digit_char d"
proof (induction n rule: dec.induct)
  case (1 n)
  show ?case
  proof (cases "n < 10")
    case True
    with 1(2) show ?thesis by (auto simp: dec.simps [of n])
  next
    case False
    with 1(2) consider "c \<in> set (dec (n div 10))" | "c = digit_char (n mod 10)" by (auto simp: dec.simps [of n])
    then show ?thesis
    proof cases
      case 1
      with "1.IH" False show ?thesis by blast
    next
      case 2
      then show ?thesis by (intro exI [of _ "n mod 10"]) simp
    qed
  qed
qed

lemma read_base_dec: "(case rest of [] \<Rightarrow> True | c # _ \<Rightarrow> \<not> hex_val c < 10) \<Longrightarrow> read_base 10 (dec n @ rest) = int n"
proof -
  assume r: "case rest of [] \<Rightarrow> True | c # _ \<Rightarrow> \<not> hex_val c < 10"
  have "\<forall>c \<in> set (dec n). hex_val c < 10" using dec_chars by fastforce
  then have "takeWhile (\<lambda>c. hex_val c < 10) (dec n @ rest) = dec n @ takeWhile (\<lambda>c. hex_val c < 10) rest"
    by (simp add: takeWhile_append2)
  moreover have "takeWhile (\<lambda>c. hex_val c < 10) rest = []" using r by (cases rest) auto
  moreover have "foldl (\<lambda>v c. v * 10 + hex_val c) 0 (dec n) = int n"
  proof (induction n rule: dec.induct)
    case (1 n)
    moreover have "int (n div 10) * 10 + int (n mod 10) = int n" by presburger
    ultimately show ?case by (cases "n < 10") (simp_all add: dec.simps [of n])
  qed
  ultimately show ?thesis by (simp add: read_base_def)
qed

lemma dec_hd: "\<exists>d ds. dec n = digit_char d # ds \<and> d < 10 \<and> (n \<noteq> 0 \<longrightarrow> d \<noteq> 0)"
proof (induction n rule: dec.induct)
  case (1 n)
  show ?case
  proof (cases "n < 10")
    case False
    then obtain d ds where "dec (n div 10) = digit_char d # ds" "d < 10" "d \<noteq> 0" using 1 by auto
    with False show ?thesis by (intro exI [of _ d] exI [of _ "ds @ [digit_char (n mod 10)]"]) (simp add: dec.simps [of n])
  next
    case True
    then show ?thesis by (intro exI [of _ n] exI [of _ "[]"]) (simp add: dec.simps [of n])
  qed
qed

lemma digit_char_ne: "d < 10 \<Longrightarrow> of_char c \<noteq> 48 + d \<Longrightarrow> digit_char d \<noteq> c"
  by auto

lemma digit_char_not: "d < 10 \<Longrightarrow> \<not> is_c_space (digit_char d) \<and> digit_char d \<noteq> CHR ''-'' \<and> digit_char d \<noteq> CHR ''+'' \<and>
    digit_char d \<noteq> CHR '','' \<and> digit_char d \<noteq> NUL \<and> (d \<noteq> 0 \<longrightarrow> digit_char d \<noteq> CHR ''0'')"
  by (simp add: is_c_space_def digit_char_ne)

lemma dec_notin: "c \<in> set (dec n) \<Longrightarrow> \<not> is_c_space c \<and> c \<noteq> CHR ''-'' \<and> c \<noteq> CHR ''+'' \<and> c \<noteq> CHR '','' \<and> c \<noteq> NUL"
  by (drule dec_chars) (elim exE conjE, simp add: digit_char_not)

lemma dec_cstr [simp]: "cstr (dec n) = dec n"
  by (rule cstr_id) (use dec_notin in blast)

lemma dec_no_space [simp]: "dropWhile is_c_space (dec n) = dec n"
  using dec_hd [of n] digit_char_not by auto

lemma dec_no_sign [simp]: "strip_sign (dec n) = (False, dec n)"
  using dec_hd [of n] digit_char_not by (auto simp: strip_sign_def)

lemma atoi_dec: "n \<le> 2147483647 \<Longrightarrow> atoi (dec n) = int n"
  using read_base_dec [of "[]" n] by (simp add: atoi_def)

lemma strtoul_dec: "0 < n \<Longrightarrow> n \<le> 4294967295 \<Longrightarrow> strtoul (dec n) = word_of_nat n"
proof -
  assume n: "0 < n" "n \<le> 4294967295"
  obtain d ds where d: "dec n = digit_char d # ds" "d < 10" "d \<noteq> 0" using dec_hd [of n] n(1) by auto
  have "\<not> is_hex_prefix (dec n)" "hd (dec n) \<noteq> CHR ''0''"
    using d digit_char_not [of d] by (auto simp: is_hex_prefix_def split: list.splits)
  with read_base_dec [of "[]" n] n(2) show ?thesis by (simp add: strtoul_def)
qed

end
