(* ===== verification/Esp_Http.thy ===== *)
theory Esp_Http
  imports Prelude
begin

text \<open>
  The interface of the ESP-IDF HTTP client (\<open>esp_http_client.h\<close>), code outside the repository, as both
  the Firebase client and the geolocation request use it: a record of its functions over an
  arbitrary world \<open>'w\<close>. \<open>http_perform\<close> gives the result and the events it raised.
\<close>

datatype http_event = EVENT_ERROR | ON_CONNECTED | HEADER_SENT | ON_HEADER | REDIRECT | ON_FINISH
  | ON_DATA string | DISCONNECTED

datatype http_method = METHOD_GET | METHOD_POST | METHOD_PUT | METHOD_PATCH | METHOD_DELETE

record 'w http_api =
  http_client_init :: "string \<Rightarrow> 'w \<Rightarrow> nat option \<times> 'w"
  http_set_url :: "nat \<Rightarrow> string \<Rightarrow> 'w \<Rightarrow> 'w"
  http_set_method :: "nat \<Rightarrow> http_method \<Rightarrow> 'w \<Rightarrow> 'w"
  http_set_post_field :: "nat \<Rightarrow> string \<Rightarrow> 'w \<Rightarrow> 'w"
  http_set_header :: "nat \<Rightarrow> string \<Rightarrow> string \<Rightarrow> 'w \<Rightarrow> 'w"
  http_set_timeout_ms :: "nat \<Rightarrow> int \<Rightarrow> 'w \<Rightarrow> 'w"
  http_perform :: "nat \<Rightarrow> 'w \<Rightarrow> (esp_err_t \<times> http_event list) \<times> 'w"
  http_get_status_code :: "nat \<Rightarrow> 'w \<Rightarrow> int"
  http_close :: "nat \<Rightarrow> 'w \<Rightarrow> 'w"
  http_cleanup :: "nat \<Rightarrow> 'w \<Rightarrow> 'w"
  get_time :: "'w \<Rightarrow> int \<times> 'w"

text \<open>The data of a list of events, in the order of arrival.\<close>

fun data_of :: "http_event \<Rightarrow> string list" where
  "data_of (ON_DATA d) = [d]"
| "data_of _ = []"

text \<open>
  \<open>counts api c\<close>: \<open>c\<close> is a counter in the world that a call of \<open>esp_http_client_perform\<close> advances by
  one and no other call of the HTTP client changes.
\<close>

definition counts :: "'w http_api \<Rightarrow> ('w \<Rightarrow> nat) \<Rightarrow> bool" where
  "counts api c \<longleftrightarrow>
     (\<forall>h w. c (snd (http_perform api h w)) = c w + 1) \<and> (\<forall>u w. c (snd (http_client_init api u w)) = c w) \<and>
     (\<forall>h u w. c (http_set_url api h u w) = c w) \<and> (\<forall>h m w. c (http_set_method api h m w) = c w) \<and>
     (\<forall>h d w. c (http_set_post_field api h d w) = c w) \<and> (\<forall>h k v w. c (http_set_header api h k v w) = c w) \<and>
     (\<forall>h w. c (http_close api h w) = c w) \<and> (\<forall>h w. c (http_cleanup api h w) = c w)"

end
