(* ===== verification/Firebase.thy ===== *)
theory Firebase
  imports Json_Reader_Props Json_Writer C_Lib Esp_Http
begin

text \<open>
  The Firebase client (\<open>src/components/esp_firebase/app.cpp\<close>, \<open>app.h\<close>, \<open>rtdb.cpp\<close>, \<open>rtdb.h\<close>,
  \<open>firebase_c_shim.cpp\<close>): the HTTP event handler that collects a reply into the receive buffer,
  the retrying request, login and token refresh, the database operations and the C interface.
  The ESP-IDF HTTP client, the clock and the credentials of \<open>Privado.h\<close> are code and data outside
  the repository: the record \<open>http_api\<close> over an arbitrary world \<open>'w\<close>, and parameters. Delays and
  log output are left out, except that \<open>performRequest\<close> reads the receive buffer as a C string to log it.
  A JSON assertion that fails ends the program (\<open>Abort\<close>), and so do the undefined behaviours of the code: a
  write outside the buffer, a buffer read without a terminator, a null client passed to the HTTP client.
\<close>

section \<open>The receive buffer\<close>

definition HTTP_RECV_BUFFER_SIZE :: nat where "HTTP_RECV_BUFFER_SIZE = 16384"

text \<open>The buffer \<open>user_data\<close> points to and the static \<open>output_len\<close>; \<open>None\<close> is a write outside the buffer.\<close>

type_synonym recv = "string \<times> nat"

definition recv_append :: "recv \<Rightarrow> string \<Rightarrow> recv option" where
  "recv_append r data = (case r of (user_data, output_len) \<Rightarrow>
    if data \<noteq> [] then
      (let capacity = HTTP_RECV_BUFFER_SIZE - 1; space = int capacity - int output_len in
       if space > 0 then
         (let to_copy = (if int (length data) < space then length data else nat space) in
          case mem_write user_data output_len (take to_copy data) of None \<Rightarrow> None
          | Some user_data \<Rightarrow>
            (let output_len = output_len + to_copy in
             map_option (\<lambda>user_data. (user_data, output_len)) (mem_write user_data output_len [NUL])))
       else Some r)
    else Some r)"

definition recv_clear :: "recv \<Rightarrow> recv option" where
  "recv_clear r = map_option (\<lambda>user_data. (user_data, 0))
     (mem_write (fst r) 0 (replicate HTTP_RECV_BUFFER_SIZE NUL))"

fun http_event_handler :: "http_event \<Rightarrow> recv \<Rightarrow> recv option" where
  "http_event_handler ON_CONNECTED r = recv_clear r"
| "http_event_handler ON_FINISH r = Some (fst r, 0)"
| "http_event_handler (ON_DATA data) r = recv_append r data"
| "http_event_handler _ r = Some r"

fun handle_events :: "http_event list \<Rightarrow> recv \<Rightarrow> recv option" where
  "handle_events [] r = Some r"
| "handle_events (e # es) r = (case http_event_handler e r of None \<Rightarrow> None | Some r \<Rightarrow> handle_events es r)"

section \<open>Environment and state\<close>

record FirebaseApp =
  register_url :: string
  login_url :: string
  auth_url :: string
  refresh_token :: string
  client :: "nat option"
  client_handler :: bool
  auth_obtained_time :: int
  auth_expires_in :: int
  default_timeout_ms :: int
  user_email :: string
  user_password :: string
  recv_state :: recv
  auth_token :: string

text \<open>
  Every operation maps the object and the world to a result, the object and the world, or
  aborts. \<open>client_handler\<close> says whether the client was created with the event handler and the
  receive buffer (\<open>firebaseClientInit\<close>) or without them (the fallback in \<open>performRequest\<close>).
\<close>

type_synonym ('w, 'a) io = "FirebaseApp \<times> 'w \<Rightarrow> ('a \<times> FirebaseApp \<times> 'w) res"

definition io_return :: "'a \<Rightarrow> ('w, 'a) io" where
  "io_return x = (\<lambda>(a, w). Ok (x, a, w))"

definition io_bind :: "('w, 'a) io \<Rightarrow> ('a \<Rightarrow> ('w, 'b) io) \<Rightarrow> ('w, 'b) io" where
  "io_bind m f = (\<lambda>s. bind (m s) (\<lambda>(x, s). f x s))"

text \<open>A call of the HTTP client behind the test \<open>if (this->client)\<close>.\<close>

definition with_client :: "(nat \<Rightarrow> 'w \<Rightarrow> 'w) \<Rightarrow> ('w, unit) io" where
  "with_client f = (\<lambda>(a, w). Ok ((), a, case client a of None \<Rightarrow> w | Some h \<Rightarrow> f h w))"

definition firebaseClientInit :: "'w http_api \<Rightarrow> ('w, unit) io" where
  "firebaseClientInit api = (\<lambda>(a, w).
     let (h, w) = http_client_init api ''https://google.com'' w in
     Ok ((), a\<lparr>client := h, client_handler := True, default_timeout_ms := 20000\<rparr>, w))"

text \<open>\<open>setHeader\<close> has no such test: \<open>esp_http_client_set_header\<close> dereferences the handle it is given.\<close>

definition null_client :: abort where "null_client = Undefined ''null HTTP client''"

definition setHeader :: "'w http_api \<Rightarrow> string \<Rightarrow> string \<Rightarrow> ('w, unit) io" where
  "setHeader api header v = (\<lambda>(a, w). case client a of None \<Rightarrow> Abort null_client
     | Some h \<Rightarrow> Ok ((), a, http_set_header api h header v w))"

definition has_body :: "http_method \<Rightarrow> bool" where
  "has_body m \<longleftrightarrow> m = METHOD_POST \<or> m = METHOD_PUT \<or> m = METHOD_PATCH"

text \<open>One pass of the loop of \<open>performRequest\<close> up to and including the reply: \<open>None\<close> is the \<open>break\<close>.\<close>

definition prepare_client :: "'w http_api \<Rightarrow> string \<Rightarrow> ('w, nat option) io" where
  "prepare_client api url = (\<lambda>(a, w). case client a of
     None \<Rightarrow> (let (h, w) = http_client_init api url w in
       Ok (h, a\<lparr>client := h, client_handler := False\<rparr>, w))
   | Some h \<Rightarrow> Ok (Some h, a, http_set_url api h url w))"

definition prepare_body :: "'w http_api \<Rightarrow> nat \<Rightarrow> http_method \<Rightarrow> string \<Rightarrow> 'w \<Rightarrow> 'w" where
  "prepare_body api h m post_field w =
    (if has_body m then
       http_set_header api h ''content-type'' ''application/json'' (http_set_post_field api h post_field w)
     else http_set_header api h ''Content-Length'' ''0'' (http_set_post_field api h [] w))"

definition after_failure :: "'w http_api \<Rightarrow> nat \<Rightarrow> http_method \<Rightarrow> 'w \<Rightarrow> 'w" where
  "after_failure api h m w =
    (if has_body m then http_set_header api h ''content-type'' ''application/json'' w
     else http_set_header api h ''Content-Length'' ''0'' (http_set_post_field api h [] w))"

definition perform :: "'w http_api \<Rightarrow> nat \<Rightarrow> ('w, esp_err_t \<times> int) io" where
  "perform api h = (\<lambda>(a, w).
     let ((err, events), w) = http_perform api h w;
         r = (if client_handler a then handle_events events (recv_state a) else Some (recv_state a))
     in case r of None \<Rightarrow> Abort (Undefined ''write outside local_response_buffer'')
        | Some r \<Rightarrow> Ok ((err, http_get_status_code api h w), a\<lparr>recv_state := r\<rparr>, w))"

definition is_2xx :: "esp_err_t \<times> int \<Rightarrow> bool" where
  "is_2xx r \<longleftrightarrow> fst r = ESP_OK \<and> snd r \<ge> 200 \<and> snd r < 300"

definition is_200 :: "esp_err_t \<times> int \<Rightarrow> bool" where
  "is_200 r \<longleftrightarrow> fst r = ESP_OK \<and> snd r = 200"

text \<open>
  \<open>local_response_buffer\<close> read as a C string (\<open>strlen\<close>, or \<open>%s\<close> in the log of a failed attempt) needs a NUL
  in the buffer; the reply is the text before it.
\<close>

definition unterminated_response :: abort where
  "unterminated_response = Undefined ''read past local_response_buffer''"

definition response_text :: "('w, string) io" where
  "response_text = (\<lambda>(a, w). let buf = fst (recv_state a) in
     if NUL \<in> set buf then Ok (cstr buf, a, w) else Abort unterminated_response)"

fun request_loop ::
  "'w http_api \<Rightarrow> nat \<Rightarrow> string \<Rightarrow> http_method \<Rightarrow> string \<Rightarrow> esp_err_t \<times> int \<Rightarrow> ('w, esp_err_t \<times> int) io" where
  "request_loop api 0 url m post_field ret s = io_return ret s"
| "request_loop api (Suc attempts) url m post_field ret s =
    bind (prepare_client api url s) (\<lambda>(h, a, w). case h of
      None \<Rightarrow> Ok (ret, a, w)
    | Some h \<Rightarrow>
        bind (perform api h (a, prepare_body api h m post_field (http_set_method api h m w)))
          (\<lambda>(ret, a, w).
            if is_2xx ret then Ok (ret, a, http_close api h w)
            else bind (response_text (a, w)) (\<lambda>(_, a, w).
              request_loop api attempts url m post_field ret (a, after_failure api h m w))))"

definition MAX_ATTEMPTS :: nat where "MAX_ATTEMPTS = 5"

text \<open>Every caller passes \<open>url.c_str()\<close>.\<close>

definition performRequest :: "'w http_api \<Rightarrow> string \<Rightarrow> http_method \<Rightarrow> string \<Rightarrow> ('w, esp_err_t \<times> int) io" where
  "performRequest api url m post_field s = request_loop api MAX_ATTEMPTS (cstr url) m post_field (ESP_FAIL, -1) s"

definition clearHTTPBuffer :: "('w, unit) io" where
  "clearHTTPBuffer = (\<lambda>(a, w). case recv_clear (recv_state a) of
     None \<Rightarrow> Abort (Undefined ''write outside local_response_buffer'')
   | Some r \<Rightarrow> Ok ((), a\<lparr>recv_state := r\<rparr>, w))"

definition setHttpTimeoutMs :: "'w http_api \<Rightarrow> int \<Rightarrow> ('w, unit) io" where
  "setHttpTimeoutMs api ms = with_client (\<lambda>h. http_set_timeout_ms api h ms)"

definition restoreDefaultHttpTimeout :: "'w http_api \<Rightarrow> ('w, unit) io" where
  "restoreDefaultHttpTimeout api = (\<lambda>(a, w). setHttpTimeoutMs api (default_timeout_ms a) (a, w))"

section \<open>Replies\<close>

text \<open>\<open>Json::Reader reader; Json::Value data; reader.parse(begin, end, data, false)\<close>\<close>

definition parse_reply :: "string \<Rightarrow> Value res" where
  "parse_reply text = bind (parse text nullSingleton False (new_reader Features_all)) (\<lambda>(_, s). Ok (root s))"

definition parse_response :: "('w, Value) io" where
  "parse_response = io_bind response_text (\<lambda>text s. bind (parse_reply text) (\<lambda>data. io_return data s))"

text \<open>
  \<open>data["key"]\<close> on a non-const value creates the member; \<open>member_ref\<close> gives the container after it
  and the member.
\<close>

definition member_ref :: "string \<Rightarrow> Value \<Rightarrow> (Value \<times> Value) outcome" where
  "member_ref k data = map_sum id (\<lambda>data. (data, ref_get (CZString k) data)) (resolveReference k data)"

definition int32 :: "int \<Rightarrow> int" where
  "int32 i = sint (word_of_int i :: u32)"

section \<open>Accounts and tokens\<close>

definition dq :: string where "dq = [dquote]"

definition account_json :: "FirebaseApp \<Rightarrow> string" where
  "account_json a =
     ''{'' @ dq @ ''email'' @ dq @ '':'' @ dq @ user_email a @ dq @ '', '' @ dq @ ''password'' @ dq @ '':'' @ dq @
     user_password a @ dq @ '', '' @ dq @ ''returnSecureToken'' @ dq @ '': true}''"

definition token_post_data :: "FirebaseApp \<Rightarrow> string" where
  "token_post_data a =
     ''{'' @ dq @ ''grant_type'' @ dq @ '': '' @ dq @ ''refresh_token'' @ dq @ '', '' @ dq @ ''refresh_token'' @ dq @
     '':'' @ dq @ refresh_token a @ dq @ ''}''"

definition getRefreshToken :: "'w http_api \<Rightarrow> bool \<Rightarrow> ('w, esp_err_t) io" where
  "getRefreshToken api register_account s =
    bind (setHeader api ''content-type'' ''application/json'' s) (\<lambda>(_, a, w).
    bind (performRequest api (if register_account then register_url a else login_url a) METHOD_POST
        (account_json a) (a, w)) (\<lambda>(http_ret, s).
    if is_200 http_ret then
      bind (parse_response s) (\<lambda>(data, a, w).
      bind (lift (member_ref ''refreshToken'' data)) (\<lambda>(data, member).
      bind (lift (asString member)) (\<lambda>token.
      Ok (ESP_OK, a\<lparr>refresh_token := token\<rparr>, w))))
    else io_return ESP_FAIL s))"

text \<open>\<open>expires_in\<close> or \<open>expiresIn\<close> of the reply, 3600 when it has neither.\<close>

definition expiry_of :: "Value \<Rightarrow> int outcome" where
  "expiry_of data =
    (let read = (\<lambda>k. case member_ref k data of Inl e \<Rightarrow> Inl e
        | Inr (data, member) \<Rightarrow> map_sum id atoi (asCString member)) in
     case isMember ''expires_in'' data of Inl e \<Rightarrow> Inl e | Inr True \<Rightarrow> read ''expires_in''
     | Inr False \<Rightarrow>
        (case isMember ''expiresIn'' data of Inl e \<Rightarrow> Inl e | Inr True \<Rightarrow> read ''expiresIn''
         | Inr False \<Rightarrow> Inr 3600))"

definition getAuthToken :: "'w http_api \<Rightarrow> ('w, esp_err_t) io" where
  "getAuthToken api s =
    bind (setHeader api ''content-type'' ''application/json'' s) (\<lambda>(_, a, w).
    bind (performRequest api (auth_url a) METHOD_POST (token_post_data a) (a, w)) (\<lambda>(http_ret, s).
    if is_200 http_ret then
      bind (parse_response s) (\<lambda>(data, a, w).
      bind (lift (member_ref ''access_token'' data)) (\<lambda>(data, member).
      bind (lift (asString member)) (\<lambda>token.
      bind (lift (expiry_of data)) (\<lambda>expires.
      let (now, w) = get_time api w in
      Ok (ESP_OK, a\<lparr>auth_token := token, auth_expires_in := expires, auth_obtained_time := now\<rparr>, w)))))
    else io_return ESP_FAIL s))"

definition new_FirebaseApp :: "'w http_api \<Rightarrow> string \<Rightarrow> string \<Rightarrow> 'w \<Rightarrow> (unit \<times> FirebaseApp \<times> 'w) res" where
  "new_FirebaseApp api api_key uninitialised w =
     firebaseClientInit api
       (\<lparr>register_url = ''https://identitytoolkit.googleapis.com/v1/accounts:signUp?key='' @ api_key,
         login_url = ''https://identitytoolkit.googleapis.com/v1/accounts:signInWithPassword?key='' @ api_key,
         auth_url = ''https://securetoken.googleapis.com/v1/token?key='' @ api_key,
         refresh_token = [], client = None, client_handler = False, auth_obtained_time = 0,
         auth_expires_in = 0, default_timeout_ms = 20000, user_email = [], user_password = [],
         recv_state = (uninitialised, 0), auth_token = []\<rparr>, w)"

text \<open>\<open>registerUserAccount\<close> and \<open>loginUserAccount\<close> differ in the URL of the first request only.\<close>

definition sign_in :: "'w http_api \<Rightarrow> bool \<Rightarrow> string \<times> string \<Rightarrow> ('w, esp_err_t) io" where
  "sign_in api register_account account = (\<lambda>(a, w).
    bind (getRefreshToken api register_account
        (a\<lparr>user_email := fst account, user_password := snd account\<rparr>, w)) (\<lambda>(err, s).
    if err \<noteq> ESP_OK then io_return ESP_FAIL s else
    bind (clearHTTPBuffer s) (\<lambda>(_, s).
    bind (getAuthToken api s) (\<lambda>(err, s).
    if err \<noteq> ESP_OK then io_return ESP_FAIL s else
    bind (clearHTTPBuffer s) (\<lambda>(_, s). io_return ESP_OK s)))))"

definition registerUserAccount :: "'w http_api \<Rightarrow> string \<times> string \<Rightarrow> ('w, esp_err_t) io" where
  "registerUserAccount api account = sign_in api True account"

definition loginUserAccount :: "'w http_api \<Rightarrow> string \<times> string \<Rightarrow> ('w, esp_err_t) io" where
  "loginUserAccount api account = sign_in api False account"

definition user_account :: "FirebaseApp \<Rightarrow> string \<times> string" where
  "user_account a = (user_email a, user_password a)"

definition forceRefreshAuth :: "'w http_api \<Rightarrow> ('w, esp_err_t) io" where
  "forceRefreshAuth api s =
    bind (getAuthToken api s) (\<lambda>(err, a, w).
    if err = ESP_OK then bind (clearHTTPBuffer (a, w)) (\<lambda>(_, s). io_return ESP_OK s)
    else loginUserAccount api (user_account a) (a, w))"

definition refreshAuthIfNeeded :: "'w http_api \<Rightarrow> ('w, esp_err_t) io" where
  "refreshAuthIfNeeded api = (\<lambda>(a, w).
    if auth_token a = [] then loginUserAccount api (user_account a) (a, w) else
    let (now, w) = get_time api w in
    if auth_expires_in a \<le> 0 then io_return ESP_OK (a, w) else
    let elapsed = int32 (now - auth_obtained_time a); remaining = auth_expires_in a - elapsed in
    if remaining < 30 then
      bind (getAuthToken api (a, w)) (\<lambda>(err, a, w).
      if err = ESP_OK then bind (clearHTTPBuffer (a, w)) (\<lambda>(_, s). io_return ESP_OK s)
      else loginUserAccount api (user_account a) (a, w))
    else io_return ESP_OK (a, w))"

section \<open>The realtime database\<close>

definition content_json :: "'w http_api \<Rightarrow> ('w, unit) io" where
  "content_json api = setHeader api ''content-type'' ''application/json''"

text \<open>
  \<open>base_database_url\<close> is the first argument of every operation of \<open>RTDB\<close>; \<open>data_url\<close> is the URL they
  build from a path and the current token.
\<close>

definition data_url :: "string \<Rightarrow> string \<Rightarrow> FirebaseApp \<Rightarrow> string" where
  "data_url base path a = base @ path @ ''.json?auth='' @ auth_token a"

definition getData :: "'w http_api \<Rightarrow> string \<Rightarrow> string \<Rightarrow> ('w, Value) io" where
  "getData api base path = (\<lambda>(a, w).
    let url = data_url base path a in
    bind (content_json api (a, w)) (\<lambda>(_, s).
    bind (performRequest api url METHOD_GET [] s) (\<lambda>(http_ret, a, w).
    if is_200 http_ret then
      bind (parse_response (a, w)) (\<lambda>(data, s). bind (clearHTTPBuffer s) (\<lambda>(_, s). io_return data s))
    else
      bind (loginUserAccount api (user_account a) (a, w)) (\<lambda>(_, s).
      bind (content_json api s) (\<lambda>(_, s).
      bind (performRequest api url METHOD_GET [] s) (\<lambda>(http_ret, s).
      if is_200 http_ret then
        bind (parse_response s) (\<lambda>(data, s). bind (clearHTTPBuffer s) (\<lambda>(_, s). io_return data s))
      else bind (clearHTTPBuffer s) (\<lambda>(_, s). io_return nullSingleton s)))))))"

text \<open>\<open>putData\<close>, \<open>postData\<close> and \<open>patchData\<close> have the same body up to the method.\<close>

definition write_data :: "'w http_api \<Rightarrow> http_method \<Rightarrow> string \<Rightarrow> string \<Rightarrow> string \<Rightarrow> ('w, esp_err_t) io" where
  "write_data api m base path json_str = (\<lambda>(a, w).
    bind (content_json api (a, w)) (\<lambda>(_, s).
    bind (performRequest api (data_url base path a) m json_str s) (\<lambda>(http_ret, s).
    bind (if \<not> is_200 http_ret \<and> snd http_ret = 401 then
        bind (forceRefreshAuth api s) (\<lambda>(_, a, w).
        bind (content_json api (a, w)) (\<lambda>(_, s). performRequest api (data_url base path a) m json_str s))
      else io_return http_ret s) (\<lambda>(http_ret, s).
    bind (clearHTTPBuffer s) (\<lambda>(_, s).
    io_return (if is_200 http_ret then ESP_OK else ESP_FAIL) s)))))"

definition putData :: "'w http_api \<Rightarrow> string \<Rightarrow> string \<Rightarrow> string \<Rightarrow> ('w, esp_err_t) io" where
  "putData api base path json_str = write_data api METHOD_PUT base path json_str"

definition postData :: "'w http_api \<Rightarrow> string \<Rightarrow> string \<Rightarrow> string \<Rightarrow> ('w, esp_err_t) io" where
  "postData api base path json_str = write_data api METHOD_POST base path json_str"

definition patchData :: "'w http_api \<Rightarrow> string \<Rightarrow> string \<Rightarrow> string \<Rightarrow> ('w, esp_err_t) io" where
  "patchData api base path json_str = write_data api METHOD_PATCH base path json_str"

text \<open>The overloads for a JSON value serialise it with a \<open>FastWriter\<close> and pass the C string.\<close>

definition json_c_str :: "Value \<Rightarrow> string" where
  "json_c_str data = cstr (FastWriter_write FastWriter_default data)"

definition putData_value :: "'w http_api \<Rightarrow> string \<Rightarrow> string \<Rightarrow> Value \<Rightarrow> ('w, esp_err_t) io" where
  "putData_value api base path data = putData api base path (json_c_str data)"

definition postData_value :: "'w http_api \<Rightarrow> string \<Rightarrow> string \<Rightarrow> Value \<Rightarrow> ('w, esp_err_t) io" where
  "postData_value api base path data = postData api base path (json_c_str data)"

definition patchData_value :: "'w http_api \<Rightarrow> string \<Rightarrow> string \<Rightarrow> Value \<Rightarrow> ('w, esp_err_t) io" where
  "patchData_value api base path data = patchData api base path (json_c_str data)"

definition delete_url :: "string \<Rightarrow> string \<Rightarrow> FirebaseApp \<Rightarrow> string" where
  "delete_url base path a = base @ path @ ''.json?writeSizeLimit=unlimited&auth='' @ auth_token a"

definition delete_headers :: "'w http_api \<Rightarrow> ('w, unit) io" where
  "delete_headers api =
     io_bind (setHeader api ''Content-Length'' ''0'') (\<lambda>_. setHeader api ''Accept'' ''application/json'')"

definition LONG_TIMEOUT_MS :: int where "LONG_TIMEOUT_MS = 600000"

definition deleteData :: "'w http_api \<Rightarrow> string \<Rightarrow> string \<Rightarrow> ('w, esp_err_t) io" where
  "deleteData api base path = (\<lambda>(a, w).
    bind (setHttpTimeoutMs api LONG_TIMEOUT_MS (a, w)) (\<lambda>(_, s).
    bind (delete_headers api s) (\<lambda>(_, s).
    bind (performRequest api (delete_url base path a) METHOD_DELETE [] s) (\<lambda>(http_ret, s).
    bind (if \<not> is_2xx http_ret \<and> snd http_ret = 401 then
        bind (forceRefreshAuth api s) (\<lambda>(_, a, w).
        bind (delete_headers api (a, w)) (\<lambda>(_, s).
        performRequest api (delete_url base path a) METHOD_DELETE [] s))
      else io_return http_ret s) (\<lambda>(http_ret, s).
    bind (restoreDefaultHttpTimeout api s) (\<lambda>(_, s).
    bind (clearHTTPBuffer s) (\<lambda>(_, s).
    io_return (if is_2xx http_ret then ESP_OK else ESP_FAIL) s)))))))"

fun delete_each :: "'w http_api \<Rightarrow> string \<Rightarrow> string \<Rightarrow> string list \<Rightarrow> ('w, unit) io" where
  "delete_each api base root_path [] s = io_return () s"
| "delete_each api base root_path (day # days) s =
     bind (deleteData api base (cstr (root_path @ ''/'' @ day)) s) (\<lambda>(_, s). delete_each api base root_path days s)"

text \<open>The first \<open>to_delete\<close> of the sorted keys.\<close>

definition oldest_days :: "int \<Rightarrow> string list \<Rightarrow> string list" where
  "oldest_days max_days days =
    (let days = sort days; to_delete = nat (int (length days) - max_days) in take to_delete days)"

definition shallow_url :: "string \<Rightarrow> string \<Rightarrow> FirebaseApp \<Rightarrow> string" where
  "shallow_url base root_path a = base @ root_path @ ''.json?shallow=true&auth='' @ auth_token a"

definition trimDays :: "'w http_api \<Rightarrow> string \<Rightarrow> string \<Rightarrow> int \<Rightarrow> ('w, esp_err_t) io" where
  "trimDays api base root_path max_days = (\<lambda>(a, w).
    if max_days \<le> 0 then io_return ESP_OK (a, w) else
    bind (content_json api (a, w)) (\<lambda>(_, s).
    bind (performRequest api (shallow_url base root_path a) METHOD_GET [] s) (\<lambda>(http_ret, s).
    if \<not> is_200 http_ret then bind (clearHTTPBuffer s) (\<lambda>(_, s). io_return ESP_FAIL s) else
    bind (parse_response s) (\<lambda>(days_obj, s).
    bind (clearHTTPBuffer s) (\<lambda>(_, s).
    if \<not> isObject days_obj then io_return ESP_OK s else
    bind (lift (getMemberNames days_obj)) (\<lambda>days.
    if int (length days) \<le> max_days then io_return ESP_OK s else
    bind (delete_each api base root_path (oldest_days max_days days) s) (\<lambda>(_, s). io_return ESP_OK s)))))))"

definition null_patch :: "string list \<Rightarrow> string" where
  "null_patch keys =
     ''{'' @ concat (map (\<lambda>(i, k). (if i \<noteq> 0 then '','' else []) @ dq @ k @ dq @ '':null'')
       (enumerate 0 keys)) @ ''}''"

definition batch_url :: "string \<Rightarrow> string \<Rightarrow> int \<Rightarrow> FirebaseApp \<Rightarrow> string" where
  "batch_url base root_path batch_size a =
     base @ root_path @ ''.json?orderBy=%22%24key%22&limitToFirst='' @ dec (nat batch_size) @ ''&auth='' @ auth_token a"

definition trimOldestBatch :: "'w http_api \<Rightarrow> string \<Rightarrow> string \<Rightarrow> int \<Rightarrow> ('w, int) io" where
  "trimOldestBatch api base root_path batch_size = (\<lambda>(a, w).
    if batch_size \<le> 0 then io_return 0 (a, w) else
    bind (content_json api (a, w)) (\<lambda>(_, s).
    bind (performRequest api (batch_url base root_path batch_size a) METHOD_GET [] s) (\<lambda>(get_ret, s).
    if \<not> is_200 get_ret then bind (clearHTTPBuffer s) (\<lambda>(_, s). io_return (-1) s) else
    bind (parse_response s) (\<lambda>(obj, s).
    bind (clearHTTPBuffer s) (\<lambda>(_, a, w).
    if \<not> isObject obj then io_return 0 (a, w) else
    bind (lift (getMemberNames obj)) (\<lambda>keys.
    if keys = [] then io_return 0 (a, w) else
    bind (content_json api (a, w)) (\<lambda>(_, s).
    bind (performRequest api (base @ root_path @ ''.json?auth='' @ auth_token a @ ''&print=silent'') METHOD_PATCH
        (null_patch keys) s) (\<lambda>(patch_ret, s).
    bind (clearHTTPBuffer s) (\<lambda>(_, s).
    io_return (if \<not> is_2xx patch_ret then -2 else int (length keys)) s)))))))))"

section \<open>The C interface\<close>

text \<open>
  The globals \<open>g_app\<close> and \<open>g_rtdb\<close>; the database object is the URL it was created with. The
  constants of \<open>Privado.h\<close> and the content of fresh heap memory are parameters.
\<close>

record shim =
  g_app :: "FirebaseApp option"
  g_rtdb :: "string option"

record privado =
  API_KEY :: string
  USER_EMAIL :: string
  USER_PASSWORD :: string
  DATABASE_URL :: string

definition firebase_init ::
  "'w http_api \<Rightarrow> privado \<Rightarrow> string \<Rightarrow> shim \<Rightarrow> 'w \<Rightarrow> (int \<times> shim \<times> 'w) res" where
  "firebase_init api p uninitialised g w =
    (if g_app g \<noteq> None then Ok (0, g, w) else
     bind (new_FirebaseApp api (API_KEY p) uninitialised w) (\<lambda>(_, a, w).
     let account = (USER_EMAIL p, USER_PASSWORD p);
         a = a\<lparr>user_email := fst account, user_password := snd account\<rparr> in
     bind (loginUserAccount api account (a, w)) (\<lambda>(err, a, w).
     bind (if err \<noteq> ESP_OK then
         bind (registerUserAccount api (user_account a) (a, w)) (\<lambda>(reg, a, w).
         if reg = ESP_OK then loginUserAccount api (user_account a) (a, w) else io_return err (a, w))
       else io_return err (a, w)) (\<lambda>(err, a, w).
     if err \<noteq> ESP_OK then Ok (-2, g\<lparr>g_app := Some a\<rparr>, w)
     else Ok (0, g\<lparr>g_app := Some a, g_rtdb := Some (DATABASE_URL p)\<rparr>, w)))))"

definition firebase_refresh_token :: "'w http_api \<Rightarrow> shim \<Rightarrow> 'w \<Rightarrow> (int \<times> shim \<times> 'w) res" where
  "firebase_refresh_token api g w = (case g_app g of None \<Rightarrow> Ok (-1, g, w)
   | Some a \<Rightarrow> bind (forceRefreshAuth api (a, w)) (\<lambda>(err, a, w).
       Ok (if err = ESP_OK then 0 else -2, g\<lparr>g_app := Some a\<rparr>, w)))"

text \<open>The remaining functions run a database operation when \<open>g_rtdb\<close> is set; it is set only with \<open>g_app\<close>.\<close>

definition on_rtdb :: "(string \<Rightarrow> ('w, int) io) \<Rightarrow> shim \<Rightarrow> 'w \<Rightarrow> (int \<times> shim \<times> 'w) res" where
  "on_rtdb oper g w = (case g_rtdb g of None \<Rightarrow> Ok (-1, g, w)
   | Some base \<Rightarrow> (case g_app g of None \<Rightarrow> Abort (Undefined ''null FirebaseApp'')
     | Some a \<Rightarrow> bind (oper base (a, w)) (\<lambda>(r, a, w). Ok (r, g\<lparr>g_app := Some a\<rparr>, w))))"

definition firebase_push :: "'w http_api \<Rightarrow> string \<Rightarrow> string \<Rightarrow> shim \<Rightarrow> 'w \<Rightarrow> (int \<times> shim \<times> 'w) res" where
  "firebase_push api path json = on_rtdb (\<lambda>base. postData api base path json)"

definition firebase_putData :: "'w http_api \<Rightarrow> string \<Rightarrow> string \<Rightarrow> shim \<Rightarrow> 'w \<Rightarrow> (int \<times> shim \<times> 'w) res" where
  "firebase_putData api path json = on_rtdb (\<lambda>base. putData api base path json)"

definition firebase_delete :: "'w http_api \<Rightarrow> string \<Rightarrow> shim \<Rightarrow> 'w \<Rightarrow> (int \<times> shim \<times> 'w) res" where
  "firebase_delete api path = on_rtdb (\<lambda>base. deleteData api base path)"

definition firebase_trim_days :: "'w http_api \<Rightarrow> string \<Rightarrow> int \<Rightarrow> shim \<Rightarrow> 'w \<Rightarrow> (int \<times> shim \<times> 'w) res" where
  "firebase_trim_days api root_path max_days = on_rtdb (\<lambda>base. trimDays api base root_path max_days)"

definition firebase_trim_oldest_batch :: "'w http_api \<Rightarrow> string \<Rightarrow> int \<Rightarrow> shim \<Rightarrow> 'w \<Rightarrow> (int \<times> shim \<times> 'w) res" where
  "firebase_trim_oldest_batch api root_path batch_size = on_rtdb (\<lambda>base. trimOldestBatch api base root_path batch_size)"

end
