(* ===== verification/Modem.thy ===== *)
theory Modem
  imports C_Lib Esp_Http
begin

text \<open>
  The cellular modem (\<open>src/main/modem_ppp.c\<close>, \<open>modem_ppp.h\<close>): the accumulator of AT replies,
  network registration and cell information with their retries, the \<open>+CPSI\<close> parser, the
  geolocation request, and the blocking start of PPP. The modem driver (\<open>esp_modem\<close>), the network
  interfaces, GPIO and the HTTP client are code outside the repository: the records \<open>modem_api\<close> and
  \<open>http_api\<close> over an arbitrary world \<open>'w\<close>. Delays and log output are left out.
\<close>

section \<open>Driver and state\<close>

datatype modem_mode = MODE_COMMAND | MODE_DATA | MODE_CMUX

datatype ip_event = PPP_GOT_IP | PPP_LOST_IP | OTHER_IP_EVENT

datatype dns_slot = DNS_MAIN | DNS_BACKUP

text \<open>
  \<open>esp_modem_at\<close> gives the text it stored in the output buffer, if it stored any;
  \<open>esp_modem_command\<close> the chunks it passed to the callback; \<open>wait_ip_events\<close> the IP events raised while
  \<open>xEventGroupWaitBits\<close> waits: up to the timeout, or with \<open>None\<close> (\<open>portMAX_DELAY\<close>) all that are ever raised before the
  bit is set.
\<close>

record 'w modem_api =
  gpio_set_direction_output :: "int \<Rightarrow> 'w \<Rightarrow> 'w"
  gpio_set_level :: "int \<Rightarrow> nat \<Rightarrow> 'w \<Rightarrow> 'w"
  esp_netif_new :: "'w \<Rightarrow> nat option \<times> 'w"
  esp_netif_set_default_netif :: "nat \<Rightarrow> 'w \<Rightarrow> 'w"
  esp_event_handler_register :: "'w \<Rightarrow> esp_err_t \<times> 'w"
  esp_modem_new_dev :: "string \<Rightarrow> nat \<Rightarrow> 'w \<Rightarrow> nat option \<times> 'w"
  esp_modem_set_apn :: "nat \<Rightarrow> string \<Rightarrow> 'w \<Rightarrow> esp_err_t \<times> 'w"
  esp_modem_get_mode :: "nat \<Rightarrow> 'w \<Rightarrow> modem_mode"
  esp_modem_set_mode :: "nat \<Rightarrow> modem_mode \<Rightarrow> 'w \<Rightarrow> esp_err_t \<times> 'w"
  esp_modem_at :: "nat \<Rightarrow> string \<Rightarrow> int \<Rightarrow> 'w \<Rightarrow> (esp_err_t \<times> string option) \<times> 'w"
  esp_modem_command :: "nat \<Rightarrow> string \<Rightarrow> int \<Rightarrow> 'w \<Rightarrow> (esp_err_t \<times> string list) \<times> 'w"
  wait_ip_events :: "int option \<Rightarrow> 'w \<Rightarrow> ip_event list \<times> 'w"
  dns_setserver :: "nat \<Rightarrow> string \<Rightarrow> 'w \<Rightarrow> 'w"
  netif_get_dns :: "nat \<Rightarrow> dns_slot \<Rightarrow> 'w \<Rightarrow> u32 option"
  netif_set_dns :: "nat \<Rightarrow> dns_slot \<Rightarrow> string \<Rightarrow> 'w \<Rightarrow> 'w"

record modem_ue_info =
  mcc :: int
  mnc :: int
  tac :: u32
  cell_id :: u32
  valid :: bool

definition ue_zero :: modem_ue_info where
  "ue_zero = \<lparr>mcc = 0, mnc = 0, tac = 0, cell_id = 0, valid = False\<rparr>"

record at_acc =
  acc_buf :: "string option"
  acc_size :: nat
  acc_used :: nat

record modem_state =
  s_ppp_up :: bool
  s_ue_info :: modem_ue_info
  s_ue_valid :: bool
  s_ppp_netif :: "nat option"
  s_acc :: at_acc

record modem_ppp_config =
  dtr_io :: int
  rst_io :: int
  pwrkey_io :: int
  board_power_io :: int
  apn :: "string option"
  use_cmux :: bool

text \<open>A call returns, restarts the chip, or is ended by \<open>ESP_ERROR_CHECK\<close> or a write outside a buffer.\<close>

datatype modem_fault = Restart | Error_Check esp_err_t | Bad_Write

type_synonym 'a mres = "modem_fault + 'a"

section \<open>Events and power\<close>

definition on_ip_event :: "ip_event \<Rightarrow> modem_state \<Rightarrow> modem_state mres" where
  "on_ip_event ev s = (case ev of PPP_GOT_IP \<Rightarrow> Inr (s\<lparr>s_ppp_up := True\<rparr>)
     | PPP_LOST_IP \<Rightarrow> Inl Restart | OTHER_IP_EVENT \<Rightarrow> Inr s)"

fun ip_events :: "ip_event list \<Rightarrow> modem_state \<Rightarrow> modem_state mres" where
  "ip_events [] s = Inr s"
| "ip_events (ev # evs) s = (case on_ip_event ev s of Inl e \<Rightarrow> Inl e | Inr s \<Rightarrow> ip_events evs s)"

definition drive :: "'w modem_api \<Rightarrow> int \<Rightarrow> nat list \<Rightarrow> 'w \<Rightarrow> 'w" where
  "drive api io levels w =
    (if io \<ge> 0 then foldl (\<lambda>w l. gpio_set_level api io l w) (gpio_set_direction_output api io w) levels else w)"

definition hw_boot :: "'w modem_api \<Rightarrow> modem_ppp_config \<Rightarrow> 'w \<Rightarrow> 'w" where
  "hw_boot api c w =
    drive api (pwrkey_io c) [1, 0, 1] (drive api (dtr_io c) [0]
      (drive api (rst_io c) [0, 1, 0] (drive api (board_power_io c) [1] w)))"

section \<open>AT commands\<close>

text \<open>The subtraction is on \<open>size_t\<close>, 32 bits wide.\<close>

definition at_acc_cb :: "at_acc \<Rightarrow> string \<Rightarrow> at_acc option" where
  "at_acc_cb a data =
    (let room = (int (acc_size a) - int (acc_used a) - 1) mod 2 ^ 32;
         n = (if int (length data) < room then length data else nat room) in
     case acc_buf a of None \<Rightarrow> Some a
     | Some buf \<Rightarrow>
        if n > 0 then
          (case mem_write buf (acc_used a) (take n data) of None \<Rightarrow> None
           | Some buf \<Rightarrow>
              (let used = acc_used a + n in
               map_option (\<lambda>buf. a\<lparr>acc_buf := Some buf, acc_used := used\<rparr>) (mem_write buf used [NUL])))
        else Some a)"

fun at_acc_all :: "at_acc \<Rightarrow> string list \<Rightarrow> at_acc option" where
  "at_acc_all a [] = Some a"
| "at_acc_all a (d # ds) = (case at_acc_cb a d of None \<Rightarrow> None | Some a \<Rightarrow> at_acc_all a ds)"

definition cpsi_se_ve_valido :: "string \<Rightarrow> bool" where
  "cpsi_se_ve_valido s \<longleftrightarrow>
    (if s = [] then False
     else if strstr ''NO SERVICE'' s \<noteq> None then False
     else if strstr ''000-00'' s \<noteq> None then False
     else if strstr ''BAND0'' s \<noteq> None then False
     else if strstr '',0,0,'' s \<noteq> None \<or> strstr '',00000000,'' s \<noteq> None then False
     else True)"

definition cereg_registrado :: "string \<Rightarrow> bool" where
  "cereg_registrado rsp \<longleftrightarrow> strstr '',1'' rsp \<noteq> None \<or> strstr '',5'' rsp \<noteq> None"

definition AT_CR :: string where "AT_CR = [CHR 0x0D]"

text \<open>\<open>None\<close>: the loop does not end (it can only do so when \<open>poll_ms\<close> is positive or the modem registers).\<close>

partial_function (option) cereg_loop ::
  "'w modem_api \<Rightarrow> nat \<Rightarrow> int \<Rightarrow> int \<Rightarrow> int \<Rightarrow> string \<Rightarrow> 'w \<Rightarrow> (esp_err_t \<times> 'w) option" where
  "cereg_loop api dce timeout_ms poll_ms elapsed out w =
    (if elapsed < timeout_ms then
       (let ((err, o'), w) = esp_modem_at api dce (''AT+CEREG?'' @ AT_CR) 2000 w;
            out = (case o' of None \<Rightarrow> out | Some t \<Rightarrow> t) in
        if err = ESP_OK \<and> cereg_registrado out then Some (ESP_OK, w)
        else cereg_loop api dce timeout_ms poll_ms (elapsed + poll_ms) out w)
     else Some (ESP_ERR_TIMEOUT, w))"

definition esperar_cereg :: "'w modem_api \<Rightarrow> nat \<Rightarrow> int \<Rightarrow> int \<Rightarrow> 'w \<Rightarrow> (esp_err_t \<times> 'w) option" where
  "esperar_cereg api dce timeout_ms poll_ms w = cereg_loop api dce timeout_ms poll_ms 0 [] w"

text \<open>
  \<open>out\<close> is cleared before every query; \<open>last_err\<close> is the result of the last one. \<open>out_final\<close> receives
  the text cut to \<open>out_len - 1\<close> characters.
\<close>

fun cpsi_loop :: "'w modem_api \<Rightarrow> nat \<Rightarrow> nat \<Rightarrow> nat \<Rightarrow> esp_err_t \<Rightarrow> string \<Rightarrow> 'w \<Rightarrow> (esp_err_t \<times> string) \<times> 'w" where
  "cpsi_loop api dce out_len 0 last_err out w =
    ((if last_err = ESP_OK then ESP_FAIL else last_err, c_trunc out_len out), w)"
| "cpsi_loop api dce out_len (Suc intentos) last_err out w =
    (let ((last_err, o'), w) = esp_modem_at api dce (''AT+CPSI?'' @ AT_CR) 12000 w;
         out = (case o' of None \<Rightarrow> [] | Some t \<Rightarrow> t) in
     if last_err = ESP_OK \<and> cpsi_se_ve_valido out then ((ESP_OK, c_trunc out_len out), w)
     else cpsi_loop api dce out_len intentos last_err out w)"

definition cpsi_con_reintentos :: "'w modem_api \<Rightarrow> nat \<Rightarrow> nat \<Rightarrow> nat \<Rightarrow> 'w \<Rightarrow> (esp_err_t \<times> string) \<times> 'w" where
  "cpsi_con_reintentos api dce out_len intentos w = cpsi_loop api dce out_len intentos ESP_FAIL [] w"

definition cmd_with_cr :: "string \<Rightarrow> string" where
  "cmd_with_cr cmd = c_trunc 64 (if cmd \<noteq> [] \<and> last cmd = CHR 0x0D then cmd else cmd @ AT_CR)"

definition modem_send_at_and_log :: "'w modem_api \<Rightarrow> nat \<Rightarrow> string \<Rightarrow> int \<Rightarrow> 'w \<Rightarrow> esp_err_t \<times> 'w" where
  "modem_send_at_and_log api dce cmd timeout_ms w =
    (let (_, w) = esp_modem_set_mode api dce MODE_COMMAND w;
         ((err, _), w) = esp_modem_at api dce (cmd_with_cr cmd) timeout_ms w in (err, w))"

definition set_mode_if_needed :: "'w modem_api \<Rightarrow> nat \<Rightarrow> modem_mode \<Rightarrow> 'w \<Rightarrow> esp_err_t \<times> 'w" where
  "set_mode_if_needed api dce tgt w =
    (if esp_modem_get_mode api dce w = tgt then (ESP_OK, w) else esp_modem_set_mode api dce tgt w)"

section \<open>The \<open>+CPSI\<close> line\<close>

definition trim_ws :: "string \<Rightarrow> string" where
  "trim_ws s = rev (dropWhile is_c_space (rev (dropWhile is_c_space s)))"

text \<open>\<open>None\<close> is the \<open>return false\<close> inside the loop over the tokens.\<close>

function cpsi_tokens :: "nat \<Rightarrow> string \<Rightarrow> modem_ue_info \<Rightarrow> modem_ue_info option" where
  "cpsi_tokens tokenId s out = (case strtok (CHR '','') s of
     None \<Rightarrow> Some out
   | Some (tok, save) \<Rightarrow>
      (let tok = trim_ws tok in
       if tokenId = 2 then
         (if CHR ''-'' \<in> set tok then
            (let before = takeWhile (\<lambda>c. c \<noteq> CHR ''-'') tok; after = drop 1 (dropWhile (\<lambda>c. c \<noteq> CHR ''-'') tok) in
             cpsi_tokens (tokenId + 1) save (out\<lparr>mcc := atoi (trim_ws before), mnc := atoi (trim_ws after)\<rparr>))
          else None)
       else if tokenId = 3 then cpsi_tokens (tokenId + 1) save (out\<lparr>tac := strtoul tok\<rparr>)
       else if tokenId = 4 then Some (out\<lparr>cell_id := strtoul tok\<rparr>)
       else cpsi_tokens (tokenId + 1) save out))"
  by pat_completeness auto
termination
  by (relation "measure (\<lambda>(_, s, _). length s)") (auto dest: strtok_shorter)

declare cpsi_tokens.simps [simp del]

text \<open>The structure behind \<open>out\<close> when the result is true; no caller reads it after false.\<close>

definition parse_cpsi_line :: "string \<Rightarrow> modem_ue_info option" where
  "parse_cpsi_line line_in =
    (let buf = c_trunc 256 line_in;
         s = (case strstr ''+CPSI:'' buf of None \<Rightarrow> buf | Some pfx \<Rightarrow> drop 6 pfx) in
     case cpsi_tokens 0 s ue_zero of None \<Rightarrow> None
     | Some out \<Rightarrow>
        if mcc out < 100 \<or> mcc out > 999 then None
        else if mnc out < 0 \<or> mnc out > 999 then None
        else Some (out\<lparr>valid := True\<rparr>))"

definition modem_get_ue_info :: "modem_state \<Rightarrow> bool \<times> modem_ue_info" where
  "modem_get_ue_info s = (s_ue_valid s, s_ue_info s)"

definition netif_public_dns :: "'w modem_api \<Rightarrow> nat \<Rightarrow> 'w \<Rightarrow> 'w" where
  "netif_public_dns api n w = netif_set_dns api n DNS_BACKUP ''8.8.8.8'' (netif_set_dns api n DNS_MAIN ''1.1.1.1'' w)"

definition force_public_dns :: "'w modem_api \<Rightarrow> modem_state \<Rightarrow> 'w \<Rightarrow> 'w" where
  "force_public_dns api s w =
    (let w = dns_setserver api 1 ''8.8.8.8'' (dns_setserver api 0 ''1.1.1.1'' w) in
     case s_ppp_netif s of None \<Rightarrow> w | Some n \<Rightarrow> netif_public_dns api n w)"

section \<open>Geolocation\<close>

definition UL_BODY_MAX :: nat where "UL_BODY_MAX = 4096"

record ul_accum =
  ul_buf :: string
  ul_max :: int
  ul_len :: nat

definition ul_append :: "ul_accum \<Rightarrow> string \<Rightarrow> ul_accum option" where
  "ul_append acc data =
    (if data \<noteq> [] then
      (let room = ul_max acc - int (ul_len acc) - 1;
           n = (if int (length data) < room then int (length data) else room) in
       if n > 0 then
         (case mem_write (ul_buf acc) (ul_len acc) (take (nat n) data) of None \<Rightarrow> None
          | Some buf \<Rightarrow>
             (let len = ul_len acc + nat n in
              map_option (\<lambda>buf. acc\<lparr>ul_buf := buf, ul_len := len\<rparr>) (mem_write buf len [NUL])))
       else Some acc)
     else Some acc)"

fun ul_http_evt :: "http_event \<Rightarrow> ul_accum \<Rightarrow> ul_accum option" where
  "ul_http_evt (ON_DATA data) acc = ul_append acc data"
| "ul_http_evt _ acc = Some acc"

fun ul_events :: "http_event list \<Rightarrow> ul_accum \<Rightarrow> ul_accum option" where
  "ul_events [] acc = Some acc"
| "ul_events (e # es) acc = (case ul_http_evt e acc of None \<Rightarrow> None | Some acc \<Rightarrow> ul_events es acc)"

definition ul_accum0 :: ul_accum where
  "ul_accum0 = \<lparr>ul_buf = replicate UL_BODY_MAX NUL, ul_max = int UL_BODY_MAX, ul_len = 0\<rparr>"

text \<open>
  \<open>out\<close> is an array of \<open>outlen\<close> cells holding a C string; the result is the string stored there,
  or \<open>None\<close> for \<open>return false\<close>, which leaves it alone.
\<close>

abbreviation quote :: char where "quote \<equiv> CHR 0x22"

definition json_get_string :: "string \<Rightarrow> string \<Rightarrow> nat \<Rightarrow> string option" where
  "json_get_string json key outlen =
    (if outlen = 0 then None else
     let pat = c_trunc 64 (quote # key @ [quote, CHR '':'', quote]) in
     case strstr pat json of None \<Rightarrow> None
     | Some r \<Rightarrow>
        (let p = drop (length pat) r in
         if quote \<notin> set p then None else
         let n = length (takeWhile (\<lambda>c. c \<noteq> quote) p) in
         if n = 0 then None else
         let n = (if n \<ge> outlen then outlen - 1 else n) in Some (take n p)))"

definition ul_payload :: "string \<Rightarrow> modem_ue_info \<Rightarrow> string" where
  "ul_payload token u =
    (let k = (\<lambda>s. quote # s @ [quote, CHR '':'']) in
     ''{'' @ k ''token'' @ quote # token @ quote # '','' @ k ''radio'' @ quote # ''lte'' @ quote # '','' @
     k ''mcc'' @ fmt_d (mcc u) @ '','' @ k ''mnc'' @ fmt_d (mnc u) @ '','' @
     k ''cells'' @ ''[{'' @ k ''lac'' @ fmt_d (uint (tac u)) @ '','' @ k ''cid'' @ fmt_d (uint (cell_id u)) @ ''}],'' @
     k ''address'' @ ''2}'')"

text \<open>What one 200 reply gives: the new contents of \<open>city\<close> and \<open>state\<close>, and whether to return.\<close>

definition ul_address :: "string \<Rightarrow> string" where
  "ul_address body = (case strstr (quote # ''address'' @ [quote]) body of Some a \<Rightarrow> a
     | None \<Rightarrow> (case strstr (quote # ''address_detail'' @ [quote]) body of Some a \<Rightarrow> a | None \<Rightarrow> body))"

definition keep :: "string \<Rightarrow> string option \<Rightarrow> string" where
  "keep old r = (case r of None \<Rightarrow> old | Some s \<Rightarrow> s)"

definition ul_reply :: "string \<Rightarrow> nat \<Rightarrow> nat \<Rightarrow> string \<times> string \<Rightarrow> bool \<times> string \<times> string" where
  "ul_reply body city_len state_len cs =
    (let api_status = keep [] (json_get_string body ''status'' 8) in
     if \<not> strcasecmp_eq api_status ''ok'' then (False, cs)
     else
       (let addr = ul_address body;
            city = keep (fst cs) (json_get_string addr ''city'' city_len);
            state = keep (snd cs) (json_get_string addr ''state'' state_len) in
        (city \<noteq> [] \<or> state \<noteq> [], city, state)))"

definition UNWIRED_URL :: string where "UNWIRED_URL = ''https://us2.unwiredlabs.com/v2/process.php''"

fun ul_attempts :: "'w modem_api \<Rightarrow> 'w http_api \<Rightarrow> modem_state \<Rightarrow> string \<Rightarrow> nat \<Rightarrow> nat \<Rightarrow>
    nat \<Rightarrow> esp_err_t \<Rightarrow> string \<times> string \<Rightarrow> 'w \<Rightarrow> ((esp_err_t \<times> string \<times> string) \<times> 'w) mres" where
  "ul_attempts api http s payload city_len state_len 0 last_err cs w =
     Inr ((if last_err \<noteq> 0 then last_err else ESP_FAIL, cs), w)"
| "ul_attempts api http s payload city_len state_len (Suc n) last_err cs w =
    (case http_client_init http UNWIRED_URL (force_public_dns api s w) of
       (None, w) \<Rightarrow> ul_attempts api http s payload city_len state_len n last_err cs w
     | (Some cli, w) \<Rightarrow>
        (let w = http_set_post_field http cli payload (http_set_header http cli ''Content-Type'' ''application/json'' w);
             ((err, events), w) = http_perform http cli w;
             status = http_get_status_code http cli w;
             w = http_cleanup http cli w in
         case ul_events events ul_accum0 of None \<Rightarrow> Inl Bad_Write
         | Some acc \<Rightarrow>
            if err = ESP_OK \<and> status = 200 \<and> ul_len acc > 0 then
              (case ul_reply (cstr (ul_buf acc)) city_len state_len cs of
                 (True, cs) \<Rightarrow> Inr ((ESP_OK, cs), w)
               | (False, cs) \<Rightarrow> ul_attempts api http s payload city_len state_len n err cs w)
            else ul_attempts api http s payload city_len state_len n err cs w))"

text \<open>\<open>token\<close> is \<open>UNWIREDLABS_TOKEN\<close>; \<open>cs\<close> are the strings in \<open>city\<close> and \<open>state\<close> before the call.\<close>

definition modem_unwiredlabs_city_state :: "'w modem_api \<Rightarrow> 'w http_api \<Rightarrow> string \<Rightarrow> modem_state \<Rightarrow> nat \<Rightarrow> nat \<Rightarrow>
    string \<times> string \<Rightarrow> 'w \<Rightarrow> ((esp_err_t \<times> string \<times> string) \<times> 'w) mres" where
  "modem_unwiredlabs_city_state api http token s city_len state_len cs w =
    (let cs = (if city_len \<noteq> 0 then [] else fst cs, if state_len \<noteq> 0 then [] else snd cs) in
     if \<not> s_ue_valid s then Inr ((ESP_FAIL, cs), w)
     else if token = [] then Inr ((ESP_ERR_INVALID_ARG, cs), w)
     else
       (let payload = ul_payload token (s_ue_info s) in
        if length payload \<ge> 256 then Inr ((ESP_FAIL, cs), w)
        else ul_attempts api http s payload city_len state_len 5 ESP_FAIL cs w))"

section \<open>Start of PPP\<close>

definition update_ue :: "esp_err_t \<times> string \<Rightarrow> modem_state \<Rightarrow> modem_state" where
  "update_ue r s =
    (if fst r = ESP_OK then
       (case parse_cpsi_line (snd r) of
          Some info \<Rightarrow> if cpsi_se_ve_valido (snd r) then s\<lparr>s_ue_info := info, s_ue_valid := True\<rparr>
            else s\<lparr>s_ue_valid := False\<rparr>
        | None \<Rightarrow> s\<lparr>s_ue_valid := False\<rparr>)
     else s\<lparr>s_ue_valid := False\<rparr>)"

definition error_check :: "esp_err_t \<Rightarrow> 'a mres \<Rightarrow> 'a mres" where
  "error_check e k = (if e = ESP_OK then k else Inl (Error_Check e))"

text \<open>\<open>esp_modem_command\<close> with \<open>at_acc_cb\<close>.\<close>

definition at_command :: "'w modem_api \<Rightarrow> nat \<Rightarrow> string \<Rightarrow> modem_state \<Rightarrow> 'w \<Rightarrow> (esp_err_t \<times> modem_state \<times> 'w) mres" where
  "at_command api dce cmd s w =
    (let ((err, chunks), w) = esp_modem_command api dce (cmd @ AT_CR) 1000 w in
     case at_acc_all (s_acc s) chunks of None \<Rightarrow> Inl Bad_Write | Some a \<Rightarrow> Inr (err, s\<lparr>s_acc := a\<rparr>, w))"

definition at_acc_of :: "nat \<Rightarrow> at_acc" where
  "at_acc_of n = \<lparr>acc_buf = Some (replicate n NUL), acc_size = n, acc_used = 0\<rparr>"

definition dns_set :: "u32 option \<Rightarrow> bool" where
  "dns_set a \<longleftrightarrow> (case a of None \<Rightarrow> False | Some ip \<Rightarrow> ip \<noteq> 0)"

text \<open>
  Step 4 of the start: data mode, the wait for an address, and the DNS fallback. Without a positive timeout the wait
  ends only with an address (or a restart): \<open>None\<close> as the outer result is a wait that goes on for ever.
\<close>

definition ppp_connect :: "'w modem_api \<Rightarrow> modem_ppp_config \<Rightarrow> nat \<Rightarrow> nat \<Rightarrow> int \<Rightarrow> modem_state \<Rightarrow> 'w \<Rightarrow>
    (esp_err_t \<times> modem_state \<times> 'w) mres option" where
  "ppp_connect api cfg dce ppp timeout_ms s w =
    (let (mode_err, w) = set_mode_if_needed api dce (if use_cmux cfg then MODE_CMUX else MODE_DATA) w;
         (mode_err, w) = (if mode_err \<noteq> ESP_OK \<and> use_cmux cfg then set_mode_if_needed api dce MODE_DATA w
                          else (mode_err, w)) in
     if mode_err \<noteq> ESP_OK then Some (Inl (Error_Check mode_err)) else
     let (evs, w) = wait_ip_events api (if timeout_ms > 0 then Some timeout_ms else None) w in
     case ip_events evs s of Inl e \<Rightarrow> Some (Inl e)
     | Inr s \<Rightarrow>
        if \<not> s_ppp_up s then (if timeout_ms > 0 then Some (Inr (ESP_ERR_TIMEOUT, s, w)) else None)
        else
          (let dns_ok = dns_set (netif_get_dns api ppp DNS_MAIN w) \<or> dns_set (netif_get_dns api ppp DNS_BACKUP w) in
           Some (Inr (ESP_OK, s, if dns_ok then w else netif_public_dns api ppp w))))"

text \<open>
  \<open>None\<close> as the outer result: the wait for registration, started with 15000 and 500 milliseconds, or the wait for
  an address does not end.
\<close>

definition modem_ppp_start_blocking :: "'w modem_api \<Rightarrow> modem_ppp_config \<Rightarrow> int \<Rightarrow> modem_state \<Rightarrow> 'w \<Rightarrow>
    (esp_err_t \<times> modem_state \<times> 'w) mres option" where
  "modem_ppp_start_blocking api cfg timeout_ms s w =
    (case apn cfg of None \<Rightarrow> Some (Inr (ESP_ERR_INVALID_ARG, s, w)) | Some ap \<Rightarrow>
     (case esp_netif_new api w of (None, w) \<Rightarrow> Some (Inr (ESP_FAIL, s, w)) | (Some ppp, w) \<Rightarrow>
      (let s = s\<lparr>s_ppp_netif := Some ppp\<rparr>;
           w = esp_netif_set_default_netif api ppp w;
           (reg, w) = esp_event_handler_register api w in
       if reg \<noteq> ESP_OK then Some (Inl (Error_Check reg)) else
       (case esp_modem_new_dev api ap ppp (hw_boot api cfg w) of (None, w) \<Rightarrow> Some (Inr (ESP_FAIL, s, w)) | (Some dce, w) \<Rightarrow>
        (let (err, w) = esp_modem_set_apn api dce ap w in
         if err \<noteq> ESP_OK then Some (Inl (Error_Check err)) else
         let (err, w) = set_mode_if_needed api dce MODE_COMMAND w in
         if err \<noteq> ESP_OK then Some (Inl (Error_Check err)) else
         let (_, w) = modem_send_at_and_log api dce ''AT'' 3000 w;
             (_, w) = modem_send_at_and_log api dce ''ATE0'' 3000 w;
             (_, w) = modem_send_at_and_log api dce ''AT+CMEE=2'' 3000 w in
         (case esperar_cereg api dce 15000 500 w of None \<Rightarrow> None | Some (_, w) \<Rightarrow>
          (let (cpsi, w) = cpsi_con_reintentos api dce 128 3 w;
               s = (update_ue cpsi s)\<lparr>s_acc := at_acc_of 64\<rparr> in
           case at_command api dce ''AT'' s w of Inl e \<Rightarrow> Some (Inl e) | Inr (at_ok, s, w) \<Rightarrow>
             if at_ok \<noteq> ESP_OK then Some (Inr (at_ok, s, w)) else
             (case at_command api dce ''ATE0'' s w of Inl e \<Rightarrow> Some (Inl e) | Inr (_, s, w) \<Rightarrow>
                ppp_connect api cfg dce ppp timeout_ms s w))))))))"

end
