(* ===== verification/Sensor_Task.thy ===== *)
theory Sensor_Task
  imports Sensors Firebase Modem
begin

text \<open>
  The application (\<open>src/main/main.c\<close>): the measuring task, which reads the sensors every minute,
  averages five readings, uploads the average under a time-stamped key, bounds the number of
  stored entries and renews the token, and \<open>app_main\<close>, which starts everything. The clock, the
  timer, NVS and the constants of \<open>Privado.h\<close> are outside the repository: the record \<open>board\<close>
  collects them with the drivers of the components, all over one world \<open>'w\<close>.
\<close>

section \<open>Time\<close>

record tm =
  tm_year :: nat
  tm_mon :: nat
  tm_mday :: nat
  tm_hour :: nat
  tm_min :: nat
  tm_sec :: nat

text \<open>\<open>tm_year\<close> is the full year and \<open>tm_mon\<close> counts from 1, as \<open>strftime\<close> prints them.\<close>

definition two :: "nat \<Rightarrow> string" where
  "two n = pad_left 2 (dec n)"

definition strftime_time :: "tm \<Rightarrow> string" where
  "strftime_time t = two (tm_hour t) @ '':'' @ two (tm_min t) @ '':'' @ two (tm_sec t)"

definition strftime_date :: "tm \<Rightarrow> string" where
  "strftime_date t = two (tm_mday t) @ ''-'' @ two (tm_mon t) @ ''-'' @ pad_left 4 (dec (tm_year t))"

definition strftime_key :: "tm \<Rightarrow> string" where
  "strftime_key t = two (tm_year t mod 100) @ ''-'' @ two (tm_mon t) @ ''-'' @ two (tm_mday t) @ ''_'' @
     two (tm_hour t) @ ''-'' @ two (tm_min t) @ ''-'' @ two (tm_sec t)"

definition minutes_to_us :: "int \<Rightarrow> int" where
  "minutes_to_us m = m * 60 * 1000000"

section \<open>Environment and state\<close>

record 'w board =
  b_i2c :: "'w i2c_driver"
  b_http :: "'w http_api"
  b_modem :: "'w modem_api"
  b_localtime :: "'w \<Rightarrow> tm \<times> 'w"
  b_time :: "'w \<Rightarrow> int \<times> 'w"
  b_timer_us :: "'w \<Rightarrow> int \<times> 'w"
  b_nvs_init :: "'w \<Rightarrow> esp_err_t \<times> 'w"
  b_nvs_erase :: "'w \<Rightarrow> esp_err_t \<times> 'w"
  b_netif_init :: "'w \<Rightarrow> esp_err_t \<times> 'w"
  b_event_loop :: "'w \<Rightarrow> esp_err_t \<times> 'w"
  b_sntp_start :: "'w \<Rightarrow> 'w"
  b_wifi_stop :: "'w \<Rightarrow> 'w"
  b_wifi_deinit :: "'w \<Rightarrow> 'w"
  b_netif_from_ifkey :: "string \<Rightarrow> 'w \<Rightarrow> nat option \<times> 'w"
  b_netif_destroy :: "nat \<Rightarrow> 'w \<Rightarrow> 'w"
  b_privado :: privado
  b_device_id :: string
  b_ul_token :: string

record task =
  t_data :: SensorData
  inicio_str :: string
  first_send :: bool
  sample_count :: nat
  sum_pm1p0 :: rat
  sum_pm2p5 :: rat
  sum_pm4p0 :: rat
  sum_pm10p0 :: rat
  sum_voc :: rat
  sum_nox :: rat
  sum_avg_temp :: rat
  sum_avg_hum :: rat
  sum_co2 :: u32
  last_fecha_str :: string
  next_refresh_us :: int
  avg_size :: rat
  approx_count :: u32
  t_shim :: shim

definition SAMPLES_PER_BATCH :: nat where "SAMPLES_PER_BATCH = 5"

definition REFRESH_US :: int where "REFRESH_US = minutes_to_us 50"

definition HISTORY :: string where "HISTORY = ''/historial_mediciones''"

section \<open>One batch\<close>

text \<open>A \<open>float\<close> added to a \<open>double\<close> accumulator.\<close>

definition accumulate :: "SensorData \<Rightarrow> task \<Rightarrow> task" where
  "accumulate d t = t\<lparr>sample_count := sample_count t + 1,
     sum_pm1p0 := rnd_double (sum_pm1p0 t + pm1p0 d), sum_pm2p5 := rnd_double (sum_pm2p5 t + pm2p5 d),
     sum_pm4p0 := rnd_double (sum_pm4p0 t + pm4p0 d), sum_pm10p0 := rnd_double (sum_pm10p0 t + pm10p0 d),
     sum_voc := rnd_double (sum_voc t + voc d), sum_nox := rnd_double (sum_nox t + nox d),
     sum_avg_temp := rnd_double (sum_avg_temp t + avg_temp d), sum_avg_hum := rnd_double (sum_avg_hum t + avg_hum d),
     sum_co2 := sum_co2 t + ucast (co2 d)\<rparr>"

definition mean :: "rat \<Rightarrow> nat \<Rightarrow> rat" where
  "mean acc n = rnd_float (rnd_double (acc / of_nat n))"

definition average :: "task \<Rightarrow> SensorData" where
  "average t = (let n = sample_count t; temp = mean (sum_avg_temp t) n; hum = mean (sum_avg_hum t) n in
     \<lparr>co2 = ucast (sum_co2 t div word_of_nat n), scd_temp = temp, scd_hum = hum,
      pm1p0 = mean (sum_pm1p0 t) n, pm2p5 = mean (sum_pm2p5 t) n, pm4p0 = mean (sum_pm4p0 t) n,
      pm10p0 = mean (sum_pm10p0 t) n, voc = mean (sum_voc t) n, nox = mean (sum_nox t) n,
      sen_temp = temp, sen_hum = hum, avg_temp = temp, avg_hum = hum\<rparr>)"

definition reset_sums :: "task \<Rightarrow> task" where
  "reset_sums t = t\<lparr>sample_count := 0, sum_pm1p0 := 0, sum_pm2p5 := 0, sum_pm4p0 := 0, sum_pm10p0 := 0,
     sum_voc := 0, sum_nox := 0, sum_avg_temp := 0, sum_avg_hum := 0, sum_co2 := 0\<rparr>"

text \<open>
  The payload: the first message has everything, the first of a day the date, the others only
  the time. \<open>last_fecha_str\<close> and \<open>fecha_actual\<close> are arrays of 20.
\<close>

definition batch_json :: "string \<Rightarrow> sensors_state \<Rightarrow> SensorData \<Rightarrow> string \<Rightarrow> string \<Rightarrow> task \<Rightarrow> string \<times> task" where
  "batch_json device_id s avg hora_envio fecha_actual t =
    (if first_send t then
       (case sensors_format_json device_id s avg hora_envio fecha_actual (inicio_str t) 384 of
          None \<Rightarrow> [] | Some json \<Rightarrow> json,
        t\<lparr>last_fecha_str := c_trunc 20 fecha_actual, first_send := False\<rparr>)
     else if c_trunc 21 (last_fecha_str t) \<noteq> c_trunc 21 fecha_actual then
       (c_trunc 384 (json_values avg @ json_str ''fecha'' fecha_actual @ '','' @ json_str ''hora'' hora_envio @ ''}''),
        t\<lparr>last_fecha_str := c_trunc 20 fecha_actual\<rparr>)
     else (c_trunc 384 (json_values avg @ json_str ''hora'' hora_envio @ ''}''), t))"

definition path_put :: "tm \<Rightarrow> string" where
  "path_put now = c_trunc 64 (HISTORY @ ''/'' @ c_trunc 20 (strftime_key now))"

definition MAX_BYTES :: rat where "MAX_BYTES = 10485760"

definition next_avg_size :: "rat \<Rightarrow> nat \<Rightarrow> rat" where
  "next_avg_size a item_len =
     rnd_double (rnd_double (a * rnd_double (9 / 10)) + rnd_double (rnd_double (1 / 10) * of_nat item_len))"

definition max_items :: "rat \<Rightarrow> u32" where
  "max_items a = word_of_int \<lfloor>rnd_double (MAX_BYTES / (if a > 1 then a else 1))\<rfloor>"

text \<open>The retention policy after an upload of \<open>item_len\<close> characters.\<close>

definition retention :: "'w board \<Rightarrow> nat \<Rightarrow> task \<Rightarrow> 'w \<Rightarrow> (task \<times> 'w) res" where
  "retention b item_len t w =
    (let t = t\<lparr>avg_size := next_avg_size (avg_size t) item_len, approx_count := approx_count t + 1\<rparr>;
         high_water = max_items (avg_size t) + 50 in
     if approx_count t > high_water then
       bind (firebase_trim_oldest_batch (b_http b) HISTORY 50 (t_shim t) w) (\<lambda>(deleted, g, w).
       let t = t\<lparr>t_shim := g\<rparr> in
       Ok (if deleted > 0 then
             t\<lparr>approx_count := (if approx_count t > word_of_int deleted then approx_count t - word_of_int deleted else 0)\<rparr>
           else t, w))
     else Ok (t, w))"

definition send_batch :: "'w board \<Rightarrow> sensors_state \<Rightarrow> task \<Rightarrow> 'w \<Rightarrow> (task \<times> 'w) res" where
  "send_batch b s t w =
    (let (now, w) = b_localtime b w;
         hora_envio = c_trunc 16 (strftime_time now);
         fecha_actual = c_trunc 20 (strftime_date now);
         (json, t) = batch_json (b_device_id b) s (average t) hora_envio fecha_actual t in
     bind (firebase_putData (b_http b) (path_put now) json (t_shim t) w) (\<lambda>(_, g, w).
     bind (retention b (length json) (t\<lparr>t_shim := g\<rparr>) w) (\<lambda>(t, w).
     Ok (reset_sums t, w))))"

section \<open>The task\<close>

definition refresh_step :: "'w board \<Rightarrow> task \<Rightarrow> 'w \<Rightarrow> (task \<times> 'w) res" where
  "refresh_step b t w =
    (let (now_us, w) = b_timer_us b w in
     if now_us \<ge> next_refresh_us t then
       bind (firebase_refresh_token (b_http b) (t_shim t) w) (\<lambda>(_, g, w).
       Ok (t\<lparr>t_shim := g, next_refresh_us := now_us + REFRESH_US\<rparr>, w))
     else Ok (t, w))"

definition sensor_task_step :: "'w board \<Rightarrow> sensors_state \<Rightarrow> task \<Rightarrow> 'w \<Rightarrow> (task \<times> 'w) res" where
  "sensor_task_step b s t w =
    (let (err, d, w) = sensors_read (b_i2c b) s (Some (t_data t)) w;
         t = (case d of None \<Rightarrow> t | Some d \<Rightarrow> t\<lparr>t_data := d\<rparr>);
         t = (if err = ESP_OK then accumulate (t_data t) t else t) in
     bind (if sample_count t \<ge> SAMPLES_PER_BATCH then send_batch b s t w else Ok (t, w)) (\<lambda>(t, w).
     refresh_step b t w))"

text \<open>
  The part before the loop; \<open>None\<close>: \<open>firebase_init\<close> failed and the task deletes itself. \<open>data0\<close> and
  \<open>uninitialised\<close> are the contents of the uninitialised \<open>SensorData\<close> and of the fresh receive buffer.
\<close>

definition sensor_task_start ::
  "'w board \<Rightarrow> SensorData \<Rightarrow> string \<Rightarrow> shim \<Rightarrow> 'w \<Rightarrow> (task option \<times> 'w) res" where
  "sensor_task_start b data0 uninitialised g w =
    (let (start, w) = b_localtime b w in
     bind (firebase_init (b_http b) (b_privado b) uninitialised g w) (\<lambda>(r, g, w).
     if r \<noteq> 0 then Ok (None, w) else
     bind (firebase_delete (b_http b) HISTORY g w) (\<lambda>(_, g, w).
     let (now_us, w) = b_timer_us b w in
     Ok (Some \<lparr>t_data = data0, inicio_str = c_trunc 20 (strftime_time start), first_send = True, sample_count = 0,
       sum_pm1p0 = 0, sum_pm2p5 = 0, sum_pm4p0 = 0, sum_pm10p0 = 0, sum_voc = 0, sum_nox = 0, sum_avg_temp = 0,
       sum_avg_hum = 0, sum_co2 = 0, last_fecha_str = [], next_refresh_us = now_us + REFRESH_US, avg_size = 256,
       approx_count = 0, t_shim = g\<rparr>, w))))"

text \<open>The states at the head of the loop of \<open>sensor_task\<close>, with the successful readings since the start.\<close>

inductive task_run :: "'w board \<Rightarrow> sensors_state \<Rightarrow> SensorData list \<Rightarrow> task \<Rightarrow> 'w \<Rightarrow> bool"
  for b :: "'w board" and s :: sensors_state where
  start: "sensor_task_start b data0 u g w = Ok (Some t, w') \<Longrightarrow> task_run b s [] t w'"
| reading: "task_run b s rs t w \<Longrightarrow> sensors_read (b_i2c b) s (Some (t_data t)) w = (ESP_OK, Some d, w1) \<Longrightarrow>
    sensor_task_step b s t w = Ok (t', w') \<Longrightarrow> task_run b s (rs @ [d]) t' w'"
| failed: "task_run b s rs t w \<Longrightarrow> sensors_read (b_i2c b) s (Some (t_data t)) w = (err, d, w1) \<Longrightarrow> err \<noteq> ESP_OK \<Longrightarrow>
    sensor_task_step b s t w = Ok (t', w') \<Longrightarrow> task_run b s rs t' w'"

section \<open>Start of the application\<close>

definition hyphen :: "char \<Rightarrow> char" where
  "hyphen c = (if c = CHR '','' \<or> c = CHR '';'' \<or> c = CHR ''|'' then CHR ''-'' else c)"

definition build_city_hyphen :: "nat \<Rightarrow> string \<Rightarrow> string \<Rightarrow> string option" where
  "build_city_hyphen dstlen city state =
    (if dstlen = 0 then None else
     let c = (if city \<noteq> [] then city else ''----'') in
     Some (map hyphen (c_trunc dstlen (if state \<noteq> [] then c @ ''-'' @ state else c))))"

text \<open>\<open>init_sntp_and_time\<close>: at most 100 looks at the clock.\<close>

fun wait_for_time :: "'w board \<Rightarrow> nat \<Rightarrow> 'w \<Rightarrow> 'w" where
  "wait_for_time b 0 w = w"
| "wait_for_time b (Suc n) w = (let (now, w) = b_time b w in if now > 1609459200 then w else wait_for_time b n w)"

definition init_sntp_and_time :: "'w board \<Rightarrow> 'w \<Rightarrow> 'w" where
  "init_sntp_and_time b w = wait_for_time b 100 (b_sntp_start b w)"

definition ESP_ERR_NVS_NO_FREE_PAGES :: esp_err_t where "ESP_ERR_NVS_NO_FREE_PAGES = 0x110d"
definition ESP_ERR_NVS_NEW_VERSION_FOUND :: esp_err_t where "ESP_ERR_NVS_NEW_VERSION_FOUND = 0x1110"

definition nvs_start :: "'w board \<Rightarrow> 'w \<Rightarrow> 'w mres" where
  "nvs_start b w =
    (let (ret, w) = b_nvs_init b w in
     if ret = ESP_ERR_NVS_NO_FREE_PAGES \<or> ret = ESP_ERR_NVS_NEW_VERSION_FOUND then
       (let (e, w) = b_nvs_erase b w in error_check e (let (e, w) = b_nvs_init b w in error_check e (Inr w)))
     else Inr w)"

text \<open>\<open>wifi_hard_off\<close>: the results of \<open>esp_wifi_stop\<close> and \<open>esp_wifi_deinit\<close> are ignored.\<close>

definition destroy_netif :: "'w board \<Rightarrow> string \<Rightarrow> 'w \<Rightarrow> 'w" where
  "destroy_netif b ifkey w =
    (let (netif, w) = b_netif_from_ifkey b ifkey w in case netif of None \<Rightarrow> w | Some n \<Rightarrow> b_netif_destroy b n w)"

definition wifi_hard_off :: "'w board \<Rightarrow> 'w \<Rightarrow> 'w" where
  "wifi_hard_off b w =
    destroy_netif b ''WIFI_AP_DEF'' (destroy_netif b ''WIFI_STA_DEF'' (b_wifi_deinit b (b_wifi_stop b w)))"

definition the_config :: modem_ppp_config where
  "the_config = \<lparr>dtr_io = 25, rst_io = 5, pwrkey_io = 4, board_power_io = 12,
     apn = Some ''internet.itelcel.com'', use_cmux = False\<rparr>"

text \<open>The city that ends up in the sensor component; \<open>Inl\<close> is a fault of the geolocation request.\<close>

definition locate :: "'w board \<Rightarrow> modem_state \<Rightarrow> sensors_state \<Rightarrow> 'w \<Rightarrow> (sensors_state \<times> 'w) mres" where
  "locate b m s w =
    (if b_ul_token b \<noteq> [] then
       (case modem_unwiredlabs_city_state (b_modem b) (b_http b) (b_ul_token b) m 64 64 ([], []) w of
          Inl e \<Rightarrow> Inl e
        | Inr ((err, city, state), w) \<Rightarrow>
            Inr (sensors_set_city_state (if err = ESP_OK then build_city_hyphen 64 city state else Some ''----'') s, w))
     else Inr (sensors_set_city_state (Some ''----'') s, w))"

text \<open>
  \<open>app_main\<close> up to \<open>xTaskCreate\<close>: the sensor state and whether the task is created. \<open>None\<close>: the start of
  the modem does not return.
\<close>

definition app_main :: "'w board \<Rightarrow> modem_state \<Rightarrow> sensors_state \<Rightarrow> 'w \<Rightarrow> (bool \<times> sensors_state \<times> 'w) mres option" where
  "app_main b m s w =
    (case nvs_start b w of Inl e \<Rightarrow> Some (Inl e) | Inr w \<Rightarrow>
     (let (e, w) = b_netif_init b w in
      if e \<noteq> ESP_OK then Some (Inl (Error_Check e)) else
      let (e, w) = b_event_loop b w in
      if e \<noteq> ESP_OK then Some (Inl (Error_Check e)) else
      (case modem_ppp_start_blocking (b_modem b) the_config 150000 m (wifi_hard_off b w) of
         None \<Rightarrow> None
       | Some (Inl f) \<Rightarrow> Some (Inl f)
       | Some (Inr (mret, m, w)) \<Rightarrow>
           if mret \<noteq> ESP_OK then Some (Inl Restart) else
           Some (case locate b m s (init_sntp_and_time b w) of Inl f \<Rightarrow> Inl f
             | Inr (s, w) \<Rightarrow>
                (let (sret, s, w) = sensors_init_all (b_i2c b) s w in Inr (sret = ESP_OK, s, w))))))"

end
