(* ===== verification/Firebase_Props.thy ===== *)
theory Firebase_Props
  imports Firebase
begin

text \<open>
  Properties of the Firebase client: the receive buffer as an instance of \<open>chunk_buffer\<close>, bounded
  retries, the locale \<open>io_invariant\<close> that carries an invariant through every operation of
  \<open>FirebaseApp\<close> and \<open>RTDB\<close> with its two instances, the token service, and trimming.
\<close>

section \<open>The receive buffer keeps its bounds\<close>

definition recv_ok :: "recv \<Rightarrow> bool" where
  "recv_ok r \<longleftrightarrow> length (fst r) = HTTP_RECV_BUFFER_SIZE \<and> snd r < HTTP_RECV_BUFFER_SIZE"

definition recv_open :: "recv \<Rightarrow> bool" where
  "recv_open r \<longleftrightarrow> recv_ok r \<and> fst r ! snd r = NUL"

definition recv_content :: "recv \<Rightarrow> string" where
  "recv_content r = take (snd r) (fst r)"

lemma mem_write_one: "i < length buf \<Longrightarrow> mem_write buf i [c] = Some (buf[i := c])"
  by (simp add: mem_write_def upd_conv_take_nth_drop)

lemma recv_append_eq:
  assumes "recv_ok r"
  shows "\<exists>buf. recv_append r d = Some (buf, min (HTTP_RECV_BUFFER_SIZE - 1) (snd r + length d)) \<and>
    length buf = HTTP_RECV_BUFFER_SIZE \<and>
    take (min (HTTP_RECV_BUFFER_SIZE - 1) (snd r + length d)) buf =
      take (HTTP_RECV_BUFFER_SIZE - 1) (recv_content r @ d) \<and>
    (d \<noteq> [] \<and> snd r < HTTP_RECV_BUFFER_SIZE - 1 \<longrightarrow>
       buf ! min (HTTP_RECV_BUFFER_SIZE - 1) (snd r + length d) = NUL) \<and>
    (d = [] \<or> snd r = HTTP_RECV_BUFFER_SIZE - 1 \<longrightarrow> buf = fst r)"
proof -
  obtain u n where r: "r = (u, n)" by force
  have u: "length u = 16384" "n < 16384" using assms by (simp_all add: recv_ok_def HTTP_RECV_BUFFER_SIZE_def r)
  show ?thesis
  proof (cases "d \<noteq> [] \<and> n < 16383")
    case False
    then show ?thesis using u
      by (auto simp: r recv_append_def HTTP_RECV_BUFFER_SIZE_def recv_content_def min_def)
  next
    case True
    define t where "t = min (length d) (16383 - n)"
    have t: "(if int (length d) < int 16383 - int n then length d else nat (int 16383 - int n)) = t"
      using True by (auto simp: t_def min_def)
    obtain b where b: "mem_write u n (take t d) = Some b"
    proof -
      have "n + length (take t d) \<le> length u" using u by (auto simp: t_def min_def)
      from mem_write_in_bounds [OF this] that show thesis by blast
    qed
    have lb: "length b = 16384" using mem_write_length [OF b] u by simp
    have lt: "length (take t d) = t" by (simp add: t_def)
    have tb: "take (n + t) b = take n u @ take t d"
      using mem_write_take [OF b] unfolding lt .
    have nt: "n + t < length b" "n + t = min 16383 (n + length d)" using lb True by (auto simp: t_def)
    have "recv_append r d = Some (b[n + t := NUL], n + t)"
      using True t b nt(1)
      by (simp add: r recv_append_def HTTP_RECV_BUFFER_SIZE_def Let_def mem_write_one)
    moreover have "take (n + t) b = take 16383 (take n u @ d)"
      unfolding tb using u(2) True by (auto simp: t_def min_def u)
    ultimately show ?thesis using nt lb True
      by (simp add: HTTP_RECV_BUFFER_SIZE_def recv_content_def r)
  qed
qed

interpretation http_recv: chunk_buffer recv_append recv_content "\<lambda>_. HTTP_RECV_BUFFER_SIZE - 1" recv_open
proof
  fix r s' :: recv and d :: string
  assume o: "recv_open r"
  then have ok: "recv_ok r" by (simp add: recv_open_def)
  obtain buf where buf: "recv_append r d = Some (buf, min (HTTP_RECV_BUFFER_SIZE - 1) (snd r + length d))"
    "length buf = HTTP_RECV_BUFFER_SIZE"
    "take (min (HTTP_RECV_BUFFER_SIZE - 1) (snd r + length d)) buf =
      take (HTTP_RECV_BUFFER_SIZE - 1) (recv_content r @ d)"
    "d \<noteq> [] \<and> snd r < HTTP_RECV_BUFFER_SIZE - 1 \<longrightarrow> buf ! min (HTTP_RECV_BUFFER_SIZE - 1) (snd r + length d) = NUL"
    "d = [] \<or> snd r = HTTP_RECV_BUFFER_SIZE - 1 \<longrightarrow> buf = fst r"
    using recv_append_eq [OF ok] by blast
  then show "\<exists>s'. recv_append r d = Some s'" by blast
  assume s: "recv_append r d = Some s'"
  show "recv_content s' = take (HTTP_RECV_BUFFER_SIZE - 1) (recv_content r @ d)"
    using s buf by (auto simp: recv_content_def [of s'])
  have n: "snd r \<le> HTTP_RECV_BUFFER_SIZE - 1" using ok by (simp add: recv_ok_def HTTP_RECV_BUFFER_SIZE_def)
  show "recv_open s'"
  proof (cases "d = [] \<or> snd r = HTTP_RECV_BUFFER_SIZE - 1")
    case True
    then have "s' = r" using s buf n by (cases r) auto
    with o show ?thesis by simp
  next
    case False
    with s buf n show ?thesis by (auto simp: recv_open_def recv_ok_def HTTP_RECV_BUFFER_SIZE_def)
  qed
qed (auto simp: recv_open_def recv_ok_def recv_content_def HTTP_RECV_BUFFER_SIZE_def)

definition mid_reply :: "http_event \<Rightarrow> bool" where
  "mid_reply e \<longleftrightarrow> e \<noteq> ON_CONNECTED \<and> e \<noteq> ON_FINISH"

lemma handle_events_append_all:
  "\<forall>e \<in> set es. mid_reply e \<Longrightarrow> handle_events es r = http_recv.append_all r (concat (map data_of es))"
proof (induction es arbitrary: r)
  case (Cons e es)
  then show ?case by (cases e) (auto simp: mid_reply_def split: option.splits)
qed simp

lemma handle_events_append: "handle_events (es @ fs) r =
    (case handle_events es r of None \<Rightarrow> None | Some r \<Rightarrow> handle_events fs r)"
  by (induction es arbitrary: r) (auto split: option.splits)

lemma recv_clear_open: "recv_ok r \<Longrightarrow> \<exists>b. recv_clear r = Some (b, 0) \<and> recv_open (b, 0) \<and>
    b = replicate HTTP_RECV_BUFFER_SIZE NUL"
  by (auto simp: recv_clear_def mem_write_def recv_ok_def recv_open_def HTTP_RECV_BUFFER_SIZE_def)

lemma cstr_cut: "cstr (s @ NUL # t) = cstr s"
  by (induction s) (simp_all add: cstr_def)

lemma cstr_open:
  assumes "recv_open r"
  shows "NUL \<in> set (fst r) \<and> cstr (fst r) = cstr (recv_content r)"
proof -
  have l: "snd r < length (fst r)" "fst r ! snd r = NUL"
    using assms by (simp_all add: recv_open_def recv_ok_def)
  have "fst r = recv_content r @ NUL # drop (Suc (snd r)) (fst r)"
    using id_take_nth_drop [OF l(1)] by (simp add: recv_content_def l(2))
  then have "cstr (fst r) = cstr (recv_content r)" by (metis cstr_cut)
  with nth_mem [OF l(1)] l(2) show ?thesis by simp
qed

lemma handle_reply:
  assumes "recv_ok r" "\<forall>e \<in> set es. mid_reply e"
  shows "\<exists>buf. handle_events (ON_CONNECTED # es @ [ON_FINISH]) r = Some (buf, 0) \<and>
    length buf = HTTP_RECV_BUFFER_SIZE \<and> NUL \<in> set buf \<and>
    cstr buf = cstr (take (HTTP_RECV_BUFFER_SIZE - 1) (concat (concat (map data_of es))))"
proof -
  obtain b where b: "recv_clear r = Some (b, 0)" "recv_open (b, 0)" using recv_clear_open [OF assms(1)] by blast
  obtain r' where r': "handle_events es (b, 0) = Some r'" "recv_open r'"
    "recv_content r' = take (HTTP_RECV_BUFFER_SIZE - 1) (recv_content (b, 0) @ concat (concat (map data_of es)))"
    using http_recv.append_all_content [OF b(2)] handle_events_append_all [OF assms(2)] by metis
  from r' have "recv_content r' = take (HTTP_RECV_BUFFER_SIZE - 1) (concat (concat (map data_of es)))"
    by (simp add: recv_content_def [of "(b, 0)"])
  with cstr_open [OF r'(2)] r'(1,2) b(1) show ?thesis
    by (auto simp: handle_events_append recv_open_def recv_ok_def)
qed

text \<open>
  C20. A reply that arrives in any number of data events, between the connect event and the finish event,
  is stored without a write outside \<open>local_response_buffer\<close>: afterwards the buffer holds, as a C string, the
  concatenation of the chunks cut to 16383 characters, and \<open>output_len\<close> is 0 again for the next reply.
\<close>

theorem reply_is_received_up_to_capacity:
  assumes "recv_ok r" "\<forall>e \<in> set es. mid_reply e"
  shows "\<exists>buf. handle_events (ON_CONNECTED # es @ [ON_FINISH]) r = Some (buf, 0) \<and>
    length buf = HTTP_RECV_BUFFER_SIZE \<and> NUL \<in> set buf \<and>
    cstr buf = cstr (take (HTTP_RECV_BUFFER_SIZE - 1) (concat (concat (map data_of es))))"
  using assms by (rule handle_reply)

lemma recv_append_ok:
  assumes "recv_ok r"
  shows "\<exists>r'. recv_append r d = Some r' \<and> recv_ok r' \<and> (NUL \<in> set (fst r) \<longrightarrow> NUL \<in> set (fst r'))"
proof -
  let ?n = "min (HTTP_RECV_BUFFER_SIZE - 1) (snd r + length d)"
  obtain buf where b: "recv_append r d = Some (buf, ?n)" "length buf = HTTP_RECV_BUFFER_SIZE"
    and t: "d \<noteq> [] \<and> snd r < HTTP_RECV_BUFFER_SIZE - 1 \<longrightarrow> buf ! ?n = NUL"
    and f: "d = [] \<or> snd r = HTTP_RECV_BUFFER_SIZE - 1 \<longrightarrow> buf = fst r"
    using recv_append_eq [OF assms, of d] by blast
  have n: "?n < length buf" using b(2) by (simp add: HTTP_RECV_BUFFER_SIZE_def)
  have "snd r \<le> HTTP_RECV_BUFFER_SIZE - 1" using assms by (simp add: recv_ok_def HTTP_RECV_BUFFER_SIZE_def)
  with t f nth_mem [OF n] have "NUL \<in> set (fst r) \<longrightarrow> NUL \<in> set buf" by (metis le_neq_implies_less)
  with b n show ?thesis by (simp add: recv_ok_def)
qed

lemma handle_events_ok:
  "recv_ok r \<Longrightarrow> \<exists>r'. handle_events es r = Some r' \<and> recv_ok r' \<and> (NUL \<in> set (fst r) \<longrightarrow> NUL \<in> set (fst r'))"
proof (induction es arbitrary: r)
  case (Cons e es)
  have "\<exists>r'. http_event_handler e r = Some r' \<and> recv_ok r' \<and> (NUL \<in> set (fst r) \<longrightarrow> NUL \<in> set (fst r'))"
  proof (cases e)
    case (ON_DATA d)
    with recv_append_ok [OF Cons.prems] show ?thesis by simp
  qed (use recv_clear_open [OF Cons.prems] Cons.prems in
      \<open>auto simp: recv_ok_def recv_open_def HTTP_RECV_BUFFER_SIZE_def\<close>)
  with Cons.IH show ?case by fastforce
qed simp


section \<open>Requests\<close>

definition app_ok :: "FirebaseApp \<Rightarrow> bool" where "app_ok a \<longleftrightarrow> recv_ok (recv_state a)"

text \<open>
  \<open>app_live\<close>: the object after construction with a client that could be created; the content of the buffer is
  arbitrary. \<open>app_ready\<close>: in addition the buffer contains a NUL, as it does after the first reply or the first
  \<open>clearHTTPBuffer\<close>.
\<close>

definition terminated :: "FirebaseApp \<Rightarrow> bool" where "terminated a \<longleftrightarrow> NUL \<in> set (fst (recv_state a))"

definition app_live :: "FirebaseApp \<Rightarrow> bool" where "app_live a \<longleftrightarrow> app_ok a \<and> client a \<noteq> None"

definition app_ready :: "FirebaseApp \<Rightarrow> bool" where "app_ready a \<longleftrightarrow> app_live a \<and> terminated a"

text \<open>A request changes the client handle and the receive buffer only.\<close>

definition same_account :: "FirebaseApp \<Rightarrow> FirebaseApp \<Rightarrow> bool" where
  "same_account a b \<longleftrightarrow>
     register_url b = register_url a \<and> login_url b = login_url a \<and> auth_url b = auth_url a \<and>
     refresh_token b = refresh_token a \<and> auth_obtained_time b = auth_obtained_time a \<and> auth_expires_in b = auth_expires_in a \<and>
     default_timeout_ms b = default_timeout_ms a \<and> user_email b = user_email a \<and> user_password b = user_password a \<and>
     auth_token b = auth_token a"

lemma same_account_refl [simp]: "same_account a a"
  by (simp add: same_account_def)

lemma same_account_trans: "same_account a b \<Longrightarrow> same_account b c \<Longrightarrow> same_account a c"
  by (simp add: same_account_def)

lemma perform_ok: "app_ok a \<Longrightarrow> \<exists>ret r. recv_ok r \<and> (terminated a \<longrightarrow> NUL \<in> set (fst r)) \<and>
    perform api h (a, w) = Ok (ret, a\<lparr>recv_state := r\<rparr>, snd (http_perform api h w)) \<and>
    ret = (fst (fst (http_perform api h w)), http_get_status_code api h (snd (http_perform api h w)))"
proof -
  assume a: "app_ok a"
  obtain err es w' where p: "http_perform api h w = ((err, es), w')" by (metis surj_pair)
  obtain r1 where r1: "handle_events es (recv_state a) = Some r1" "recv_ok r1" "terminated a \<longrightarrow> NUL \<in> set (fst r1)"
    using handle_events_ok [of "recv_state a" es] a unfolding app_ok_def terminated_def by blast
  define r where "r = (if client_handler a then r1 else recv_state a)"
  have "recv_ok r" "terminated a \<longrightarrow> NUL \<in> set (fst r)" using r1(2,3) a by (simp_all add: r_def app_ok_def terminated_def)
  moreover have "perform api h (a, w) = Ok ((err, http_get_status_code api h w'), a\<lparr>recv_state := r\<rparr>, w')"
    using r1(1) by (simp add: perform_def p r_def)
  ultimately show ?thesis unfolding p by (intro exI [of _ "(err, http_get_status_code api h w')"] exI [of _ r]) simp
qed

lemma response_text_eq: "response_text (a, w) = (if terminated a then Ok (cstr (fst (recv_state a)), a, w) else Abort unterminated_response)"
  by (simp add: response_text_def terminated_def)

definition request_post :: "'w http_api \<Rightarrow> nat \<Rightarrow> ('w \<Rightarrow> nat) \<Rightarrow> FirebaseApp \<Rightarrow> 'w \<Rightarrow>
    (esp_err_t \<times> int) \<times> FirebaseApp \<times> 'w \<Rightarrow> bool" where
  "request_post api n c a w out = (case out of (ret', a', w') \<Rightarrow>
     app_ok a' \<and> same_account a a' \<and> (counts api c \<longrightarrow> c w \<le> c w' \<and> c w' \<le> c w + n \<and>
       (\<not> is_2xx ret' \<and> client a \<noteq> None \<longrightarrow> c w' = c w + n)))"

lemma counts_simps:
  "counts api c \<Longrightarrow> c (prepare_body api h m d w) = c w" "counts api c \<Longrightarrow> c (after_failure api h m w) = c w"
  "counts api c \<Longrightarrow> c (http_set_method api h m w) = c w" "counts api c \<Longrightarrow> c (http_close api h w) = c w"
  "counts api c \<Longrightarrow> c (snd (http_perform api h w)) = Suc (c w)" "counts api c \<Longrightarrow> c (http_set_url api h u w) = c w"
  "counts api c \<Longrightarrow> c (snd (http_client_init api u w)) = c w"
  by (simp_all add: counts_def prepare_body_def after_failure_def)

lemma prepare_client_ok:
  assumes "app_ok a"
  obtains h a1 w1 where "prepare_client api url (a, w) = Ok (h, a1, w1)" "app_ok a1" "same_account a a1"
    "recv_state a1 = recv_state a" "client a1 = h" "client a \<noteq> None \<longrightarrow> h \<noteq> None" "counts api c \<Longrightarrow> c w1 = c w"
proof (cases "client a")
  case None
  obtain h w' where "http_client_init api url w = (h, w')" by force
  with None assms that [of h "a\<lparr>client := h, client_handler := False\<rparr>" w'] counts_simps(7) [of api c url w]
  show thesis by (simp add: prepare_client_def app_ok_def same_account_def)
next
  case (Some h)
  with assms that [of "Some h" a "http_set_url api h url w"] show thesis
    by (simp add: prepare_client_def counts_simps)
qed

lemma request_loop_ok:
  "app_ok a \<Longrightarrow> safe (\<lambda>e. e = unterminated_response \<and> \<not> terminated a) (request_post api n c a w) (request_loop api n url m d ret (a, w))"
proof (induction n arbitrary: a w ret)
  case 0
  then show ?case by (simp add: io_return_def request_post_def)
next
  case (Suc n)
  obtain h a1 w1 where p: "prepare_client api url (a, w) = Ok (h, a1, w1)"
    and a1: "app_ok a1" "same_account a a1" "recv_state a1 = recv_state a" "client a1 = h" "client a \<noteq> None \<longrightarrow> h \<noteq> None"
    and c1: "counts api c \<Longrightarrow> c w1 = c w"
    using prepare_client_ok [OF Suc.prems] by metis
  show ?case
  proof (cases h)
    case None
    with p a1 c1 show ?thesis by (auto simp: request_post_def)
  next
    case (Some h')
    let ?w = "prepare_body api h' m d (http_set_method api h' m w1)"
    obtain ret2 r where q: "recv_ok r" "terminated a1 \<longrightarrow> NUL \<in> set (fst r)"
      "perform api h' (a1, ?w) = Ok (ret2, a1\<lparr>recv_state := r\<rparr>, snd (http_perform api h' ?w))"
      using perform_ok [OF a1(1), of api h' ?w] by (elim exE conjE) (rule that)
    let ?a = "a1\<lparr>recv_state := r\<rparr>" and ?v = "snd (http_perform api h' ?w)"
    have a2: "app_ok ?a" "same_account a ?a" "client ?a \<noteq> None" "terminated a \<Longrightarrow> terminated ?a"
      using q(1,2) a1 Some by (auto simp: app_ok_def same_account_def terminated_def)
    have cv: "counts api c \<Longrightarrow> c ?v = Suc (c w)" using c1 by (simp add: counts_simps)
    have post: "request_post api (Suc n) c a w out" if "request_post api n c ?a (after_failure api h' m ?v) out" for out
      using that a2 same_account_trans [OF a2(2)] cv
      by (cases "counts api c") (auto simp: request_post_def counts_simps split: prod.splits)
    show ?thesis
    proof (cases "is_2xx ret2")
      case True
      with p Some q a2 cv show ?thesis by (simp add: request_post_def counts_simps)
    next
      case False
      have "safe (\<lambda>e. e = unterminated_response \<and> \<not> terminated a) (request_post api (Suc n) c a w)
          (request_loop api n url m d ret2 (?a, after_failure api h' m ?v))"
        by (rule safe_weaken [OF Suc.IH [OF a2(1)]]) (use a2(4) post in auto)
      with p Some q False a2(4) show ?thesis by (auto simp: response_text_eq)
    qed
  qed
qed

text \<open>
  C17. \<open>performRequest\<close> returns for every behaviour of the HTTP client: it sends at most \<open>MAX_ATTEMPTS\<close> requests, it gives
  up with a status that is not 2xx only after exactly that many (when the client exists), and it changes the client
  handle and the receive buffer only. The one exception is a receive buffer without any NUL, which the constructor can
  leave: then the log of a failed attempt may read past it.
\<close>

theorem performRequest_bounded_retries:
  assumes "app_ok a" "counts api c"
  shows "(\<exists>ret a' w'. performRequest api url m d (a, w) = Ok (ret, a', w') \<and> app_ok a' \<and> same_account a a' \<and>
    c w' \<le> c w + MAX_ATTEMPTS \<and> (\<not> is_2xx ret \<and> client a \<noteq> None \<longrightarrow> c w' = c w + MAX_ATTEMPTS)) \<or>
    NUL \<notin> set (fst (recv_state a)) \<and> performRequest api url m d (a, w) = Abort unterminated_response"
  using request_loop_ok [OF assms(1), of api MAX_ATTEMPTS c w "cstr url" m d "(ESP_FAIL, -1)"] assms(2)
  by (auto simp: performRequest_def request_post_def safe_def terminated_def split: res.splits)


section \<open>What every operation keeps\<close>

text \<open>The exceptions of the JSON library; every other abnormal end would be an access outside a buffer.\<close>

definition json_exception :: "abort \<Rightarrow> bool" where
  "json_exception e \<longleftrightarrow> (\<exists>m. e = LogicError m) \<or> e = stack_exceeded"

definition throws_logic_error :: "'a outcome \<Rightarrow> bool" where
  "throws_logic_error r \<longleftrightarrow> (\<forall>e. r = Inl e \<longrightarrow> (\<exists>m. e = LogicError m))"

lemma logic_json_assert: "throws_logic_error (json_assert c m (Inr x))"
  by (simp add: throws_logic_error_def json_assert_def)

lemma logic_map: "throws_logic_error r \<Longrightarrow> throws_logic_error (map_sum id f r)"
  by (cases r) (simp_all add: throws_logic_error_def)

lemma logic_member_ref: "throws_logic_error (member_ref k v)"
  by (simp add: member_ref_def resolveReference_def logic_map logic_json_assert)

lemma logic_isMember: "throws_logic_error (isMember k v)"
  by (simp add: isMember_def value_find_def logic_map logic_json_assert)

lemma logic_getMemberNames: "throws_logic_error (getMemberNames v)"
  by (simp add: getMemberNames_def logic_json_assert)

lemma logic_asString: "throws_logic_error (asString v)"
  by (cases "payload v") (simp_all add: asString_def throws_logic_error_def)

lemma logic_asCString: "throws_logic_error (asCString v)"
  by (cases "payload v") (simp_all add: asCString_def throws_logic_error_def)

lemma logic_case:
  "throws_logic_error r \<Longrightarrow> (\<And>x. throws_logic_error (f x)) \<Longrightarrow>
     throws_logic_error (case r of Inl e \<Rightarrow> Inl e | Inr x \<Rightarrow> f x)"
  by (cases r) (simp_all add: throws_logic_error_def)

lemma logic_expiry_of: "throws_logic_error (expiry_of v)"
proof -
  have r: "throws_logic_error (case member_ref k v of Inl e \<Rightarrow> Inl e
      | Inr (data, member) \<Rightarrow> map_sum id atoi (asCString member))" for k
    by (rule logic_case [OF logic_member_ref]) (simp add: split_beta logic_map logic_asCString)
  show ?thesis
  proof (cases "isMember ''expires_in'' v")
    case (Inl e)
    then show ?thesis using logic_isMember [of "''expires_in''" v] by (simp add: expiry_of_def throws_logic_error_def)
  next
    case (Inr b)
    show ?thesis
    proof (cases b)
      case False
      show ?thesis
      proof (cases "isMember ''expiresIn'' v")
        case (Inl e)
        then show ?thesis using Inr False logic_isMember [of "''expiresIn''" v]
          by (simp add: expiry_of_def throws_logic_error_def)
      next
        case Inr': (Inr c)
        then show ?thesis using Inr False r
          by (cases c) (simp_all add: expiry_of_def throws_logic_error_def [of "Inr _"])
      qed
    qed (use Inr r in \<open>simp add: expiry_of_def\<close>)
  qed
qed

lemma bind_OkE: "bind x f = Ok y \<Longrightarrow> (\<And>z. x = Ok z \<Longrightarrow> f z = Ok y \<Longrightarrow> P) \<Longrightarrow> P"
  by (cases x) auto

lemma safe_lift: "throws_logic_error r \<Longrightarrow> safe json_exception (\<lambda>_. True) (lift r)"
  by (cases r) (auto simp: throws_logic_error_def lift_def json_exception_def)

lemma safe_parse_reply: "length t \<le> 2147483642 \<Longrightarrow> safe json_exception (\<lambda>_. True) (parse_reply t)"
  unfolding parse_reply_def
  by (rule safe_bind, rule safe_weaken [OF safe_parse]) (auto simp: reader_aborts_def stack_exceeded_def json_exception_def)

text \<open>
  The interface the operations rest on: a property \<open>inv\<close> of the object and the world, which includes that the
  client exists, and a set \<open>exc\<close> of abnormal ends with at least the exceptions of the JSON library. \<open>kept\<close>: an
  operation ends normally with \<open>inv\<close>, or by one of \<open>exc\<close>.
\<close>

locale exchange_invariant =
  fixes api :: "'w http_api" and exc :: "abort \<Rightarrow> bool" and inv :: "FirebaseApp \<Rightarrow> 'w \<Rightarrow> bool"
  assumes json_exc: "json_exception e \<Longrightarrow> exc e"
    and inv_client: "inv a w \<Longrightarrow> client a \<noteq> None"
    and inv_set_header: "inv a w \<Longrightarrow> client a = Some h \<Longrightarrow> inv a (http_set_header api h k v w)"
    and inv_time: "inv a w \<Longrightarrow> inv a (snd (get_time api w))"
    and inv_clear: "inv a w \<Longrightarrow> safe exc (\<lambda>(_, a, w). inv a w) (clearHTTPBuffer (a, w))"
    and inv_response: "inv a w \<Longrightarrow>
          safe exc (\<lambda>(t, a', w'). a' = a \<and> w' = w \<and> length t \<le> 2147483642) (response_text (a, w))"
    and inv_account: "inv a w \<Longrightarrow> inv (a\<lparr>user_email := s, user_password := p\<rparr>) w"
    and inv_refresh_token: "inv a w \<Longrightarrow> inv (a\<lparr>refresh_token := t\<rparr>) w"
    and inv_auth: "inv a w \<Longrightarrow> inv (a\<lparr>auth_token := t, auth_expires_in := n, auth_obtained_time := now\<rparr>) w"
begin

abbreviation kept :: "('a \<times> FirebaseApp \<times> 'w) res \<Rightarrow> bool" where
  "kept \<equiv> safe exc (\<lambda>(_, a, w). inv a w)"

lemma safe_exc: "safe json_exception P r \<Longrightarrow> safe exc P r"
  by (erule safe_weaken) (simp_all add: json_exc)

lemma kept_bind: "kept m \<Longrightarrow> (\<And>x a w. inv a w \<Longrightarrow> kept (f (x, a, w))) \<Longrightarrow> kept (bind m f)"
  by (erule safe_bind) auto

lemma kept_time: "inv a w \<Longrightarrow> (\<And>now w. inv a w \<Longrightarrow> kept (f now w)) \<Longrightarrow>
    kept (case get_time api w of (now, w) \<Rightarrow> f now w)"
  using inv_time [of a w] by (cases "get_time api w") simp

lemma kept_lift: "throws_logic_error r \<Longrightarrow> (\<And>x. kept (f x)) \<Longrightarrow> kept (bind (lift r) f)"
  by (rule safe_bind [OF safe_exc [OF safe_lift]]) auto

lemma kept_return: "inv a w \<Longrightarrow> kept (io_return x (a, w))"
  by (simp add: io_return_def)

lemma kept_Ok: "inv a w \<Longrightarrow> kept (Ok (x, a, w))"
  by simp

lemma kept_header: "inv a w \<Longrightarrow> kept (setHeader api k v (a, w))"
  using inv_client [of a w] by (auto simp: setHeader_def inv_set_header)

lemma kept_parse_response: "inv a w \<Longrightarrow> kept (parse_response (a, w))"
  unfolding parse_response_def io_bind_def
  by (rule safe_bind [OF inv_response], assumption)
    (auto intro!: safe_bind [OF safe_exc [OF safe_parse_reply]] kept_return)

lemma kept_content_json: "inv a w \<Longrightarrow> kept (content_json api (a, w))"
  by (simp add: content_json_def kept_header)

lemma kept_delete_headers: "inv a w \<Longrightarrow> kept (delete_headers api (a, w))"
  unfolding delete_headers_def io_bind_def by (auto intro!: kept_bind kept_header)

lemmas kept_steps = kept_bind kept_lift kept_return kept_header kept_parse_response inv_clear
  inv_account inv_refresh_token inv_auth kept_time kept_Ok
  logic_member_ref logic_asString logic_asCString logic_expiry_of logic_getMemberNames

end

text \<open>The token operations send \<open>POST\<close> requests only.\<close>

locale token_invariant = exchange_invariant +
  assumes inv_post: "inv a w \<Longrightarrow> safe exc (\<lambda>(_, a, w). inv a w) (performRequest api url METHOD_POST d (a, w))"
begin

lemma kept_getRefreshToken: "inv a w \<Longrightarrow> kept (getRefreshToken api b (a, w))"
  unfolding getRefreshToken_def by (auto intro!: kept_steps inv_post)

lemma kept_getAuthToken: "inv a w \<Longrightarrow> kept (getAuthToken api (a, w))"
  unfolding getAuthToken_def Let_def by (auto intro!: kept_steps inv_post)

lemma kept_sign_in: "inv a w \<Longrightarrow> kept (sign_in api b account (a, w))"
  unfolding sign_in_def by (auto intro!: kept_steps kept_getRefreshToken kept_getAuthToken)

lemma kept_login: "inv a w \<Longrightarrow> kept (loginUserAccount api account (a, w))"
  by (simp add: loginUserAccount_def kept_sign_in)

lemma kept_forceRefreshAuth: "inv a w \<Longrightarrow> kept (forceRefreshAuth api (a, w))"
  unfolding forceRefreshAuth_def by (auto intro!: kept_steps kept_getAuthToken kept_login)

lemma kept_refreshAuthIfNeeded: "inv a w \<Longrightarrow> kept (refreshAuthIfNeeded api (a, w))"
  unfolding refreshAuthIfNeeded_def Let_def by (auto intro!: kept_steps kept_getAuthToken kept_login)

end

text \<open>What the single calls of the HTTP client keep, every request and every operation keeps.\<close>

locale io_invariant = exchange_invariant +
  assumes inv_set_url: "inv a w \<Longrightarrow> client a = Some h \<Longrightarrow> inv a (http_set_url api h u w)"
    and inv_set_method: "inv a w \<Longrightarrow> client a = Some h \<Longrightarrow> inv a (http_set_method api h m w)"
    and inv_set_post_field: "inv a w \<Longrightarrow> client a = Some h \<Longrightarrow> inv a (http_set_post_field api h d w)"
    and inv_close: "inv a w \<Longrightarrow> client a = Some h \<Longrightarrow> inv a (http_close api h w)"
    and inv_set_timeout: "inv a w \<Longrightarrow> client a = Some h \<Longrightarrow> inv a (http_set_timeout_ms api h ms w)"
    and inv_perform: "inv a w \<Longrightarrow> client a = Some h \<Longrightarrow>
          safe exc (\<lambda>(_, a', w'). inv a' w' \<and> client a' = client a) (perform api h (a, w))"
begin

lemma inv_body: "inv a w \<Longrightarrow> client a = Some h \<Longrightarrow> inv a (prepare_body api h m d (http_set_method api h m w))"
  by (simp add: prepare_body_def inv_set_header inv_set_post_field inv_set_method)

lemma inv_after_failure: "inv a w \<Longrightarrow> client a = Some h \<Longrightarrow> inv a (after_failure api h m w)"
  by (simp add: after_failure_def inv_set_header inv_set_post_field)

lemma kept_request_loop: "inv a w \<Longrightarrow> kept (request_loop api n url m d ret (a, w))"
proof (induction n arbitrary: a w ret)
  case (Suc n)
  obtain h where h: "client a = Some h" using inv_client [OF Suc.prems] by blast
  let ?w = "prepare_body api h m d (http_set_method api h m (http_set_url api h url w))"
  have i: "inv a ?w" using h by (intro inv_body inv_set_url Suc.prems)
  have "kept (bind (response_text (b, v)) (\<lambda>(_, a, w). request_loop api n url m d ret (a, after_failure api h m w)))"
    if "inv b v" "client b = Some h" for b v ret
    by (rule safe_bind [OF inv_response [OF that(1)]]) (use that in \<open>auto intro!: Suc.IH inv_after_failure\<close>)
  then have "kept (bind (perform api h (a, ?w)) (\<lambda>(ret, a, w). if is_2xx ret then Ok (ret, a, http_close api h w)
      else bind (response_text (a, w)) (\<lambda>(_, a, w). request_loop api n url m d ret (a, after_failure api h m w))))"
    by (intro safe_bind [OF inv_perform [OF i h]]) (auto simp: h inv_close)
  then show ?case by (simp add: prepare_client_def h)
qed (simp add: kept_return)

lemma kept_request: "inv a w \<Longrightarrow> kept (performRequest api url m d (a, w))"
  by (simp add: performRequest_def kept_request_loop)

end

sublocale io_invariant \<subseteq> token_invariant api exc inv
  by unfold_locales (rule kept_request)

context io_invariant
begin

lemma kept_timeout: "inv a w \<Longrightarrow> kept (setHttpTimeoutMs api ms (a, w))"
  by (simp add: setHttpTimeoutMs_def with_client_def inv_set_timeout split: option.splits)

lemma kept_restore: "inv a w \<Longrightarrow> kept (restoreDefaultHttpTimeout api (a, w))"
  by (simp add: restoreDefaultHttpTimeout_def kept_timeout)

lemma kept_getData: "inv a w \<Longrightarrow> kept (getData api base path (a, w))"
  unfolding getData_def Let_def by (auto intro!: kept_steps kept_request kept_content_json kept_login)

lemma kept_write_data: "inv a w \<Longrightarrow> kept (write_data api m base path json (a, w))"
  unfolding write_data_def by (auto intro!: kept_steps kept_request kept_content_json kept_forceRefreshAuth)

lemma kept_deleteData: "inv a w \<Longrightarrow> kept (deleteData api base path (a, w))"
  unfolding deleteData_def
  by (auto intro!: kept_steps kept_request kept_timeout kept_restore kept_delete_headers kept_forceRefreshAuth)

lemma kept_delete_each: "inv a w \<Longrightarrow> kept (delete_each api base root_path days (a, w))"
  by (induction days arbitrary: a w) (auto intro!: kept_steps kept_deleteData)

lemma kept_trimDays: "inv a w \<Longrightarrow> kept (trimDays api base root_path n (a, w))"
  unfolding trimDays_def Let_def by (auto intro!: kept_steps kept_request kept_content_json kept_delete_each)

lemma kept_trimOldestBatch: "inv a w \<Longrightarrow> kept (trimOldestBatch api base root_path n (a, w))"
  unfolding trimOldestBatch_def by (auto intro!: kept_steps kept_request kept_content_json)

end

lemma clear_ready:
  assumes "app_ok a"
  shows "clearHTTPBuffer (a, w) = Ok ((), a\<lparr>recv_state := (replicate HTTP_RECV_BUFFER_SIZE NUL, 0)\<rparr>, w)"
  using recv_clear_open [of "recv_state a"] assms by (auto simp: clearHTTPBuffer_def app_ok_def)

lemma cleared_ready: "client a \<noteq> None \<Longrightarrow> app_ready (a\<lparr>recv_state := (replicate HTTP_RECV_BUFFER_SIZE NUL, 0)\<rparr>)"
  by (simp add: app_ready_def app_live_def terminated_def app_ok_def recv_ok_def HTTP_RECV_BUFFER_SIZE_def)

lemma response_ready:
  assumes "app_ready a"
  shows "response_text (a, w) = Ok (cstr (fst (recv_state a)), a, w)"
  using assms by (simp add: response_text_eq app_ready_def)

lemma length_response: "app_ok a \<Longrightarrow> length (cstr (fst (recv_state a))) \<le> 2147483642"
  using length_cstr_le [of "fst (recv_state a)"] by (simp add: app_ok_def recv_ok_def HTTP_RECV_BUFFER_SIZE_def)

lemma app_live_updates [simp]:
  "app_live (a\<lparr>user_email := s\<rparr>) = app_live a" "app_live (a\<lparr>user_password := s\<rparr>) = app_live a"
  "app_live (a\<lparr>refresh_token := s\<rparr>) = app_live a" "app_live (a\<lparr>auth_token := s\<rparr>) = app_live a"
  "app_live (a\<lparr>auth_expires_in := n\<rparr>) = app_live a" "app_live (a\<lparr>auth_obtained_time := n\<rparr>) = app_live a"
  by (simp_all add: app_live_def app_ok_def)

lemma terminated_updates [simp]:
  "terminated (a\<lparr>user_email := s\<rparr>) = terminated a" "terminated (a\<lparr>user_password := s\<rparr>) = terminated a"
  "terminated (a\<lparr>refresh_token := s\<rparr>) = terminated a" "terminated (a\<lparr>auth_token := s\<rparr>) = terminated a"
  "terminated (a\<lparr>auth_expires_in := n\<rparr>) = terminated a" "terminated (a\<lparr>auth_obtained_time := n\<rparr>) = terminated a"
  by (simp_all add: terminated_def)

lemma perform_live:
  assumes "app_live a"
  shows "\<exists>x r. perform api h (a, w) = Ok (x, a\<lparr>recv_state := r\<rparr>, snd (http_perform api h w)) \<and>
    app_live (a\<lparr>recv_state := r\<rparr>) \<and> (terminated a \<longrightarrow> terminated (a\<lparr>recv_state := r\<rparr>))"
  using perform_ok [of a api h w] assms by (auto simp: app_live_def app_ok_def terminated_def)

text \<open>
  First instance: the receive buffer has its full size and \<open>output_len\<close> leaves room for the terminator. With
  \<open>b\<close> the buffer contains a NUL from the start on, and no read runs past it; without, such a read is possible.
\<close>

definition may_end :: "bool \<Rightarrow> abort \<Rightarrow> bool" where
  "may_end b e \<longleftrightarrow> json_exception e \<or> \<not> b \<and> e = unterminated_response"

interpretation buffer: io_invariant api "may_end b" "\<lambda>a w. app_live a \<and> (b \<longrightarrow> terminated a)" for api :: "'w http_api" and b
proof
  fix a :: FirebaseApp and w :: 'w and h
  assume a: "app_live a \<and> (b \<longrightarrow> terminated a)"
  show "client a \<noteq> None" using a by (simp add: app_live_def)
  show "safe (may_end b) (\<lambda>(_, a', w'). (app_live a' \<and> (b \<longrightarrow> terminated a')) \<and> client a' = client a) (perform api h (a, w))"
    using perform_live [of a api h w] a by auto
  show "safe (may_end b) (\<lambda>(_, a, w). app_live a \<and> (b \<longrightarrow> terminated a)) (clearHTTPBuffer (a, w))"
    using a clear_ready [of a w] cleared_ready [of a] by (simp add: app_ready_def app_live_def)
  show "safe (may_end b) (\<lambda>(t, a', w'). a' = a \<and> w' = w \<and> length t \<le> 2147483642) (response_text (a, w))"
    using a length_response [of a] by (auto simp: response_text_eq may_end_def app_live_def)
qed (simp_all add: may_end_def)

lemma may_end_True [simp]: "may_end True = json_exception"
  by (auto simp: may_end_def)

text \<open>Second instance: the client handle and the default timeout are fixed once the client exists.\<close>

interpretation fixed_client: io_invariant api json_exception
  "\<lambda>a w. app_ready a \<and> client a = Some h \<and> default_timeout_ms a = ms" for api :: "'w http_api" and h ms
proof
  fix a :: FirebaseApp and w :: 'w and h'
  assume a: "app_ready a \<and> client a = Some h \<and> default_timeout_ms a = ms"
  show "client a \<noteq> None" using a by simp
  show "safe json_exception (\<lambda>(_, a', w'). (app_ready a' \<and> client a' = Some h \<and> default_timeout_ms a' = ms) \<and>
      client a' = client a) (perform api h' (a, w))"
    using perform_live [of a api h' w] a by (auto simp: app_ready_def)
  show "safe json_exception (\<lambda>(_, a, w). app_ready a \<and> client a = Some h \<and> default_timeout_ms a = ms) (clearHTTPBuffer (a, w))"
    using a clear_ready [of a w] cleared_ready [of a] by (simp add: app_ready_def app_live_def)
  show "safe json_exception (\<lambda>(t, a', w'). a' = a \<and> w' = w \<and> length t \<le> 2147483642) (response_text (a, w))"
    using response_ready [of a w] length_response [of a] a by (auto simp: app_ready_def app_live_def)
qed (simp_all add: app_ready_def)

text \<open>Construction; without a client the first request dereferences a null handle.\<close>

lemma new_FirebaseApp_live:
  assumes "length u = HTTP_RECV_BUFFER_SIZE" "fst (http_client_init api ''https://google.com'' w) \<noteq> None"
  shows "\<exists>a' w'. new_FirebaseApp api key u w = Ok ((), a', w') \<and> app_live a' \<and> (terminated a' \<longleftrightarrow> NUL \<in> set u)"
  using assms by (auto simp: new_FirebaseApp_def firebaseClientInit_def split_beta app_live_def app_ok_def recv_ok_def
    terminated_def HTTP_RECV_BUFFER_SIZE_def)

lemma null_client_is_dereferenced:
  "client a = None \<Longrightarrow> getRefreshToken api b (a, w) = Abort null_client"
  "client a = None \<Longrightarrow> getAuthToken api (a, w) = Abort null_client"
  "client a = None \<Longrightarrow> getData api base path (a, w) = Abort null_client"
  "client a = None \<Longrightarrow> write_data api m base path json (a, w) = Abort null_client"
  by (simp_all add: getRefreshToken_def getAuthToken_def getData_def write_data_def content_json_def setHeader_def)

text \<open>
  C1. No operation of \<open>FirebaseApp\<close> or \<open>RTDB\<close> writes outside the receive buffer, leaves the parser's document or uses a
  null client, whatever the server sends and however often requests are retried, from any state in which the client
  exists and the buffer has its size (\<open>app_live\<close>), such as the one the constructor leaves when \<open>esp_http_client_init\<close>
  succeeds: each operation returns with such a state again, or is ended by an exception of the JSON library (a failed
  assertion, or the nesting limit). When the buffer contains a NUL, no read runs past it either, and it contains
  one afterwards; a buffer as \<open>new char[]\<close> left it, without any NUL, may be read past its end.
\<close>

theorem firebase_operations_stay_in_buffers:
  assumes "app_live a"
  shows "(\<forall>op \<in> {loginUserAccount api account, registerUserAccount api account, forceRefreshAuth api,
      refreshAuthIfNeeded api, putData api base path json, postData api base path json,
      patchData api base path json, deleteData api base path, trimDays api base path n,
      trimOldestBatch api base path n}.
    safe (\<lambda>e. json_exception e \<or> \<not> terminated a \<and> e = unterminated_response)
      (\<lambda>(_, a', _). app_live a' \<and> (terminated a \<longrightarrow> terminated a')) (op (a, w))) \<and>
    safe (\<lambda>e. json_exception e \<or> \<not> terminated a \<and> e = unterminated_response)
      (\<lambda>(_, a', _). app_live a' \<and> (terminated a \<longrightarrow> terminated a')) (getData api base path (a, w)) \<and>
    (length u = HTTP_RECV_BUFFER_SIZE \<and> fst (http_client_init api ''https://google.com'' w) \<noteq> None \<longrightarrow>
      (\<exists>a' w'. new_FirebaseApp api key u w = Ok ((), a', w') \<and> app_live a' \<and> (terminated a' \<longleftrightarrow> NUL \<in> set u)))"
proof -
  have a: "app_live a \<and> (terminated a \<longrightarrow> terminated a)" using assms by simp
  have "(\<lambda>e. json_exception e \<or> \<not> terminated a \<and> e = unterminated_response) = may_end (terminated a)"
    by (auto simp: may_end_def)
  then show ?thesis using new_FirebaseApp_live [of u api w key]
    by (simp add: buffer.kept_login [OF a] registerUserAccount_def buffer.kept_sign_in [OF a] buffer.kept_forceRefreshAuth [OF a]
      buffer.kept_refreshAuthIfNeeded [OF a] putData_def postData_def patchData_def buffer.kept_write_data [OF a]
      buffer.kept_getData [OF a] buffer.kept_deleteData [OF a] buffer.kept_trimDays [OF a] buffer.kept_trimOldestBatch [OF a])
qed

text \<open>
  C31. When \<open>deleteData\<close> returns, on every path (success, failure, token renewal and second attempt), the last
  timeout it set on the client is the default one; the long timeout never outlives the call.
\<close>

theorem deleteData_restores_timeout:
  assumes "app_ready a" "client a = Some h" "deleteData api base path (a, w) = Ok (ret, a', w')"
  shows "client a' = Some h \<and> (\<exists>w1. w' = http_set_timeout_ms api h (default_timeout_ms a) w1)"
proof -
  let ?inv = "\<lambda>a'. app_ready a' \<and> client a' = Some h \<and> default_timeout_ms a' = default_timeout_ms a"
  let ?Q = "\<lambda>(ret, a', w'). client a' = Some h \<and> (\<exists>w1. w' = http_set_timeout_ms api h (default_timeout_ms a) w1)"
  have end_ok: "safe json_exception ?Q (bind (restoreDefaultHttpTimeout api (b, v)) (\<lambda>(_, s).
      bind (clearHTTPBuffer s) (\<lambda>(_, s). io_return x s)))" if "?inv b" for b v x
    using that by (auto simp: restoreDefaultHttpTimeout_def setHttpTimeoutMs_def with_client_def
      clear_ready app_ready_def app_live_def io_return_def)
  have inner: "safe json_exception ?Q (bind m f)"
    if "safe json_exception (\<lambda>(_, a', w'). ?inv a') m" "\<And>x b v. ?inv b \<Longrightarrow> safe json_exception ?Q (f (x, b, v))" for m f
    by (rule safe_bind [OF that(1)]) (use that(2) in auto)
  have "safe json_exception ?Q (deleteData api base path (a, w))"
    unfolding deleteData_def prod.case
    using assms(1,2)
    by (intro inner fixed_client.kept_timeout fixed_client.kept_delete_headers fixed_client.kept_request)
     (auto intro!: inner end_ok fixed_client.kept_steps fixed_client.kept_request fixed_client.kept_delete_headers
        fixed_client.kept_forceRefreshAuth)
  with assms(3) show ?thesis by simp
qed

section \<open>Replies of the token service\<close>

definition reply_of :: "http_event list \<Rightarrow> string" where
  "reply_of es = cstr (take (HTTP_RECV_BUFFER_SIZE - 1) (concat (concat (map data_of es))))"

text \<open>One exchange: the request set up in \<open>w\<close> is answered with status 200 and the events \<open>es\<close>.\<close>

definition replies :: "'w http_api \<Rightarrow> nat \<Rightarrow> 'w \<Rightarrow> http_event list \<Rightarrow> 'w \<Rightarrow> bool" where
  "replies api h w es w' \<longleftrightarrow> http_perform api h w = ((ESP_OK, ON_CONNECTED # es @ [ON_FINISH]), w') \<and>
     (\<forall>e \<in> set es. mid_reply e) \<and> http_get_status_code api h w' = 200"

text \<open>The request as \<open>performRequest\<close> sets it up over the client \<open>h\<close>, and \<open>setHeader\<close> before it.\<close>

abbreviation pending_request :: "'w http_api \<Rightarrow> nat \<Rightarrow> string \<Rightarrow> http_method \<Rightarrow> string \<Rightarrow> 'w \<Rightarrow> 'w" where
  "pending_request api h url m d w \<equiv> prepare_body api h m d (http_set_method api h m (http_set_url api h (cstr url) w))"

abbreviation json_header :: "'w http_api \<Rightarrow> nat \<Rightarrow> 'w \<Rightarrow> 'w" where
  "json_header api h w \<equiv> http_set_header api h ''content-type'' ''application/json'' w"

lemma performRequest_once:
  assumes "app_ok a" "client_handler a" "client a = Some h" "replies api h (pending_request api h url m d w) es w'"
  shows "\<exists>buf. performRequest api url m d (a, w) = Ok ((ESP_OK, 200), a\<lparr>recv_state := (buf, 0)\<rparr>, http_close api h w') \<and>
    app_ready (a\<lparr>recv_state := (buf, 0)\<rparr>) \<and> cstr buf = reply_of es"
proof -
  note r = assms(4) [unfolded replies_def]
  obtain buf where buf: "handle_events (ON_CONNECTED # es @ [ON_FINISH]) (recv_state a) = Some (buf, 0)"
    "length buf = HTTP_RECV_BUFFER_SIZE" "NUL \<in> set buf" "cstr buf = reply_of es"
    using handle_reply [OF assms(1) [unfolded app_ok_def], of es] r unfolding reply_of_def by blast
  have "perform api h (a, prepare_body api h m d (http_set_method api h m (http_set_url api h (cstr url) w))) =
      Ok ((ESP_OK, 200), a\<lparr>recv_state := (buf, 0)\<rparr>, w')"
    unfolding perform_def prod.case r [THEN conjunct1] Let_def using r assms(2) buf(1) by simp
  then have "performRequest api url m d (a, w) =
      Ok ((ESP_OK, 200), a\<lparr>recv_state := (buf, 0)\<rparr>, http_close api h w')"
    by (simp add: performRequest_def MAX_ATTEMPTS_def numeral_eq_Suc prepare_client_def assms(3) is_2xx_def)
  moreover have "app_ready (a\<lparr>recv_state := (buf, 0)\<rparr>)"
    using buf assms(3) by (simp add: app_ready_def app_live_def terminated_def app_ok_def recv_ok_def HTTP_RECV_BUFFER_SIZE_def)
  ultimately show ?thesis using buf(4) by blast
qed

lemma parse_response_once:
  assumes "app_ready (a\<lparr>recv_state := (buf, n)\<rparr>)" "cstr buf = reply_of es"
  shows "parse_response (a\<lparr>recv_state := (buf, n)\<rparr>, w) =
      bind (parse_reply (reply_of es)) (\<lambda>data. Ok (data, a\<lparr>recv_state := (buf, n)\<rparr>, w))"
  using response_ready [OF assms(1), of w] assms(2) by (simp add: parse_response_def io_bind_def io_return_def)

lemma getAuthToken_answered:
  assumes "app_ok a" "client_handler a" "client a = Some h"
    "replies api h (pending_request api h (auth_url a) METHOD_POST (token_post_data a) (json_header api h w)) es w1"
  shows "\<exists>buf. getAuthToken api (a, w) =
    bind (parse_reply (reply_of es)) (\<lambda>data.
    bind (lift (member_ref ''access_token'' data)) (\<lambda>(data, member).
    bind (lift (asString member)) (\<lambda>token.
    bind (lift (expiry_of data)) (\<lambda>expires. case get_time api (http_close api h w1) of (now, w') \<Rightarrow>
    Ok (ESP_OK, a\<lparr>recv_state := (buf, 0), auth_token := token, auth_expires_in := expires,
      auth_obtained_time := now\<rparr>, w')))))"
proof -
  obtain buf where p: "performRequest api (auth_url a) METHOD_POST (token_post_data a) (a, json_header api h w) =
      Ok ((ESP_OK, 200), a\<lparr>recv_state := (buf, 0)\<rparr>, http_close api h w1)"
    "app_ready (a\<lparr>recv_state := (buf, 0)\<rparr>)" "cstr buf = reply_of es"
    using performRequest_once [OF assms] by blast
  have "getAuthToken api (a, w) =
    bind (bind (parse_reply (reply_of es)) (\<lambda>data. Ok (data, a\<lparr>recv_state := (buf, 0)\<rparr>, http_close api h w1))) (\<lambda>(data, a, w).
      bind (lift (member_ref ''access_token'' data)) (\<lambda>(data, member).
      bind (lift (asString member)) (\<lambda>token.
      bind (lift (expiry_of data)) (\<lambda>expires.
      let (now, w) = get_time api w in
      Ok (ESP_OK, a\<lparr>auth_token := token, auth_expires_in := expires, auth_obtained_time := now\<rparr>, w)))))"
    unfolding getAuthToken_def setHeader_def by (simp add: assms(3) p(1) is_200_def parse_response_once [OF p(2,3)])
  then show ?thesis by (cases "parse_reply (reply_of es)") (auto simp: Let_def)
qed

text \<open>The reply of the token service as an object: a member that exists is found, and asking for it changes nothing.\<close>

lemma length_reply_of: "length (reply_of es) \<le> 2147483642"
  using length_cstr_le [of "take (HTTP_RECV_BUFFER_SIZE - 1) (concat (concat (map data_of es)))"]
  by (simp add: reply_of_def HTTP_RECV_BUFFER_SIZE_def)

lemma parse_reply_wf: "parse_reply t = Ok data \<Longrightarrow> length t \<le> 2147483642 \<Longrightarrow> wf_value data"
  using safe_parse [of t "new_reader Features_all" nullSingleton False]
  by (auto simp: parse_reply_def elim!: bind_OkE)

lemma map_emplace_present: "sorted_map m \<Longrightarrow> map_find k m = Some v \<Longrightarrow> map_emplace k x m = m"
proof (induction m)
  case (Cons p m)
  then show ?case by (force simp: map_emplace_Cons sorted_map_Cons dest: map_find_Some_in split: if_splits)
qed simp

lemma member_ref_present:
  assumes "payload data = PObject m" "sorted_map m" "map_find (CZString k) m = Some v"
  shows "member_ref k data = Inr (data, v)"
  using assms by (cases data) (simp add: member_ref_def resolveReference_def json_assert_def type_of_def coerce_def with_map_def
    set_payload_def map_emplace_present ref_get_def map_of_value_def)

lemma isMember_object: "payload data = PObject m \<Longrightarrow> isMember k data = Inr (map_find (CZString k) m \<noteq> None)"
  by (simp add: isMember_def value_find_def json_assert_def type_of_def map_of_value_def)

lemma expiry_of_object:
  assumes "payload data = PObject m" "sorted_map m"
  shows "expiry_of data = (case map_find (CZString ''expires_in'') m of Some e \<Rightarrow> map_sum id atoi (asCString e)
    | None \<Rightarrow> (case map_find (CZString ''expiresIn'') m of Some e \<Rightarrow> map_sum id atoi (asCString e) | None \<Rightarrow> Inr 3600))"
  using member_ref_present [OF assms]
  by (auto simp: expiry_of_def isMember_object [OF assms(1)] split: option.split)

text \<open>
  C29. When the request for a token is answered with a 200 reply, however it is split into data events, whose document is
  an object with an \<open>access_token\<close> that converts to a string, \<open>getAuthToken\<close> succeeds and stores that token, the
  time of the clock after the reply, and as its expiry the number in the string \<open>expires_in\<close>, or else in \<open>expiresIn\<close>, or
  else 3600; it changes nothing else but the receive buffer.
\<close>

theorem getAuthToken_stores_token:
  assumes "app_ok a" "client_handler a" "client a = Some h"
    "replies api h (pending_request api h (auth_url a) METHOD_POST (token_post_data a) (json_header api h w)) es w1"
    "parse_reply (reply_of es) = Ok data" "payload data = PObject m"
    "map_find (CZString ''access_token'') m = Some v" "asString v = Inr token"
    "case map_find (CZString ''expires_in'') m of Some e \<Rightarrow> asCString e = Inr text \<and> n = atoi text
     | None \<Rightarrow> (case map_find (CZString ''expiresIn'') m of Some e \<Rightarrow> asCString e = Inr text \<and> n = atoi text | None \<Rightarrow> n = 3600)"
    "get_time api (http_close api h w1) = (now, w')"
  shows "\<exists>buf. getAuthToken api (a, w) = Ok (ESP_OK, a\<lparr>recv_state := (buf, 0), auth_token := token,
    auth_expires_in := n, auth_obtained_time := now\<rparr>, w')"
proof -
  have "sorted_map m" using parse_reply_wf [OF assms(5) length_reply_of] assms(6) by (cases data) (simp add: wf_map_def)
  note o = member_ref_present [OF assms(6) this assms(7)] expiry_of_object [OF assms(6) this]
  have "expiry_of data = Inr n" unfolding o using assms(9) by (auto split: option.splits)
  with getAuthToken_answered [OF assms(1-4)] o(1) assms(5,8,10) show ?thesis by (simp add: lift_def)
qed

text \<open>
  C39. A 200 reply to the request for a token that is JSON but neither an object nor \<open>null\<close> does not make \<open>getAuthToken\<close>
  fail: \<open>data["access_token"]\<close> hits a \<open>JSON_ASSERT\<close> and the firmware aborts.
\<close>

theorem getAuthToken_aborts_on_non_object:
  assumes "app_ok a" "client_handler a" "client a = Some h"
    "replies api h (pending_request api h (auth_url a) METHOD_POST (token_post_data a) (json_header api h w)) es w1"
    "parse_reply (reply_of es) = Ok data" "type_of data \<notin> {nullValue, objectValue}"
  shows "getAuthToken api (a, w) =
    Abort (LogicError ''in Json::Value::resolveReference(key, end): requires objectValue'')"
  using getAuthToken_answered [OF assms(1-4)] assms(5-)
  by (auto simp: lift_def member_ref_def resolveReference_def json_assert_def)

text \<open>A first request that fails before it connects logs the buffer as \<open>new char[]\<close> left it.\<close>

lemma uninitialised_buffer_is_read:
  assumes "client a = Some h" "NUL \<notin> set (fst (recv_state a))" "http_perform api h (pending_request api h url m d w) = ((ESP_FAIL, []), w')"
  shows "performRequest api url m d (a, w) = Abort unterminated_response"
  using assms by (simp add: performRequest_def MAX_ATTEMPTS_def numeral_eq_Suc prepare_client_def perform_def is_2xx_def esp_err_defs
    response_text_eq terminated_def)

text \<open>
  C32. With a token in hand \<open>refreshAuthIfNeeded\<close> renews it exactly when fewer than 30 seconds of its validity are
  left, without wrap-around for any elapsed time below \<open>2^31\<close> seconds; an expiry that is not positive counts as never.
\<close>

theorem refreshAuthIfNeeded_renews_in_last_30_seconds:
  assumes "auth_token a \<noteq> []" "get_time api w = (now, w1)" "auth_obtained_time a \<le> now" "now - auth_obtained_time a < 2 ^ 31"
  shows "refreshAuthIfNeeded api (a, w) =
    (if 0 < auth_expires_in a \<and> auth_obtained_time a + auth_expires_in a - 30 < now
     then forceRefreshAuth api (a, w1) else Ok (ESP_OK, a, w1))"
proof -
  have "int32 k = k" if "0 \<le> k" "k < 2 ^ 31" for k
    using that by (simp add: int32_def signed_of_int signed_take_bit_int_eq_self_iff)
  with assms(3,4) have "int32 (now - auth_obtained_time a) = now - auth_obtained_time a" by simp
  then show ?thesis using assms(1,2)
    by (auto simp: refreshAuthIfNeeded_def forceRefreshAuth_def io_return_def Let_def)
qed

section \<open>The C interface\<close>

text \<open>
  C40. After a failed \<open>firebase_init\<close> (result -2) the next call returns 0 without doing anything, although no
  database object exists: the write that follows returns -1.
\<close>

theorem firebase_init_retry_reports_success:
  assumes "g_app g = None" "g_rtdb g = None" "firebase_init api p u g w = Ok (-2, g', w')"
  shows "firebase_init api p u' g' w2 = Ok (0, g', w2) \<and> firebase_putData api path json g' w2 = Ok (-1, g', w2)"
proof -
  have "\<exists>a. g' = g\<lparr>g_app := Some a\<rparr>"
    using assms by (auto simp: firebase_init_def Let_def elim!: bind_OkE split: if_splits prod.splits)
  with assms(2) show ?thesis by (auto simp: firebase_init_def firebase_putData_def on_rtdb_def)
qed


section \<open>Concrete servers\<close>

text \<open>
  \<open>demo_server status text\<close> answers every request with \<open>status\<close> and \<open>text\<close>; its world counts the
  requests.
\<close>

definition demo_server :: "int \<Rightarrow> string \<Rightarrow> nat http_api" where
  "demo_server status text = \<lparr>http_client_init = \<lambda>u w. (Some 1, w), http_set_url = \<lambda>h u w. w,
     http_set_method = \<lambda>h m w. w, http_set_post_field = \<lambda>h d w. w, http_set_header = \<lambda>h k v w. w,
     http_set_timeout_ms = \<lambda>h t w. w, http_perform = \<lambda>h w. ((ESP_OK, [ON_CONNECTED, ON_DATA text, ON_FINISH]), w + 1),
     http_get_status_code = \<lambda>h w. status, http_close = \<lambda>h w. w, http_cleanup = \<lambda>h w. w, get_time = \<lambda>w. (1000, w)\<rparr>"

definition demo_app :: FirebaseApp where
  "demo_app = \<lparr>register_url = [], login_url = [], auth_url = [], refresh_token = [], client = Some 1,
     client_handler = True, auth_obtained_time = 0, auth_expires_in = 0, default_timeout_ms = 20000,
     user_email = [], user_password = [], recv_state = (replicate HTTP_RECV_BUFFER_SIZE NUL, 0), auth_token = []\<rparr>"

definition token_reply :: string where
  "token_reply = ''{'' @ dq @ ''access_token'' @ dq @ '':'' @ dq @ ''abc'' @ dq @ '','' @ dq @ ''expires_in'' @ dq @ '':'' @
     dq @ ''1800'' @ dq @ ''}''"

lemma recv_ok_fresh: "recv_ok (replicate HTTP_RECV_BUFFER_SIZE NUL, 0)"
  by (simp add: recv_ok_def HTTP_RECV_BUFFER_SIZE_def)

lemma demo_app_ready: "app_ready demo_app"
  by (simp add: app_ready_def app_live_def terminated_def app_ok_def demo_app_def recv_ok_fresh) (simp add: HTTP_RECV_BUFFER_SIZE_def)

lemma demo_app_fields: "app_ok demo_app" "client_handler demo_app" "client demo_app = Some 1" "app_live demo_app" "terminated demo_app"
  using demo_app_ready by (simp_all add: app_ready_def app_live_def) (simp_all add: demo_app_def)

lemma demo_server_counts: "counts (demo_server s t) id"
  by (simp add: counts_def demo_server_def)

lemma demo_server_replies: "replies (demo_server 200 t) h w [ON_DATA t] (Suc w)"
  by (simp add: replies_def demo_server_def mid_reply_def)

lemma reply_of_one: "length t < HTTP_RECV_BUFFER_SIZE \<Longrightarrow> NUL \<notin> set t \<Longrightarrow> reply_of [ON_DATA t] = t"
  by (simp add: reply_of_def cstr_id)

lemma demo_replies: "reply_of [ON_DATA token_reply] = token_reply" "reply_of [ON_DATA ''[]''] = ''[]''"
  by (rule reply_of_one; simp add: token_reply_def dq_def HTTP_RECV_BUFFER_SIZE_def)+

theorem reply_is_received_up_to_capacity_witness:
  "\<exists>buf. handle_events (ON_CONNECTED # [ON_HEADER, ON_DATA ''ab'', ON_DATA ''c''] @ [ON_FINISH])
      (replicate HTTP_RECV_BUFFER_SIZE NUL, 0) = Some (buf, 0) \<and> cstr buf = ''abc''"
  using reply_is_received_up_to_capacity [OF recv_ok_fresh, of "[ON_HEADER, ON_DATA ''ab'', ON_DATA ''c'']"]
  by (auto simp: mid_reply_def cstr_def HTTP_RECV_BUFFER_SIZE_def)

theorem performRequest_bounded_retries_witness:
  "\<exists>ret a' w'. performRequest (demo_server 503 ''busy'') ''url'' METHOD_GET [] (demo_app, 0) = Ok (ret, a', w') \<and>
    app_ok a' \<and> id w' \<le> id (0 :: nat) + MAX_ATTEMPTS"
  using performRequest_bounded_retries [OF demo_app_fields(1) demo_server_counts, of 503 "''busy''" "''url''" METHOD_GET "[]" 0]
    demo_app_fields(5) unfolding terminated_def by blast

theorem firebase_operations_stay_in_buffers_witness:
  "safe json_exception (\<lambda>(_, a', _). app_live a' \<and> terminated a')
     (putData (demo_server 200 ''[]'') ''https://db'' ''/x'' ''{}'' (demo_app, 0))"
  using firebase_operations_stay_in_buffers [OF demo_app_fields(4), of "demo_server 200 ''[]''" "([], [])" "''https://db''" "''/x''" "''{}''" 1 0]
    demo_app_fields(5) by simp

lemma token_reply_parsed:
  obtains data m v where "parse_reply token_reply = Ok data" "payload data = PObject m"
    "map_find (CZString ''access_token'') m = Some v" "asString v = Inr ''abc''"
    "case map_find (CZString ''expires_in'') m of Some e \<Rightarrow> asCString e = Inr ''1800'' \<and> 1800 = atoi ''1800''
     | None \<Rightarrow> (case map_find (CZString ''expiresIn'') m of Some e \<Rightarrow> asCString e = Inr ''1800'' \<and> 1800 = atoi ''1800'' | None \<Rightarrow> (1800 :: int) = 3600)"
proof -
  have "case parse_reply token_reply of Ok data \<Rightarrow> (case payload data of PObject m \<Rightarrow>
      (case map_find (CZString ''access_token'') m of Some v \<Rightarrow> asString v = Inr ''abc'' | None \<Rightarrow> False) \<and>
      (case map_find (CZString ''expires_in'') m of Some e \<Rightarrow> asCString e = Inr ''1800'' \<and> 1800 = atoi ''1800''
       | None \<Rightarrow> (case map_find (CZString ''expiresIn'') m of Some e \<Rightarrow> asCString e = Inr ''1800'' \<and> 1800 = atoi ''1800'' | None \<Rightarrow> (1800 :: int) = 3600))
      | _ \<Rightarrow> False) | _ \<Rightarrow> False"
    by code_simp
  then show thesis using that by (auto split: res.splits Payload.splits option.splits)
qed

theorem getAuthToken_stores_token_witness:
  "\<exists>buf w'. getAuthToken (demo_server 200 token_reply) (demo_app, 0) =
    Ok (ESP_OK, demo_app\<lparr>recv_state := (buf, 0), auth_token := ''abc'', auth_expires_in := 1800, auth_obtained_time := 1000\<rparr>, w')"
proof -
  obtain data m v where d: "parse_reply token_reply = Ok data" "payload data = PObject m"
    "map_find (CZString ''access_token'') m = Some v" "asString v = Inr ''abc''"
    "case map_find (CZString ''expires_in'') m of Some e \<Rightarrow> asCString e = Inr ''1800'' \<and> 1800 = atoi ''1800''
     | None \<Rightarrow> (case map_find (CZString ''expiresIn'') m of Some e \<Rightarrow> asCString e = Inr ''1800'' \<and> 1800 = atoi ''1800'' | None \<Rightarrow> (1800 :: int) = 3600)"
    by (rule token_reply_parsed)
  have t: "get_time (demo_server 200 token_reply) w = (1000, w)" for w by (simp add: demo_server_def)
  from getAuthToken_stores_token [OF demo_app_fields(1-3) demo_server_replies [of token_reply], unfolded demo_replies, OF d t] show ?thesis by blast
qed

theorem getAuthToken_aborts_on_non_object_witness:
  "getAuthToken (demo_server 200 ''[]'') (demo_app, 0) =
    Abort (LogicError ''in Json::Value::resolveReference(key, end): requires objectValue'')"
proof -
  have "case parse_reply ''[]'' of Ok v \<Rightarrow> type_of v = arrayValue | _ \<Rightarrow> False" by code_simp
  then obtain v where v: "parse_reply ''[]'' = Ok v" "type_of v = arrayValue" by (auto split: res.splits)
  then have "type_of v \<notin> {nullValue, objectValue}" by simp
  from getAuthToken_aborts_on_non_object [OF demo_app_fields(1-3) demo_server_replies [of "''[]''"], unfolded demo_replies, OF v(1) this]
  show ?thesis .
qed

theorem refreshAuthIfNeeded_renews_in_last_30_seconds_witness:
  "refreshAuthIfNeeded (demo_server 200 []) (demo_app\<lparr>auth_token := ''t'', auth_expires_in := 3600, auth_obtained_time := 500\<rparr>, 0) =
    Ok (ESP_OK, demo_app\<lparr>auth_token := ''t'', auth_expires_in := 3600, auth_obtained_time := 500\<rparr>, 0)"
  by (subst refreshAuthIfNeeded_renews_in_last_30_seconds [of _ _ 0 1000 0])
    (simp_all add: demo_server_def)

text \<open>A server that refuses every request: the login fails, and so does the registration.\<close>

lemma request_refused:
  assumes "\<And>w. http_get_status_code api h w = 400"
  shows "app_ready a \<Longrightarrow> client a = Some h \<Longrightarrow>
    \<exists>e a' w'. request_loop api (Suc n) url m d ret (a, w) = Ok ((e, 400), a', w') \<and> app_ready a' \<and> client a' = Some h"
proof (induction n arbitrary: a w ret)
  case (0 a w ret)
  let ?w = "prepare_body api h m d (http_set_method api h m (http_set_url api h url w))"
  obtain ret r where p: "perform api h (a, ?w) = Ok (ret, a\<lparr>recv_state := r\<rparr>, snd (http_perform api h ?w))" "snd ret = 400"
    "recv_ok r" "terminated a \<longrightarrow> NUL \<in> set (fst r)"
    using perform_ok [of a api h ?w] 0 assms by (auto simp: app_ready_def app_live_def)
  then show ?case using 0
    by (cases ret) (auto simp: prepare_client_def is_2xx_def response_text_eq app_ready_def app_live_def app_ok_def terminated_def io_return_def)
next
  case (Suc n a w ret)
  let ?w = "prepare_body api h m d (http_set_method api h m (http_set_url api h url w))"
  obtain ret r where p: "perform api h (a, ?w) = Ok (ret, a\<lparr>recv_state := r\<rparr>, snd (http_perform api h ?w))" "snd ret = 400"
    "recv_ok r" "terminated a \<longrightarrow> NUL \<in> set (fst r)"
    using perform_ok [of a api h ?w] Suc.prems assms by (auto simp: app_ready_def app_live_def)
  have a: "app_ready (a\<lparr>recv_state := r\<rparr>)" "client (a\<lparr>recv_state := r\<rparr>) = Some h"
    using Suc.prems p(3,4) by (auto simp: app_ready_def app_live_def app_ok_def terminated_def)
  have "\<not> is_2xx ret" using p(2) by (simp add: is_2xx_def)
  with Suc.IH [OF a] p(1) a(1) show ?case
    unfolding request_loop.simps(2) [of _ "Suc n"] by (simp add: prepare_client_def Suc.prems(2) response_text_eq app_ready_def del: request_loop.simps)
qed

lemma sign_in_refused:
  assumes "\<And>w. http_get_status_code api h w = 400" "app_ready a" "client a = Some h"
  shows "\<exists>a' w'. sign_in api b account (a, w) = Ok (ESP_FAIL, a', w') \<and> app_ready a' \<and> client a' = Some h"
proof -
  let ?a = "a\<lparr>user_email := fst account, user_password := snd account\<rparr>"
  have "app_ready ?a" "client ?a = Some h" using assms(2,3) by (simp_all add: app_ready_def)
  note r = request_refused [OF assms(1) this]
  have five: "MAX_ATTEMPTS = Suc 4" by (simp add: MAX_ATTEMPTS_def)
  obtain e a' w' where "performRequest api (if b then register_url ?a else login_url ?a) METHOD_POST (account_json ?a)
      (?a, json_header api h w) = Ok ((e, 400), a', w')" "app_ready a'" "client a' = Some h"
    using r unfolding performRequest_def five by blast
  then show ?thesis using assms(3) by (simp add: sign_in_def getRefreshToken_def setHeader_def is_200_def io_return_def esp_err_defs)
qed

theorem firebase_init_retry_reports_success_witness:
  "\<exists>g' w'. firebase_init (demo_server 400 ''{}'') \<lparr>API_KEY = [], USER_EMAIL = [], USER_PASSWORD = [], DATABASE_URL = []\<rparr>
      (replicate HTTP_RECV_BUFFER_SIZE NUL) \<lparr>g_app = None, g_rtdb = None\<rparr> 0 = Ok (-2, g', w') \<and>
    firebase_putData (demo_server 400 ''{}'') ''/x'' ''{}'' g' w' = Ok (-1, g', w')"
proof -
  let ?p = "\<lparr>API_KEY = [], USER_EMAIL = [], USER_PASSWORD = [], DATABASE_URL = []\<rparr>" and ?api = "demo_server 400 ''{}''"
  let ?u = "replicate HTTP_RECV_BUFFER_SIZE NUL" and ?g = "\<lparr>g_app = None, g_rtdb = None\<rparr>"
  have st: "http_get_status_code ?api 1 w = 400" for w by (simp add: demo_server_def)
  obtain a w1 where n: "new_FirebaseApp ?api [] ?u 0 = Ok ((), a, w1)" "app_ready a" "client a = Some 1"
    by (simp add: new_FirebaseApp_def firebaseClientInit_def demo_server_def app_ready_def app_live_def app_ok_def terminated_def recv_ok_fresh)
      (simp add: HTTP_RECV_BUFFER_SIZE_def)
  let ?a = "a\<lparr>user_email := [], user_password := []\<rparr>"
  have "app_ready ?a" "client ?a = Some 1" using n(2,3) by (simp_all add: app_ready_def)
  from sign_in_refused [OF st this] obtain a2 w2 where l: "loginUserAccount ?api ([], []) (?a, w1) = Ok (ESP_FAIL, a2, w2)"
    "app_ready a2" "client a2 = Some 1" unfolding loginUserAccount_def by blast
  from sign_in_refused [OF st l(2,3)] obtain a3 w3 where r: "registerUserAccount ?api (user_account a2) (a2, w2) = Ok (ESP_FAIL, a3, w3)"
    unfolding registerUserAccount_def by blast
  obtain g' w' where g: "firebase_init ?api ?p ?u ?g 0 = Ok (-2, g', w')"
    using n(1) l(1) r by (simp add: firebase_init_def io_return_def esp_err_defs)
  with firebase_init_retry_reports_success [OF _ _ g, of ?u w' "''/x''" "''{}''"] show ?thesis by auto
qed

theorem deleteData_restores_timeout_witness:
  "\<exists>ret a' w'. deleteData (demo_server 200 ''null'') ''https://db'' ''/x'' (demo_app, 0) = Ok (ret, a', w') \<and> client a' = Some 1"
proof -
  let ?api = "demo_server 200 ''null''"
  let ?req = "performRequest ?api (delete_url ''https://db'' ''/x'' demo_app) METHOD_DELETE [] (demo_app, 0)"
  obtain buf w2 where p: "?req = Ok ((ESP_OK, 200), demo_app\<lparr>recv_state := (buf, 0)\<rparr>, w2)"
    "app_ready (demo_app\<lparr>recv_state := (buf, 0)\<rparr>)"
    using performRequest_once [OF demo_app_fields(1-3) demo_server_replies] by blast
  have id: "http_set_header ?api h k v w = w" "http_set_timeout_ms ?api h ms w = w" for h k v ms w
    by (simp_all add: demo_server_def)
  obtain ret a1 w1 where d: "deleteData ?api ''https://db'' ''/x'' (demo_app, 0) = Ok (ret, a1, w1)"
    using p clear_ready [of "demo_app\<lparr>recv_state := (buf, 0)\<rparr>" w2]
    by (simp add: deleteData_def setHttpTimeoutMs_def delete_headers_def setHeader_def with_client_def demo_app_fields id
      io_bind_def is_2xx_def restoreDefaultHttpTimeout_def io_return_def app_ready_def app_live_def)
  with deleteData_restores_timeout [OF demo_app_ready demo_app_fields(3) d] show ?thesis by blast
qed

end
