(* ===== verification/Sensors_Props.thy ===== *)
theory Sensors_Props
  imports Sensors
begin

text \<open>
  Properties of the sensor component: error detection by the CRC, bounded polling, ranges of
  the values, initialisation, and the size of the payload.
\<close>

section \<open>Transmission errors\<close>

definition unframe :: "frame list \<Rightarrow> u8 list" where
  "unframe fs = concat (map (\<lambda>(a, b, c). [a, b, c]) fs)"

lemma frames_unframe [simp]: "frames (unframe fs) = fs"
  by (induction fs) (auto simp: unframe_def)

lemma length_unframe [simp]: "length (unframe fs) = 3 * length fs"
  by (induction fs) (auto simp: unframe_def)

lemma crc_ok_flip1: "crc_ok f \<Longrightarrow> i < 24 \<Longrightarrow> \<not> crc_ok (flip i f)"
  by (simp add: flip_def crc_ok_xor syndrome_single)

text \<open>
  C19. The CRC check of the SEN5x decoder rejects every measurement in which one or two bits of one of the eight
  three-byte words (data or checksum) were inverted, whatever the measurement was.
\<close>

theorem sen5x_rejects_corrupted_words:
  assumes "length fs = 8" "sen5x_decode_measurement (unframe fs) \<noteq> None" "k < 8" "i < 24" "j < 24" "i \<noteq> j"
  shows "sen5x_decode_measurement (unframe (fs[k := flip i (fs ! k)])) = None \<and>
    sen5x_decode_measurement (unframe (fs[k := flip i (flip j (fs ! k))])) = None"
proof -
  have ok: "crc_ok (fs ! k)" using assms(1-3) sen5x_decode_iff [of "unframe fs"] by simp
  have "sen5x_decode_measurement (unframe (fs[k := f])) = None" if "\<not> crc_ok f" for f
  proof -
    have "f \<in> set (frames (unframe (fs[k := f])))" using assms(1,3) by (simp add: set_update_memI)
    then show ?thesis using sen5x_decode_iff [of "unframe (fs[k := f])"] that assms(1) by auto
  qed
  with crc_ok_flip1 [OF ok assms(4)] crc_ok_flip2 [OF ok assms(4-6)] show ?thesis by blast
qed

section \<open>Polling\<close>

definition transmits :: "'w i2c_driver \<Rightarrow> ('w \<Rightarrow> nat) \<Rightarrow> bool" where
  "transmits drv c \<longleftrightarrow> (\<forall>h d w. c (snd (i2c_master_transmit drv h d w)) = c w + 1) \<and>
     (\<forall>h n w. c (snd (i2c_master_receive drv h n w)) = c w)"

lemma ready_transmits:
  assumes "transmits drv c" "sen5x_read_data_ready drv s w = (r, w')"
  shows "c w' = c w + 1"
proof -
  obtain ret w1 where t: "i2c_master_transmit drv (s_sen5x_dev s) [0x02, 0x02] w = (ret, w1)" by force
  obtain ret2 bs w2 where v: "i2c_master_receive drv (s_sen5x_dev s) 3 w1 = ((ret2, bs), w2)" by (metis surj_pair)
  have "c w1 = c w + 1" "c w2 = c w1" using assms(1) t v unfolding transmits_def by (metis snd_conv)+
  with assms(2) show ?thesis by (auto simp: sen5x_read_data_ready_def t v Let_def split: if_splits)
qed

lemma poll_bounded:
  assumes "transmits drv c" "0 < n" "poll_data_ready drv s n w = (r, w')"
  shows "c w < c w' \<and> c w' \<le> c w + n \<and> (\<forall>v. r = Inr v \<and> v \<noteq> 1 \<longrightarrow> c w' = c w + n)"
  using assms(2,3)
proof (induction n arbitrary: w)
  case (Suc n)
  obtain q w1 where q: "sen5x_read_data_ready drv s w = (q, w1)" by force
  have c1: "c w1 = c w + 1" using ready_transmits [OF assms(1) q] .
  show ?case
  proof (cases q)
    case (Inl e)
    with Suc.prems(2) q c1 show ?thesis by (auto simp: poll_data_ready.simps [of drv s "Suc n" w])
  next
    case (Inr v)
    show ?thesis
    proof (cases "v = 1 \<or> n = 0")
      case True
      with Inr Suc.prems(2) q c1 show ?thesis by (auto simp: poll_data_ready.simps [of drv s "Suc n" w] split: if_splits)
    next
      case False
      with Inr Suc.prems(2) q have "poll_data_ready drv s n w1 = (r, w')"
        by (simp add: poll_data_ready.simps [of drv s "Suc n" w])
      with Suc.IH [of w1] False c1 show ?thesis by auto
    qed
  qed
qed simp

text \<open>
  C35. A reading that fails, at whatever step, leaves the caller's structure as it was, after at most 32 commands on the
  bus: the wait for data gives up after 30 polls.
\<close>

theorem sensors_read_error_keeps_output:
  assumes "sensors_read drv s out w = (err, out', w')" "err \<noteq> ESP_OK" "transmits drv c"
  shows "out' = out \<and> c w' \<le> c w + 32"
proof -
  have t: "c (snd (scd4x_read_measurement drv s w)) = c w + 1" for w
  proof -
    obtain ret w1 where t: "i2c_master_transmit drv (s_scd4x_dev s) [0xEC, 0x05] w = (ret, w1)" by force
    obtain ret2 bs w2 where v: "i2c_master_receive drv (s_scd4x_dev s) 9 w1 = ((ret2, bs), w2)" by (metis surj_pair)
    have "c w1 = c w + 1" "c w2 = c w1" using assms(3) t v unfolding transmits_def by (metis snd_conv)+
    then show ?thesis by (simp add: scd4x_read_measurement_def t v Let_def)
  qed
  have m: "c (snd (sen5x_read_measured_values drv s n w)) = c w + 1" for n w
  proof -
    obtain ret w1 where t: "i2c_master_transmit drv (s_sen5x_dev s) [0x03, 0xC4] w = (ret, w1)" by force
    obtain ret2 bs w2 where v: "i2c_master_receive drv (s_sen5x_dev s) n w1 = ((ret2, bs), w2)" by (metis surj_pair)
    have "c w1 = c w + 1" "c w2 = c w1" using assms(3) t v unfolding transmits_def by (metis snd_conv)+
    then show ?thesis by (simp add: sen5x_read_measured_values_def t v Let_def)
  qed
  obtain r1 w1 where a: "scd4x_read_measurement drv s w = (r1, w1)" by force
  obtain r2 w2 where b: "poll_data_ready drv s 30 w1 = (r2, w2)" by force
  obtain r3 w3 where d: "sen5x_read_measured_values drv s 24 w2 = (r3, w3)" by force
  have c: "c w1 = c w + 1" "c w2 \<le> c w1 + 30" "c w3 = c w2 + 1"
    using t [of w] a poll_bounded [OF assms(3) _ b] d m [of 24 w2] by simp_all
  have "out' = out" using sensors_read_failure_keeps_output [OF assms(1,2)] .
  moreover have "w' = w \<or> w' = w1 \<or> w' = w2 \<or> w' = w3"
    using assms(1) by (auto simp: sensors_read_def a b d Let_def split: option.splits sum.splits if_splits)
  ultimately show ?thesis using c by auto
qed

text \<open>
  C33. Every value of a successful reading lies in the range its formula allows, rounding to \<open>float\<close> included: the SCD4x
  temperature in -45 to 130 and humidity in 0 to 100, the particle and index values in 0 to 6554, the means in -23 to 229
  and 0 to 378.
\<close>

theorem sensors_read_values_in_range:
  assumes "sensors_read drv s out w = (ESP_OK, Some d, w')"
  shows "sensor_ranges d"
  using assms by (rule sensors_read_ranges)

text \<open>
  When adding a device fails, \<open>sensors_init_all\<close> returns the error but keeps the bus handle, so that the next call
  returns \<open>ESP_OK\<close> at once although the SEN5x handle is still null.
\<close>

theorem sensors_init_ok_without_devices:
  assumes "s_i2c_bus s = None" "s_sen5x_dev s = None" "sensors_init_all drv s w = (err, s', w')" "err \<noteq> ESP_OK"
    "s_i2c_bus s' \<noteq> None"
  shows "sensors_init_all drv s' v = (ESP_OK, s', v) \<and> s_sen5x_dev s' = None"
  using assms by (auto simp: sensors_init_all_def Let_def split: prod.splits if_splits)

section \<open>The payload fits\<close>

lemma length_pad_left: "length s \<le> n \<Longrightarrow> length (pad_left n s) = n"
  by (simp add: pad_left_def)

lemma fmt_f_length:
  assumes "in_range (-9999) 9999 q" "0 < n"
  shows "length (fmt_f n q) \<le> n + 6"
proof -
  define m where "m = nat (rhe (\<bar>q\<bar> * 10 ^ n))"
  have "\<bar>q\<bar> \<le> 9999" using assms(1) by (auto simp: in_range_def abs_if)
  then have "\<bar>q\<bar> * 10 ^ n \<le> of_int (9999 * 10 ^ n)" by (simp add: mult_right_mono)
  then have "rhe (\<bar>q\<bar> * 10 ^ n) \<le> 9999 * 10 ^ n" by (rule rhe_le_int)
  then have "m \<le> 9999 * 10 ^ n" by (simp add: m_def nat_le_iff)
  then have "m div 10 ^ n \<le> 9999 * 10 ^ n div 10 ^ n" by (rule div_le_mono)
  then have "m div 10 ^ n < 10 ^ 4" by simp
  then have a: "length (dec (m div 10 ^ n)) \<le> 4" by (rule length_dec) simp
  have "length (dec (m mod 10 ^ n)) \<le> n" using assms(2) by (intro length_dec) simp_all
  then have "length (pad_left n (dec (m mod 10 ^ n))) = n" by (rule length_pad_left)
  with a show ?thesis by (simp add: fmt_f_def Let_def m_def [symmetric])
qed

lemma in_range_widen: "in_range a b x \<Longrightarrow> -9999 \<le> a \<Longrightarrow> b \<le> 9999 \<Longrightarrow> in_range (-9999) 9999 x"
proof -
  assume x: "in_range a b x" "-9999 \<le> a" "b \<le> 9999"
  then have "of_int (-9999) \<le> (of_int a :: rat)" "of_int b \<le> (of_int 9999 :: rat)" by (simp_all only: of_int_le_iff)
  with x(1) show ?thesis unfolding in_range_def by linarith
qed

text \<open>The eight printed values have at most four digits before the point.\<close>

definition printable :: "SensorData \<Rightarrow> bool" where
  "printable d \<longleftrightarrow> (\<forall>f \<in> {pm1p0, pm2p5, pm4p0, pm10p0, voc, nox, avg_temp, avg_hum}. in_range (-9999) 9999 (f d))"

lemma sensor_ranges_printable: "sensor_ranges d \<Longrightarrow> printable d"
  by (auto simp: sensor_ranges_def printable_def intro: in_range_widen)

lemma json_values_length:
  assumes "printable d"
  shows "length (json_values d) \<le> 142"
proof -
  have r: "in_range (-9999) 9999 (f d)" if "f \<in> {pm1p0, pm2p5, pm4p0, pm10p0, voc, nox, avg_temp, avg_hum}" for f
    using assms that unfolding printable_def by blast
  have f2: "length (fmt_f 2 (f d)) \<le> 8" if "f \<in> {pm1p0, pm2p5, pm4p0, pm10p0, avg_temp, avg_hum}" for f
    using fmt_f_length [OF r, of f 2] that by auto
  have f1: "length (fmt_f 1 (f d)) \<le> 7" if "f \<in> {voc, nox}" for f
    using fmt_f_length [OF r, of f 1] that by auto
  have c: "length (dec (unat (co2 d))) \<le> 5"
    using u16_bound [of "co2 d"] by (intro length_dec) simp_all
  show ?thesis
    using f2 [of pm1p0] f2 [of pm2p5] f2 [of pm4p0] f2 [of pm10p0] f1 [of voc] f1 [of nox] f2 [of avg_temp] f2 [of avg_hum] c
    by (simp add: json_values_def key_def)
qed

lemma format_json_fits:
  assumes "printable d" "length (g_city_state s) \<le> 63" "length hora \<le> 8" "length fecha \<le> 10" "length inicio \<le> 8"
    "length device_id \<le> 96"
  shows "sensors_format_json device_id s d hora fecha inicio 384 =
    Some (json_values d @ json_str ''fecha'' fecha @ '','' @ json_str ''inicio'' inicio @ '','' @
        json_str ''ciudad'' (g_city_state s) @ '','' @ json_str ''hora'' hora @ '','' @ json_str ''id'' device_id @ ''}'')"
  unfolding sensors_format_json_def using json_values_length [OF assms(1)] assms(2-)
  by (simp add: json_str_def key_def c_trunc_fits)

text \<open>
  C34. For values in range, a city of at most 63 characters and a device id of at most 96, the payload of the first
  message fits the 384-byte array of the caller: it is never cut, so the JSON object is always closed.
\<close>

theorem sensors_format_json_complete:
  assumes "sensor_ranges d" "length (g_city_state s) \<le> 63" "length hora \<le> 8" "length fecha \<le> 10" "length inicio \<le> 8"
    "length device_id \<le> 96"
  shows "sensors_format_json device_id s d hora fecha inicio 384 =
    Some (json_values d @ json_str ''fecha'' fecha @ '','' @ json_str ''inicio'' inicio @ '','' @
        json_str ''ciudad'' (g_city_state s) @ '','' @ json_str ''hora'' hora @ '','' @ json_str ''id'' device_id @ ''}'')"
  using sensor_ranges_printable [OF assms(1)] assms(2-) by (rule format_json_fits)

section \<open>A concrete bus\<close>

text \<open>Every command succeeds; the SEN5x is ready and all raw words are 0.\<close>

definition demo_bus :: "nat i2c_driver" where
  "demo_bus = \<lparr>i2c_new_master_bus = \<lambda>w. ((ESP_OK, 1), w), i2c_master_bus_add_device = \<lambda>b a w. ((if a = 0x69 then ESP_FAIL else ESP_OK, 2), w),
     i2c_master_transmit = \<lambda>h d w. (ESP_OK, w + 1),
     i2c_master_receive = \<lambda>h n w. ((ESP_OK, if n = 3 then [0, 1, 0xB0] else concat (replicate 8 [0, 0, 0x81])), w)\<rparr>"

definition demo_data :: SensorData where
  "demo_data = \<lparr>co2 = 0, scd_temp = 0, scd_hum = 0, pm1p0 = 0, pm2p5 = 0, pm4p0 = 0, pm10p0 = 0, voc = 0, nox = 0,
     sen_temp = 0, sen_hum = 0, avg_temp = 0, avg_hum = 0\<rparr>"

lemma crc_bytes: "sen5x_crc8 [0, 0] = 0x81" "sen5x_crc8 [0, 1] = 0xB0"
  by (simp_all add: sen5x_crc8_def crc_byte_step crc_bit_literal)

lemma demo_decode: "sen5x_decode_measurement (fit 24 (concat (replicate 8 [0, 0, 0x81]))) = Some (replicate 8 0)"
  by (simp add: sen5x_decode_measurement_def fit_def numeral_eq_Suc crc_bytes [simplified numeral_eq_Suc] f_of_def be16_def rnd_float_def)

lemma demo_bus_simps:
  "i2c_master_transmit demo_bus h d w = (ESP_OK, w + 1)" "i2c_master_receive demo_bus h 3 w = ((ESP_OK, [0, 1, 0xB0]), w)"
  "n \<noteq> 3 \<Longrightarrow> i2c_master_receive demo_bus h n w = ((ESP_OK, concat (replicate 8 [0, 0, 0x81])), w)"
  by (simp_all add: demo_bus_def)

lemma demo_bus_transmits: "transmits demo_bus id"
  by (simp add: transmits_def demo_bus_def)

lemma demo_read: "\<exists>d. sensors_read demo_bus sensors_state0 (Some demo_data) 0 = (ESP_OK, Some d, 3)"
proof -
  have "\<exists>c t h. scd4x_read_measurement demo_bus sensors_state0 0 = (Inr (c, t, h), 1)"
    by (simp add: scd4x_read_measurement_def demo_bus_simps Let_def)
  then obtain c t h where m: "scd4x_read_measurement demo_bus sensors_state0 0 = (Inr (c, t, h), 1)" by blast
  have p: "poll_data_ready demo_bus sensors_state0 30 1 = (Inr 1, 2)"
    by (subst poll_data_ready.simps) (simp add: sen5x_read_data_ready_def demo_bus_simps fit_def crc_bytes [simplified] numeral_2_eq_2)
  have v: "sen5x_read_measured_values demo_bus sensors_state0 24 2 = (Inr (fit 24 (concat (replicate 8 [0, 0, 0x81]))), 3)"
    by (simp add: sen5x_read_measured_values_def demo_bus_simps)
  show ?thesis unfolding sensors_read_def option.case m prod.case sum.case p v demo_decode by (simp add: Let_def)
qed

theorem sensors_read_values_in_range_witness:
  "\<exists>d. sensors_read demo_bus sensors_state0 (Some demo_data) 0 = (ESP_OK, Some d, 3) \<and> sensor_ranges d"
proof -
  obtain d where d: "sensors_read demo_bus sensors_state0 (Some demo_data) 0 = (ESP_OK, Some d, 3)" using demo_read by (rule exE)
  from sensors_read_values_in_range [OF d] d show ?thesis by blast
qed

text \<open>A bus that delivers words with a wrong CRC.\<close>

theorem sensors_read_error_keeps_output_witness:
  "\<exists>out w'. sensors_read (demo_bus\<lparr>i2c_master_receive := \<lambda>h n w. ((ESP_OK, replicate n 0), w)\<rparr>) sensors_state0 (Some demo_data) 0 =
     (ESP_ERR_INVALID_CRC, out, w') \<and> out = Some demo_data \<and> id w' \<le> id (0 :: nat) + 32"
proof -
  let ?bus = "demo_bus\<lparr>i2c_master_receive := \<lambda>h n w. ((ESP_OK, replicate n 0), w)\<rparr>"
  have "fst (sensors_read ?bus sensors_state0 (Some demo_data) 0) = ESP_ERR_INVALID_CRC" by code_simp
  then obtain out w' where e: "sensors_read ?bus sensors_state0 (Some demo_data) 0 = (ESP_ERR_INVALID_CRC, out, w')"
    by (metis prod.collapse)
  have "ESP_ERR_INVALID_CRC \<noteq> ESP_OK" "transmits ?bus id" by (simp_all add: esp_err_defs transmits_def demo_bus_def)
  from sensors_read_error_keeps_output [OF e this] e show ?thesis by blast
qed

theorem sen5x_rejects_corrupted_words_witness:
  "sen5x_decode_measurement (unframe ((replicate 8 (0, 0, 0x81))[3 := flip 5 (0, 0, 0x81)])) = None"
proof -
  have "unframe (replicate 8 (0, 0, 0x81)) = fit 24 (concat (replicate 8 [0, 0, 0x81]))"
    by (simp add: unframe_def fit_def numeral_eq_Suc)
  with demo_decode have "sen5x_decode_measurement (unframe (replicate 8 (0, 0, 0x81))) \<noteq> None" by simp
  with sen5x_rejects_corrupted_words [of "replicate 8 (0, 0, 0x81)" 3 5 6] show ?thesis by simp
qed

theorem sensors_init_ok_without_devices_witness:
  "\<exists>s'. sensors_init_all demo_bus sensors_state0 0 = (ESP_FAIL, s', 0) \<and>
     sensors_init_all demo_bus s' 0 = (ESP_OK, s', 0) \<and> s_sen5x_dev s' = None"
proof -
  let ?s = "sensors_state0\<lparr>s_i2c_bus := Some 1, s_scd4x_dev := Some 2\<rparr>"
  have e: "sensors_init_all demo_bus sensors_state0 0 = (ESP_FAIL, ?s, 0)"
    by (simp add: sensors_init_all_def demo_bus_def sensors_state0_def SCD4X_ADDR_def SEN5X_ADDR_def esp_err_defs)
  have "ESP_FAIL \<noteq> ESP_OK" by (simp add: esp_err_defs)
  from sensors_init_ok_without_devices [OF _ _ e this, of 0] e show ?thesis by (auto simp: sensors_state0_def)
qed

theorem sensors_format_json_complete_witness:
  "\<exists>d. sensor_ranges d \<and> sensors_format_json ''esp32'' sensors_state0 d ''10:00:00'' ''01-01-2025'' ''09:00:00'' 384 =
    Some (json_values d @ json_str ''fecha'' ''01-01-2025'' @ '','' @ json_str ''inicio'' ''09:00:00'' @ '','' @
        json_str ''ciudad'' ''----'' @ '','' @ json_str ''hora'' ''10:00:00'' @ '','' @ json_str ''id'' ''esp32'' @ ''}'')"
proof -
  obtain d where "sensors_read demo_bus sensors_state0 (Some demo_data) 0 = (ESP_OK, Some d, 3)" using demo_read by (rule exE)
  then have d: "sensor_ranges d" by (rule sensors_read_ranges)
  have "g_city_state sensors_state0 = ''----''" by (simp add: sensors_state0_def)
  with sensors_format_json_complete [OF d, of sensors_state0 "''10:00:00''" "''01-01-2025''" "''09:00:00''" "''esp32''"] d
  show ?thesis by auto
qed

end
