(* ===== verification/Modem_Props.thy ===== *)
theory Modem_Props
  imports Modem
begin

text \<open>
  Properties of the modem: both accumulators as instances of \<open>chunk_buffer\<close>, termination and
  query bounds of the waits, the \<open>+CPSI\<close> parser, geolocation, and the start of PPP.
\<close>

section \<open>The accumulators\<close>

lemma take_room: "l \<le> m \<Longrightarrow> l \<le> length b \<Longrightarrow> take m (take l b @ d) = take l b @ take (min (length d) (m - l)) d"
  by (cases "length d \<le> m - l") (simp_all add: min.absorb1 min.absorb2)

definition at_acc_ok :: "at_acc \<Rightarrow> bool" where
  "at_acc_ok a \<longleftrightarrow> (\<exists>buf. acc_buf a = Some buf \<and> length buf = acc_size a) \<and> acc_used a < acc_size a \<and> acc_size a < 2 ^ 32"

definition at_content :: "at_acc \<Rightarrow> string" where
  "at_content a = (case acc_buf a of None \<Rightarrow> [] | Some buf \<Rightarrow> take (acc_used a) buf)"

lemma at_acc_cb_eq:
  assumes "at_acc_ok a"
  shows "\<exists>a'. at_acc_cb a d = Some a' \<and> at_acc_ok a' \<and> acc_size a' = acc_size a \<and>
    at_content a' = take (acc_size a - 1) (at_content a @ d)"
proof -
  obtain buf where b: "acc_buf a = Some buf" "length buf = acc_size a" and u: "acc_used a < acc_size a" "acc_size a < 2 ^ 32"
    using assms by (auto simp: at_acc_ok_def)
  define n where "n = min (length d) (acc_size a - acc_used a - 1)"
  have room: "(int (acc_size a) - int (acc_used a) - 1) mod 2 ^ 32 = int (acc_size a - acc_used a - 1)"
    using u by (subst mod_pos_pos_trivial) (simp_all add: of_nat_diff)
  have n: "(if int (length d) < int (acc_size a - acc_used a - 1) then length d
      else nat (int (acc_size a - acc_used a - 1))) = n" by (simp add: n_def min_def)
  show ?thesis
  proof (cases "n = 0")
    case True
    then have "d = [] \<or> acc_used a = acc_size a - 1" using u by (auto simp: n_def min_def split: if_splits)
    with True b u assms show ?thesis unfolding at_acc_cb_def room n Let_def
      by (auto simp: at_content_def take_append)
  next
    case False
    have ln: "length (take n d) = n" by (simp add: n_def)
    obtain c where c: "mem_write buf (acc_used a) (take n d) = Some c"
    proof -
      have "acc_used a + length (take n d) \<le> length buf" using b(2) u by (simp add: n_def)
      from mem_write_in_bounds [OF this] that show thesis by blast
    qed
    have lc: "length c = acc_size a" "take (acc_used a + n) c = take (acc_used a) buf @ take n d"
      using mem_write_length [OF c] mem_write_take [OF c] b(2) unfolding ln by simp_all
    have un: "acc_used a + n < acc_size a" using u by (simp add: n_def)
    have w: "mem_write c (acc_used a + n) [NUL] = Some (c[acc_used a + n := NUL])"
      using un lc(1) by (simp add: mem_write_def upd_conv_take_nth_drop)
    have t: "take (acc_size a - 1) (take (acc_used a) buf @ d) = take (acc_used a) buf @ take n d"
      using take_room [of "acc_used a" "acc_size a - 1" buf d] b(2) u by (simp add: n_def)
    have "at_acc_cb a d = Some (a\<lparr>acc_buf := Some (c[acc_used a + n := NUL]), acc_used := acc_used a + n\<rparr>)"
      using False b(1) c w unfolding at_acc_cb_def room n Let_def by simp
    then show ?thesis using lc un u t by (simp add: at_acc_ok_def at_content_def b(1))
  qed
qed

interpretation at_buffer: chunk_buffer at_acc_cb at_content "\<lambda>a. acc_size a - 1" at_acc_ok
proof
  fix a a' d
  assume a: "at_acc_ok a"
  from at_acc_cb_eq [OF a, of d] obtain b where b: "at_acc_cb a d = Some b" "at_acc_ok b" "acc_size b = acc_size a"
    "at_content b = take (acc_size a - 1) (at_content a @ d)" by blast
  then show "\<exists>a'. at_acc_cb a d = Some a'" by blast
  assume "at_acc_cb a d = Some a'"
  with b show "at_acc_ok a'" "acc_size a' - 1 = acc_size a - 1" "at_content a' = take (acc_size a - 1) (at_content a @ d)"
    by simp_all
next
  fix a assume "at_acc_ok a"
  then show "length (at_content a) \<le> acc_size a - 1" by (auto simp: at_acc_ok_def at_content_def)
qed

lemma at_acc_all_eq: "at_acc_all a ds = at_buffer.append_all a ds"
  by (induction ds arbitrary: a) (auto split: option.splits)

definition ul_ok :: "ul_accum \<Rightarrow> bool" where
  "ul_ok a \<longleftrightarrow> int (length (ul_buf a)) = ul_max a \<and> int (ul_len a) < ul_max a \<and> ul_buf a ! ul_len a = NUL"

definition ul_content :: "ul_accum \<Rightarrow> string" where
  "ul_content a = take (ul_len a) (ul_buf a)"

lemma ul_append_eq:
  assumes "ul_ok a"
  shows "\<exists>a'. ul_append a d = Some a' \<and> ul_ok a' \<and> ul_max a' = ul_max a \<and>
    ul_len a' = min (length (ul_buf a) - 1) (ul_len a + length d) \<and>
    ul_content a' = take (length (ul_buf a) - 1) (ul_content a @ d)"
proof -
  let ?b = "ul_buf a" and ?l = "ul_len a"
  have u: "ul_max a = int (length ?b)" "?l < length ?b" using assms by (auto simp: ul_ok_def)
  define n where "n = min (length d) (length ?b - ?l - 1)"
  have room: "ul_max a - int ?l - 1 = int (length ?b - ?l - 1)" using u by (simp add: of_nat_diff)
  have n: "(if int (length d) < int (length ?b - ?l - 1) then int (length d) else int (length ?b - ?l - 1)) = int n"
    by (simp add: n_def min_def)
  show ?thesis
  proof (cases "n = 0")
    case True
    then have "d = [] \<or> ?l = length ?b - 1" using u by (auto simp: n_def min_def split: if_splits)
    moreover have "min (length ?b - 1) ?l = ?l" using u by simp
    ultimately show ?thesis using True u assms unfolding ul_append_def room n Let_def
      by (auto simp: ul_content_def take_append)
  next
    case False
    have ln: "length (take n d) = n" by (simp add: n_def)
    obtain c where c: "mem_write ?b ?l (take n d) = Some c"
    proof -
      have "?l + length (take n d) \<le> length ?b" using u by (simp add: n_def)
      from mem_write_in_bounds [OF this] that show thesis by blast
    qed
    have lc: "length c = length ?b" "take (?l + n) c = take ?l ?b @ take n d"
      using mem_write_length [OF c] mem_write_take [OF c] unfolding ln by simp_all
    have un: "?l + n < length ?b" using u by (simp add: n_def)
    have w: "mem_write c (?l + n) [NUL] = Some (c[?l + n := NUL])"
      using un lc(1) by (simp add: mem_write_def upd_conv_take_nth_drop)
    have t: "take (length ?b - 1) (take ?l ?b @ d) = take ?l ?b @ take n d"
      using take_room [of ?l "length ?b - 1" ?b d] u by (simp add: n_def)
    have "ul_append a d = Some (a\<lparr>ul_buf := c[?l + n := NUL], ul_len := ?l + n\<rparr>)"
      using False c w unfolding ul_append_def room n Let_def by (auto simp: n_def)
    moreover have "?l + n = min (length ?b - 1) (?l + length d)" using u by (auto simp: n_def min_def)
    ultimately show ?thesis using lc un u t by (simp add: ul_ok_def ul_content_def)
  qed
qed

interpretation ul_buffer: chunk_buffer ul_append ul_content "\<lambda>a. nat (ul_max a) - 1" ul_ok
proof
  fix a a' d
  assume a: "ul_ok a"
  from ul_append_eq [OF a, of d] a obtain b where b: "ul_append a d = Some b" "ul_ok b" "ul_max b = ul_max a"
    "ul_content b = take (nat (ul_max a) - 1) (ul_content a @ d)"
    unfolding ul_ok_def by (metis nat_int)
  then show "\<exists>a'. ul_append a d = Some a'" by blast
  assume "ul_append a d = Some a'"
  with b show "ul_ok a'" "nat (ul_max a') - 1 = nat (ul_max a) - 1"
    "ul_content a' = take (nat (ul_max a) - 1) (ul_content a @ d)" by simp_all
next
  fix a assume "ul_ok a"
  then show "length (ul_content a) \<le> nat (ul_max a) - 1" by (auto simp: ul_ok_def ul_content_def)
qed

lemma ul_events_eq: "ul_events es a = ul_buffer.append_all a (concat (map data_of es))"
proof (induction es arbitrary: a)
  case (Cons e es)
  then show ?case by (cases e) (auto split: option.splits)
qed simp

lemma ul_accum0_ok: "ul_ok ul_accum0" "ul_content ul_accum0 = []" "nat (ul_max ul_accum0) - 1 = UL_BODY_MAX - 1"
  by (simp_all add: ul_ok_def ul_content_def ul_accum0_def) (simp_all add: UL_BODY_MAX_def)

lemma cstr_upto: "i < length b \<Longrightarrow> b ! i = NUL \<Longrightarrow> cstr b = cstr (take i b)"
proof -
  assume i: "i < length b" "b ! i = NUL"
  have b: "b = take i b @ NUL # drop (Suc i) b" using id_take_nth_drop [OF i(1)] i(2) by simp
  have "cstr (s @ NUL # t) = cstr s" for s t by (induction s) (simp_all add: cstr_def)
  then show ?thesis using b by metis
qed

lemma ul_events_ok:
  "\<exists>acc. ul_events es ul_accum0 = Some acc \<and> length (ul_buf acc) = UL_BODY_MAX \<and>
    cstr (ul_buf acc) = cstr (take (UL_BODY_MAX - 1) (concat (concat (map data_of es))))"
proof -
  obtain acc where a: "ul_events es ul_accum0 = Some acc" "ul_ok acc" "nat (ul_max acc) - 1 = UL_BODY_MAX - 1"
    "ul_content acc = take (UL_BODY_MAX - 1) (concat (concat (map data_of es)))"
    using ul_buffer.append_all_content [OF ul_accum0_ok(1), of "concat (map data_of es)"]
    unfolding ul_events_eq ul_accum0_ok by auto
  have l: "length (ul_buf acc) = UL_BODY_MAX" "ul_len acc < length (ul_buf acc)"
    using a(2,3) by (auto simp: ul_ok_def UL_BODY_MAX_def)
  have "cstr (ul_buf acc) = cstr (ul_content acc)"
    using cstr_upto [OF l(2)] a(2) by (simp add: ul_ok_def ul_content_def)
  with a l show ?thesis by auto
qed

text \<open>
  Replies that arrive in chunks are collected without a write outside their array, whatever the chunks: the
  geolocation reply is afterwards the C string of the concatenated data cut to 4095 characters, and the
  accumulator of AT replies holds their first 63 characters.
\<close>

theorem chunked_replies_are_collected:
  "(\<exists>acc. ul_events es ul_accum0 = Some acc \<and> length (ul_buf acc) = UL_BODY_MAX \<and>
      cstr (ul_buf acc) = cstr (take (UL_BODY_MAX - 1) (concat (concat (map data_of es))))) \<and>
   (\<exists>a. at_acc_all (at_acc_of 64) chunks = Some a \<and> acc_size a = 64 \<and> acc_used a < 64 \<and>
      at_content a = take 63 (concat chunks))"
proof -
  have o: "at_acc_ok (at_acc_of 64)" by (simp add: at_acc_ok_def at_acc_of_def)
  have c: "at_content (at_acc_of 64) = []" "acc_size (at_acc_of 64) - 1 = 63"
    by (simp_all add: at_content_def at_acc_of_def)
  obtain a where "at_acc_all (at_acc_of 64) chunks = Some a" "at_acc_ok a" "acc_size a - 1 = 63" "at_content a = take 63 (concat chunks)"
    using at_buffer.append_all_content [OF o, of chunks] unfolding at_acc_all_eq c by auto
  then have "\<exists>a. at_acc_all (at_acc_of 64) chunks = Some a \<and> acc_size a = 64 \<and> acc_used a < 64 \<and>
      at_content a = take 63 (concat chunks)" by (auto simp: at_acc_ok_def)
  with ul_events_ok [of es] show ?thesis by blast
qed

section \<open>Registration and cell information\<close>

definition at_counts :: "'w modem_api \<Rightarrow> ('w \<Rightarrow> nat) \<Rightarrow> bool" where
  "at_counts api c \<longleftrightarrow> (\<forall>dce cmd t w. c (snd (esp_modem_at api dce cmd t w)) = c w + 1)"

lemma cereg_loop_ends:
  assumes "0 < poll_ms"
  shows "\<exists>err w'. cereg_loop api dce timeout_ms poll_ms elapsed out w = Some (err, w') \<and>
    (err = ESP_OK \<or> err = ESP_ERR_TIMEOUT) \<and>
    (at_counts api c \<longrightarrow> c w \<le> c w' \<and>
       int (c w' - c w) * poll_ms < max 0 (timeout_ms - elapsed) + poll_ms \<and>
       (err = ESP_ERR_TIMEOUT \<longrightarrow> timeout_ms - elapsed \<le> int (c w' - c w) * poll_ms))"
proof (induction "nat (timeout_ms - elapsed)" arbitrary: elapsed out w rule: less_induct)
  case less
  show ?case
  proof (cases "elapsed < timeout_ms")
    case False
    then show ?thesis using assms by (subst cereg_loop.simps) simp
  next
    case True
    obtain err o' w1 where a: "esp_modem_at api dce (''AT+CEREG?'' @ AT_CR) 2000 w = ((err, o'), w1)" by (metis surj_pair)
    have c1: "at_counts api c \<Longrightarrow> c w1 = c w + 1"
      using a unfolding at_counts_def by (metis snd_conv)
    let ?out = "case o' of None \<Rightarrow> out | Some t \<Rightarrow> t"
    have step: "cereg_loop api dce timeout_ms poll_ms elapsed out w =
        (if err = ESP_OK \<and> cereg_registrado ?out then Some (ESP_OK, w1)
         else cereg_loop api dce timeout_ms poll_ms (elapsed + poll_ms) ?out w1)"
      by (subst cereg_loop.simps) (simp only: True a Let_def prod.case if_True)
    show ?thesis
    proof (cases "err = ESP_OK \<and> cereg_registrado ?out")
      case ok: True
      then show ?thesis using True c1 assms unfolding step by (auto simp: esp_err_defs)
    next
      case no: False
      have "nat (timeout_ms - (elapsed + poll_ms)) < nat (timeout_ms - elapsed)" using assms True by simp
      from less [OF this, of ?out w1] obtain e w' where
        r: "cereg_loop api dce timeout_ms poll_ms (elapsed + poll_ms) ?out w1 = Some (e, w')" "e = ESP_OK \<or> e = ESP_ERR_TIMEOUT"
        and c': "at_counts api c \<Longrightarrow> c w1 \<le> c w' \<and>
          int (c w' - c w1) * poll_ms < max 0 (timeout_ms - (elapsed + poll_ms)) + poll_ms \<and>
          (e = ESP_ERR_TIMEOUT \<longrightarrow> timeout_ms - (elapsed + poll_ms) \<le> int (c w' - c w1) * poll_ms)"
        by blast
      have "c w \<le> c w' \<and> int (c w' - c w) * poll_ms < max 0 (timeout_ms - elapsed) + poll_ms \<and>
          (e = ESP_ERR_TIMEOUT \<longrightarrow> timeout_ms - elapsed \<le> int (c w' - c w) * poll_ms)" if k: "at_counts api c"
      proof -
        have "int (c w' - c w) = int (c w' - c w1) + 1" using c1 [OF k] c' [OF k] by simp
        then have "int (c w' - c w) * poll_ms = int (c w' - c w1) * poll_ms + poll_ms" by (simp add: distrib_right)
        moreover have "int (c w' - c w1) = 0" if "timeout_ms \<le> elapsed + poll_ms"
        proof -
          have "int (c w' - c w1) * poll_ms < 1 * poll_ms" using c' [OF k] that by (simp add: max_def del: of_nat_diff split: if_splits)
          with assms show ?thesis by (simp only: mult_less_cancel_right) simp
        qed
        ultimately show ?thesis using c' [OF k] c1 [OF k] True assms
          by (cases "timeout_ms \<le> elapsed + poll_ms") (auto simp: max_def simp del: of_nat_diff split: if_splits)
      qed
      with r show ?thesis unfolding step if_not_P [OF no] by auto
    qed
  qed
qed

text \<open>
  The wait for registration ends for every modem when the polling interval is positive: it returns \<open>ESP_OK\<close> or
  \<open>ESP_ERR_TIMEOUT\<close>, sends fewer than \<open>timeout_ms / poll_ms + 1\<close> queries, and reports a timeout only after polling for
  at least \<open>timeout_ms\<close>.
\<close>

theorem esperar_cereg_returns:
  assumes "0 < poll_ms" "0 \<le> timeout_ms" "at_counts api c"
  shows "\<exists>err w'. esperar_cereg api dce timeout_ms poll_ms w = Some (err, w') \<and>
    (err = ESP_OK \<or> err = ESP_ERR_TIMEOUT) \<and> c w \<le> c w' \<and>
    int (c w' - c w) * poll_ms < timeout_ms + poll_ms \<and>
    (err = ESP_ERR_TIMEOUT \<longrightarrow> timeout_ms \<le> int (c w' - c w) * poll_ms)"
  using cereg_loop_ends [OF assms(1), of api dce timeout_ms 0 "[]" w c] assms(2,3)
  unfolding esperar_cereg_def by (auto simp: max_def)

lemma cpsi_loop_result:
  assumes "at_counts api c" "cpsi_loop api dce n k last_err out w = ((err, txt), w')"
  shows "c w' \<le> c w + k \<and> (err \<noteq> ESP_OK \<longrightarrow> c w' = c w + k) \<and>
    (err = ESP_OK \<longrightarrow> (\<exists>out. cpsi_se_ve_valido out \<and> txt = c_trunc n out))"
  using assms(2)
proof (induction k arbitrary: last_err out w)
  case 0
  then show ?case by (auto simp: esp_err_defs split: if_splits)
next
  case (Suc k)
  obtain e o' w1 where a: "esp_modem_at api dce (''AT+CPSI?'' @ AT_CR) 12000 w = ((e, o'), w1)" by (metis surj_pair)
  have c1: "c w1 = c w + 1" using a assms(1) unfolding at_counts_def by (metis snd_conv)
  let ?out = "case o' of None \<Rightarrow> [] | Some t \<Rightarrow> t"
  have step: "cpsi_loop api dce n (Suc k) last_err out w =
      (if e = ESP_OK \<and> cpsi_se_ve_valido ?out then ((ESP_OK, c_trunc n ?out), w1) else cpsi_loop api dce n k e ?out w1)"
    unfolding cpsi_loop.simps a Let_def prod.case by (rule refl)
  show ?case
  proof (cases "e = ESP_OK \<and> cpsi_se_ve_valido ?out")
    case True
    with Suc.prems show ?thesis unfolding step using c1 by auto
  next
    case False
    have "cpsi_loop api dce n k e ?out w1 = ((err, txt), w')" using Suc.prems unfolding step if_not_P [OF False] .
    from Suc.IH [OF this] c1 show ?thesis by auto
  qed
qed

text \<open>
  \<open>cpsi_con_reintentos\<close> sends at most \<open>intentos\<close> queries, fails only after all of them, and on success hands over
  a reply that passed \<open>cpsi_se_ve_valido\<close>, cut to the caller's buffer.
\<close>

theorem cpsi_con_reintentos_result:
  assumes "at_counts api c" "cpsi_con_reintentos api dce n k w = ((err, txt), w')"
  shows "c w' \<le> c w + k \<and> (err \<noteq> ESP_OK \<longrightarrow> c w' = c w + k) \<and>
    (err = ESP_OK \<longrightarrow> (\<exists>out. cpsi_se_ve_valido out \<and> txt = c_trunc n out))"
  using cpsi_loop_result [OF assms(1)] assms(2) unfolding cpsi_con_reintentos_def by blast

section \<open>The \<open>+CPSI\<close> line\<close>

lemma cpsi_tokens_skip:
  "t \<noteq> [] \<Longrightarrow> CHR '','' \<notin> set t \<Longrightarrow> k < 2 \<Longrightarrow> cpsi_tokens k (t @ CHR '','' # s) out = cpsi_tokens (k + 1) s out"
  by (subst cpsi_tokens.simps) (simp add: strtok_field Let_def)

lemma trim_ws_id: "s \<noteq> [] \<Longrightarrow> \<not> is_c_space (hd s) \<Longrightarrow> \<not> is_c_space (last s) \<Longrightarrow> trim_ws s = s"
proof -
  have d: "x \<noteq> [] \<Longrightarrow> \<not> P (hd x) \<Longrightarrow> dropWhile P x = x" for P and x :: string by (cases x) auto
  assume "s \<noteq> []" "\<not> is_c_space (hd s)" "\<not> is_c_space (last s)"
  then show ?thesis by (simp add: trim_ws_def d hd_rev)
qed

lemma dec_ends: "\<not> is_c_space (hd (dec n))" "\<not> is_c_space (last (dec n))"
  using dec_notin [of "hd (dec n)" n] dec_notin [of "last (dec n)" n] by simp_all

lemma trim_ws_dec [simp]: "trim_ws (dec n) = dec n"
  by (rule trim_ws_id) (simp_all add: dec_ends)

lemma dash_split: "takeWhile (\<lambda>c. c \<noteq> CHR ''-'') (dec m @ CHR ''-'' # r) = dec m"
  "dropWhile (\<lambda>c. c \<noteq> CHR ''-'') (dec m @ CHR ''-'' # r) = CHR ''-'' # r"
proof -
  have a: "\<forall>c \<in> set (dec m). c \<noteq> CHR ''-''" using dec_notin by blast
  show "takeWhile (\<lambda>c. c \<noteq> CHR ''-'') (dec m @ CHR ''-'' # r) = dec m" using a by (simp add: takeWhile_append)
  show "dropWhile (\<lambda>c. c \<noteq> CHR ''-'') (dec m @ CHR ''-'' # r) = CHR ''-'' # r" using a by (simp add: dropWhile_append)
qed

lemma cpsi_tokens_2:
  assumes "m \<le> 999" "n \<le> 999"
  shows "cpsi_tokens 2 (dec m @ CHR ''-'' # dec n @ CHR '','' # s) out =
    cpsi_tokens 3 s (out\<lparr>mcc := int m, mnc := int n\<rparr>)"
proof -
  let ?t = "dec m @ CHR ''-'' # dec n"
  have "CHR '','' \<notin> set ?t" using dec_notin by fastforce
  then have k: "strtok (CHR '','') (?t @ CHR '','' # s) = Some (?t, s)" by (intro strtok_field) simp_all
  have t: "trim_ws ?t = ?t" by (rule trim_ws_id) (simp_all add: dec_ends)
  have "atoi (trim_ws (takeWhile (\<lambda>c. c \<noteq> CHR ''-'') ?t)) = int m" "atoi (trim_ws (drop 1 (dropWhile (\<lambda>c. c \<noteq> CHR ''-'') ?t))) = int n"
    using assms by (simp_all add: dash_split atoi_dec)
  with k t show ?thesis by (subst cpsi_tokens.simps) (simp add: Let_def)
qed

lemma strtoul_dec_any: "n \<le> 4294967295 \<Longrightarrow> strtoul (dec n) = word_of_nat n"
proof (cases "n = 0")
  case True
  have "strtoul (dec 0) = 0" by (simp add: dec.simps digit_char_def strtoul_def) code_simp
  with True show ?thesis by simp
qed (simp add: strtoul_dec)

lemma cpsi_tokens_34:
  assumes "t \<noteq> []" "CHR '','' \<notin> set t" "trim_ws t = t" "c \<le> 4294967295"
  shows "cpsi_tokens 3 (t @ CHR '','' # dec c @ CHR '','' # s) out =
    Some (out\<lparr>tac := strtoul t, cell_id := word_of_nat c\<rparr>)"
proof -
  have "CHR '','' \<notin> set (dec c)" using dec_notin by blast
  then have "cpsi_tokens 4 (dec c @ CHR '','' # s) x = Some (x\<lparr>cell_id := word_of_nat c\<rparr>)" for x
    by (subst cpsi_tokens.simps) (simp add: strtok_field strtoul_dec_any assms(4))
  then show ?thesis using assms by (subst cpsi_tokens.simps) (simp add: strtok_field Let_def)
qed

text \<open>
  C28. A \<open>+CPSI\<close> line in the documented format is read back exactly: MCC, MNC, the area code in decimal or hexadecimal
  and the cell identity, whatever follows, also when the line is cut to the 255 characters of the local buffer.
\<close>

theorem parse_cpsi_line_reads_cell:
  assumes "sys \<noteq> []" "CHR '','' \<notin> set sys" "mode \<noteq> []" "CHR '','' \<notin> set mode"
    "100 \<le> m" "m \<le> 999" "n \<le> 999" "t \<noteq> []" "CHR '','' \<notin> set t" "trim_ws t = t" "c \<le> 4294967295"
    "line = ''+CPSI:'' @ sys @ '','' @ mode @ '','' @ dec m @ ''-'' @ dec n @ '','' @ t @ '','' @ dec c @ '',''"
    "length line \<le> 255"
  shows "parse_cpsi_line (line @ tail) =
    Some \<lparr>mcc = int m, mnc = int n, tac = strtoul t, cell_id = word_of_nat c, valid = True\<rparr>"
proof -
  obtain tail' where tr: "c_trunc 256 (line @ tail) = line @ tail'" using assms(13) by (simp add: c_trunc_def)
  define body where "body = sys @ CHR '','' # mode @ CHR '','' # dec m @ CHR ''-'' # dec n @ CHR '','' #
    t @ CHR '','' # dec c @ CHR '','' # tail'"
  have l: "line @ tail' = ''+CPSI:'' @ body" by (simp add: assms(12) body_def)
  have s: "strstr ''+CPSI:'' (line @ tail') = Some (line @ tail')" unfolding l by simp
  have "cpsi_tokens 0 body ue_zero =
      Some (ue_zero\<lparr>mcc := int m, mnc := int n, tac := strtoul t, cell_id := word_of_nat c\<rparr>)"
    using assms(1-11) by (simp add: body_def cpsi_tokens_skip cpsi_tokens_2 cpsi_tokens_34 numeral_2_eq_2 [symmetric])
  moreover have "drop 6 (line @ tail') = body" unfolding l by simp
  ultimately show ?thesis using s assms(5-7) unfolding parse_cpsi_line_def tr Let_def by (simp add: ue_zero_def)
qed

text \<open>
  The parser accepts a \<open>+CPSI\<close> line without area code and cell identity (both are then 0), and
  \<open>cereg_registrado\<close> takes status 11 for status 1.
\<close>

theorem parse_cpsi_line_accepts_short_line:
  "parse_cpsi_line ''+CPSI: GSM,Online,334-20'' = Some \<lparr>mcc = 334, mnc = 20, tac = 0, cell_id = 0, valid = True\<rparr> \<and>
   cereg_registrado ''+CEREG: 0,11''"
  by code_simp

section \<open>Geolocation\<close>

lemma json_get_string_Some:
  assumes "json_get_string json key n = Some out"
  shows "out \<noteq> [] \<longrightarrow> n > 1" "length out < n"
    "\<exists>pre v post. json = pre @ c_trunc 64 (quote # key @ [quote, CHR '':'', quote]) @ v @ quote # post \<and>
      quote \<notin> set v \<and> v \<noteq> [] \<and> out = take (n - 1) v"
proof -
  let ?pat = "c_trunc 64 (quote # key @ [quote, CHR '':'', quote])"
  obtain r where r: "n \<noteq> 0" "strstr ?pat json = Some r"
    using assms by (auto simp: json_get_string_def Let_def split: if_splits option.splits)
  obtain pre p where p: "json = pre @ r" "r = ?pat @ p" using strstr_Some [OF r(2)] by blast
  define v where "v = takeWhile (\<lambda>c. c \<noteq> quote) p"
  have d: "drop (length ?pat) r = p" by (simp add: p(2))
  have "json_get_string json key n = (if quote \<notin> set p then None else if length v = 0 then None
      else Some (take (if length v \<ge> n then n - 1 else length v) p))"
    unfolding json_get_string_def Let_def r(2) option.case d v_def [symmetric] using r(1) by simp
  with assms have q: "quote \<in> set p" "v \<noteq> []" "out = take (if length v \<ge> n then n - 1 else length v) p"
    by (auto split: if_splits)
  obtain post where post: "p = v @ quote # post" "quote \<notin> set v"
  proof -
    obtain a b where ab: "p = a @ quote # b" "quote \<notin> set a" using split_list_first [OF q(1)] by blast
    have "takeWhile (\<lambda>c. c \<noteq> quote) (a @ quote # b) = a" using ab(2) by (induction a) auto
    with ab that show thesis by (simp add: v_def)
  qed
  then have "out = take (n - 1) v" using q(3) by auto
  with p post q(2) r(1) show "out \<noteq> [] \<longrightarrow> n > 1" "length out < n"
    "\<exists>pre v post. json = pre @ ?pat @ v @ quote # post \<and> quote \<notin> set v \<and> v \<noteq> [] \<and> out = take (n - 1) v"
    by auto
qed

text \<open>
  \<open>json_get_string\<close> returns a text only when the document contains the quoted key followed by a quoted, non-empty
  value, and then it is the value up to its closing quote, cut so that it fits the output array with its NUL.
\<close>

theorem json_get_string_finds_value:
  assumes "json_get_string json key n = Some out" "length key \<le> 59"
  shows "length out < n \<and> (\<exists>pre v post. json = pre @ quote # key @ [quote, CHR '':'', quote] @ v @ quote # post \<and>
    quote \<notin> set v \<and> v \<noteq> [] \<and> out = take (n - 1) v)"
proof -
  have "c_trunc 64 (quote # key @ [quote, CHR '':'', quote]) = quote # key @ [quote, CHR '':'', quote]"
    using assms(2) by (intro c_trunc_fits) simp
  with json_get_string_Some(2,3) [OF assms(1)] show ?thesis by simp
qed

definition short :: "nat \<Rightarrow> nat \<Rightarrow> string \<times> string \<Rightarrow> bool" where
  "short city_len state_len cs \<longleftrightarrow> length (fst cs) < city_len \<and> length (snd cs) < state_len"

lemma ul_reply_short:
  assumes "short city_len state_len cs" "ul_reply body city_len state_len cs = (b, cs')" "cs = ([], [])"
  shows "short city_len state_len cs'" "b \<longleftrightarrow> cs' \<noteq> ([], [])"
proof -
  have k: "length (keep old (json_get_string j key n)) < n" if "length old < n" for old j key n
    using that json_get_string_Some(2) [of j key n] by (auto simp: keep_def split: option.split)
  show "short city_len state_len cs'" "b \<longleftrightarrow> cs' \<noteq> ([], [])"
    using assms k by (auto simp: ul_reply_def Let_def short_def split: if_splits)
qed

definition dns_silent :: "'w modem_api \<Rightarrow> ('w \<Rightarrow> nat) \<Rightarrow> bool" where
  "dns_silent api c \<longleftrightarrow> (\<forall>i a w. c (dns_setserver api i a w) = c w) \<and> (\<forall>n d a w. c (netif_set_dns api n d a w) = c w)"

lemma dns_silent_force: "dns_silent api c \<Longrightarrow> c (force_public_dns api s w) = c w"
  by (auto simp: dns_silent_def force_public_dns_def netif_public_dns_def Let_def split: option.splits)

lemma ul_attempts_result:
  assumes "0 < city_len" "0 < state_len" "counts http c" "dns_silent api c"
  shows "\<exists>err cs w'. ul_attempts api http s payload city_len state_len n last_err ([], []) w = Inr ((err, cs), w') \<and>
    short city_len state_len cs \<and> (err = ESP_OK \<longleftrightarrow> cs \<noteq> ([], [])) \<and> c w' \<le> c w + n"
proof (induction n arbitrary: last_err w)
  case 0
  then show ?case using assms(1,2) by (simp add: short_def esp_err_defs)
next
  case (Suc n)
  have f: "c (force_public_dns api s w) = c w" by (rule dns_silent_force [OF assms(4)])
  obtain h w1 where i: "http_client_init http UNWIRED_URL (force_public_dns api s w) = (h, w1)" by force
  have c1: "c w1 = c w" using assms(3) i f unfolding counts_def by (metis snd_conv)
  show ?case
  proof (cases h)
    case None
    obtain err cs w' where "ul_attempts api http s payload city_len state_len n last_err ([], []) w1 = Inr ((err, cs), w')"
      "short city_len state_len cs" "err = ESP_OK \<longleftrightarrow> cs \<noteq> ([], [])" "c w' \<le> c w1 + n" using Suc.IH by blast
    then show ?thesis using i None c1 by simp
  next
    case (Some cli)
    let ?w2 = "http_set_post_field http cli payload (http_set_header http cli ''Content-Type'' ''application/json'' w1)"
    obtain err events w3 where p: "http_perform http cli ?w2 = ((err, events), w3)" by (metis surj_pair)
    let ?w4 = "http_cleanup http cli w3" and ?status = "http_get_status_code http cli w3"
    have "c w3 = c ?w2 + 1" using assms(3) p unfolding counts_def by (metis snd_conv)
    then have c4: "c ?w4 = c w + 1" using assms(3) c1 by (simp add: counts_def)
    obtain acc where acc: "ul_events events ul_accum0 = Some acc" using ul_events_ok [of events] by blast
    obtain b cs' where u: "ul_reply (cstr (ul_buf acc)) city_len state_len ([], []) = (b, cs')" by (metis surj_pair)
    have sh: "short city_len state_len cs'" "b \<longleftrightarrow> cs' \<noteq> ([], [])"
      using ul_reply_short [OF _ u] assms(1,2) by (simp_all add: short_def)
    have step: "ul_attempts api http s payload city_len state_len (Suc n) last_err ([], []) w =
       (if err = ESP_OK \<and> ?status = 200 \<and> ul_len acc > 0 then
          (case (b, cs') of (True, cs) \<Rightarrow> Inr ((ESP_OK, cs), ?w4)
           | (False, cs) \<Rightarrow> ul_attempts api http s payload city_len state_len n err cs ?w4)
        else ul_attempts api http s payload city_len state_len n err ([], []) ?w4)"
      unfolding ul_attempts.simps i Some Let_def prod.case option.case p acc u by (rule refl)
    obtain e cs w' where r: "ul_attempts api http s payload city_len state_len n err ([], []) ?w4 = Inr ((e, cs), w')"
      "short city_len state_len cs" "e = ESP_OK \<longleftrightarrow> cs \<noteq> ([], [])" "c w' \<le> c ?w4 + n" using Suc.IH by blast
    show ?thesis
    proof (cases "b \<and> err = ESP_OK \<and> ?status = 200 \<and> ul_len acc > 0")
      case True
      then show ?thesis unfolding step using sh c4 by auto
    next
      case False
      then have "ul_attempts api http s payload city_len state_len (Suc n) last_err ([], []) w =
          ul_attempts api http s payload city_len state_len n err ([], []) ?w4"
        unfolding step using sh(2) by (cases b) auto
      with r c4 show ?thesis by simp
    qed
  qed
qed

text \<open>
  C22. The geolocation request returns after at most five HTTP requests, for every server; it succeeds exactly when it
  stored a city or a state, and both strings fit the arrays of the caller.
\<close>

theorem geolocation_result:
  assumes "0 < city_len" "0 < state_len" "counts http c" "dns_silent api c"
  shows "\<exists>err city state w'. modem_unwiredlabs_city_state api http token s city_len state_len cs w = Inr ((err, city, state), w') \<and>
    length city < city_len \<and> length state < state_len \<and> (err = ESP_OK \<longleftrightarrow> city \<noteq> [] \<or> state \<noteq> []) \<and> c w' \<le> c w + 5"
proof (cases "s_ue_valid s \<and> token \<noteq> [] \<and> length (ul_payload token (s_ue_info s)) < 256")
  case True
  then show ?thesis using assms(1,2)
    ul_attempts_result [OF assms, of s "ul_payload token (s_ue_info s)" 5 ESP_FAIL w]
    by (auto simp: modem_unwiredlabs_city_state_def Let_def short_def)
next
  case False
  then show ?thesis using assms(1,2) by (auto simp: modem_unwiredlabs_city_state_def Let_def esp_err_defs)
qed

section \<open>Start of PPP\<close>

definition ue_inv :: "modem_state \<Rightarrow> bool" where
  "ue_inv s \<longleftrightarrow> (s_ue_valid s \<longrightarrow> 100 \<le> mcc (s_ue_info s) \<and> mcc (s_ue_info s) \<le> 999 \<and>
     0 \<le> mnc (s_ue_info s) \<and> mnc (s_ue_info s) \<le> 999 \<and> valid (s_ue_info s))"

lemma parse_cpsi_line_range:
  "parse_cpsi_line l = Some u \<Longrightarrow> 100 \<le> mcc u \<and> mcc u \<le> 999 \<and> 0 \<le> mnc u \<and> mnc u \<le> 999 \<and> valid u"
  by (auto simp: parse_cpsi_line_def Let_def split: option.splits if_splits)

lemma update_ue_inv: "ue_inv (update_ue r s)"
  by (auto simp: update_ue_def ue_inv_def dest: parse_cpsi_line_range split: option.splits)

lemma update_ue_netif [simp]: "s_ppp_netif (update_ue r s) = s_ppp_netif s"
  by (auto simp: update_ue_def split: option.splits)

definition started :: "nat \<Rightarrow> (esp_err_t \<times> modem_state \<times> 'w) mres \<Rightarrow> bool" where
  "started ppp r \<longleftrightarrow> (case r of Inl e \<Rightarrow> e \<noteq> Bad_Write
     | Inr (err, s, w) \<Rightarrow> ue_inv s \<and> s_ppp_netif s = Some ppp)"

lemma at_command_ok:
  assumes "at_acc_ok (s_acc s)"
  shows "\<exists>err a w'. at_command api dce cmd s w = Inr (err, s\<lparr>s_acc := a\<rparr>, w') \<and> at_acc_ok a"
proof -
  obtain err chunks w' where c: "esp_modem_command api dce (cmd @ AT_CR) 1000 w = ((err, chunks), w')" by (metis surj_pair)
  obtain a where "at_acc_all (s_acc s) chunks = Some a" "at_acc_ok a"
    using at_buffer.append_all_content [OF assms, of chunks] unfolding at_acc_all_eq by blast
  with c have "at_command api dce cmd s w = Inr (err, s\<lparr>s_acc := a\<rparr>, w')" by (simp add: at_command_def)
  with \<open>at_acc_ok a\<close> show ?thesis by blast
qed

lemma ip_events_frame: "ip_events evs s = Inr s' \<Longrightarrow> ue_inv s' = ue_inv s \<and> s_ppp_netif s' = s_ppp_netif s"
proof (induction evs arbitrary: s)
  case (Cons e evs)
  then show ?case by (cases e) (auto simp: on_ip_event_def ue_inv_def)
qed simp

lemma ip_events_fault: "ip_events evs s = Inl e \<Longrightarrow> e = Restart"
proof (induction evs arbitrary: s)
  case (Cons e evs)
  then show ?case by (cases e) (auto simp: on_ip_event_def)
qed simp

text \<open>\<open>ends T P x\<close>: the computation \<open>x\<close> returns with \<open>P\<close>, or goes on for ever, which \<open>T\<close> excludes.\<close>

definition ends :: "bool \<Rightarrow> ('a \<Rightarrow> bool) \<Rightarrow> 'a option \<Rightarrow> bool" where
  "ends T P x \<longleftrightarrow> (case x of None \<Rightarrow> \<not> T | Some r \<Rightarrow> P r)"

lemma ends_simps [simp]: "ends T P None = (\<not> T)" "ends T P (Some r) = P r"
  by (simp_all add: ends_def)

lemma ppp_connect_ok:
  assumes "ue_inv s" "s_ppp_netif s = Some ppp"
  shows "ends (0 < timeout_ms) (\<lambda>r. started ppp r \<and> (\<forall>s' w'. r = Inr (ESP_OK, s', w') \<longrightarrow> s_ppp_up s'))
    (ppp_connect api cfg dce ppp timeout_ms s w)"
proof -
  obtain e1 w1 where m1: "set_mode_if_needed api dce (if use_cmux cfg then MODE_CMUX else MODE_DATA) w = (e1, w1)" by force
  obtain e2 w2 where m2: "(if e1 \<noteq> ESP_OK \<and> use_cmux cfg then set_mode_if_needed api dce MODE_DATA w1 else (e1, w1)) = (e2, w2)"
    by force
  obtain evs w3 where v: "wait_ip_events api (if timeout_ms > 0 then Some timeout_ms else None) w2 = (evs, w3)" by force
  show ?thesis
  proof (cases "ip_events evs s")
    case (Inl f)
    then show ?thesis using ip_events_fault [OF Inl]
      unfolding ppp_connect_def m1 Let_def prod.case m2 v by (simp add: started_def)
  next
    case (Inr s')
    then show ?thesis using ip_events_frame [OF Inr] assms
      unfolding ppp_connect_def m1 Let_def prod.case m2 v
      by (simp add: started_def esp_err_defs)
  qed
qed

text \<open>The part of the start after the modem has been created.\<close>

lemma ue_inv_acc [simp]: "ue_inv (s\<lparr>s_acc := a\<rparr>) = ue_inv s"
  by (simp add: ue_inv_def)

lemma after_cpsi_ok:
  assumes "s_ppp_netif s = Some ppp"
  shows "ends (0 < timeout_ms) (\<lambda>r. started ppp r \<and> (\<forall>s' w'. r = Inr (ESP_OK, s', w') \<longrightarrow> s_ppp_up s'))
    (case at_command api dce ''AT'' ((update_ue cpsi s)\<lparr>s_acc := at_acc_of 64\<rparr>) w of
      Inl e \<Rightarrow> Some (Inl e) | Inr (at_ok, s, w) \<Rightarrow>
        if at_ok \<noteq> ESP_OK then Some (Inr (at_ok, s, w)) else
        (case at_command api dce ''ATE0'' s w of Inl e \<Rightarrow> Some (Inl e) | Inr (_, s, w) \<Rightarrow>
           ppp_connect api cfg dce ppp timeout_ms s w))"
proof -
  let ?s = "(update_ue cpsi s)\<lparr>s_acc := at_acc_of 64\<rparr>"
  have "at_acc_ok (s_acc ?s)" by (simp add: at_acc_ok_def at_acc_of_def)
  from at_command_ok [OF this, of api dce "''AT''" w]
  obtain err a w1 where c1: "at_command api dce ''AT'' ?s w = Inr (err, ?s\<lparr>s_acc := a\<rparr>, w1)" "at_acc_ok a"
    by (elim exE conjE) (rule that)
  have "at_acc_ok (s_acc (?s\<lparr>s_acc := a\<rparr>))" using c1(2) by simp
  from at_command_ok [OF this, of api dce "''ATE0''" w1]
  obtain err2 b w2 where c2: "at_command api dce ''ATE0'' (?s\<lparr>s_acc := a\<rparr>) w1 = Inr (err2, ?s\<lparr>s_acc := a, s_acc := b\<rparr>, w2)"
    by (elim exE conjE) (rule that)
  let ?t = "?s\<lparr>s_acc := a, s_acc := b\<rparr>"
  have t: "ue_inv ?t" "s_ppp_netif ?t = Some ppp" using assms update_ue_inv by simp_all
  show ?thesis
  proof (cases "err = ESP_OK")
    case True
    show ?thesis unfolding c1(1) sum.case prod.case c2 using True ppp_connect_ok [OF t, of timeout_ms api cfg dce w2] by simp
  next
    case False
    show ?thesis unfolding c1(1) sum.case prod.case using False assms update_ue_inv by (simp add: started_def)
  qed
qed

lemma esperar_cereg_some: "\<exists>x w'. esperar_cereg api dce 15000 500 w = Some (x, w')"
  using cereg_loop_ends [of 500 api dce 15000 0 "[]" w "\<lambda>_. 0"] unfolding esperar_cereg_def by (simp, blast)

definition start_post :: "(esp_err_t \<times> modem_state \<times> 'w) mres \<Rightarrow> bool" where
  "start_post r \<longleftrightarrow> (case r of Inl e \<Rightarrow> e \<noteq> Bad_Write
     | Inr (err, s', w') \<Rightarrow> ue_inv s' \<and> (err = ESP_OK \<longrightarrow> s_ppp_up s' \<and> s_ppp_netif s' \<noteq> None))"

lemma start_post_simps [simp]:
  "start_post (Inl (Error_Check e))" "start_post (Inr (err, s, w)) \<longleftrightarrow> ue_inv s \<and> (err = ESP_OK \<longrightarrow> s_ppp_up s \<and> s_ppp_netif s \<noteq> None)"
  by (simp_all add: start_post_def)

lemma modem_start_no_fault:
  assumes "ue_inv s"
  shows "ends (0 < timeout_ms) start_post
    (modem_ppp_start_blocking api cfg timeout_ms s w)"
proof (cases "apn cfg")
  case None
  then show ?thesis using assms by (simp add: modem_ppp_start_blocking_def esp_err_defs)
next
  case (Some ap)
  obtain n w1 where n: "esp_netif_new api w = (n, w1)" by force
  show ?thesis
  proof (cases n)
    case None
    then show ?thesis using assms Some n by (simp add: modem_ppp_start_blocking_def esp_err_defs)
  next
    case ppp: (Some ppp)
    let ?s = "s\<lparr>s_ppp_netif := Some ppp\<rparr>"
    have s: "ue_inv ?s" "s_ppp_netif ?s = Some ppp" using assms by (simp_all add: ue_inv_def)
    obtain reg w2 where reg: "esp_event_handler_register api (esp_netif_set_default_netif api ppp w1) = (reg, w2)" by force
    obtain d w3 where d: "esp_modem_new_dev api ap ppp (hw_boot api cfg w2) = (d, w3)" by force
    show ?thesis
    proof (cases "reg = ESP_OK \<and> d \<noteq> None")
      case False
      then show ?thesis using s unfolding modem_ppp_start_blocking_def Some n ppp option.case prod.case Let_def reg d
        by (auto simp: esp_err_defs)
    next
      case True
      then obtain dce where dce: "d = Some dce" by blast
      obtain e4 w4 where e4: "esp_modem_set_apn api dce ap w3 = (e4, w4)" by force
      obtain e5 w5 where e5: "set_mode_if_needed api dce MODE_COMMAND w4 = (e5, w5)" by force
      obtain x6 w6 where e6: "modem_send_at_and_log api dce ''AT'' 3000 w5 = (x6, w6)" by force
      obtain x7 w7 where e7: "modem_send_at_and_log api dce ''ATE0'' 3000 w6 = (x7, w7)" by force
      obtain x8 w8 where e8: "modem_send_at_and_log api dce ''AT+CMEE=2'' 3000 w7 = (x8, w8)" by force
      obtain x9 w9 where e9: "esperar_cereg api dce 15000 500 w8 = Some (x9, w9)" using esperar_cereg_some [of api dce w8] by blast
      obtain cpsi w10 where e10: "cpsi_con_reintentos api dce 128 3 w9 = (cpsi, w10)" by (metis surj_pair)
      let ?rest = "case at_command api dce ''AT'' ((update_ue cpsi ?s)\<lparr>s_acc := at_acc_of 64\<rparr>) w10 of
          Inl e \<Rightarrow> Some (Inl e) | Inr (at_ok, s, w) \<Rightarrow>
            if at_ok \<noteq> ESP_OK then Some (Inr (at_ok, s, w)) else
            (case at_command api dce ''ATE0'' s w of Inl e \<Rightarrow> Some (Inl e) | Inr (_, s, w) \<Rightarrow>
               ppp_connect api cfg dce ppp timeout_ms s w)"
      have p: "ends (0 < timeout_ms) start_post ?rest"
        using after_cpsi_ok [OF s(2), where api = api and dce = dce and cpsi = cpsi and w = w10 and cfg = cfg and timeout_ms = timeout_ms]
        unfolding ends_def by (auto simp: start_post_def started_def split: option.splits sum.splits)
      have reg': "reg = ESP_OK" using True by simp
      show ?thesis
        unfolding modem_ppp_start_blocking_def Some n ppp option.case prod.case Let_def reg d dce e4 e5 e6 e7 e8 e9 e10
        using p reg' by simp
    qed
  qed
qed

text \<open>
  C18. With a positive timeout \<open>modem_ppp_start_blocking\<close> returns, restarts or is stopped by \<open>ESP_ERROR_CHECK\<close> for every
  modem. (Otherwise it waits for an address with \<open>portMAX_DELAY\<close> and may never return.) For any timeout it makes no write outside the AT
  buffer; and when it returns, the stored cell information, if it is marked valid, has an MCC of 100 to 999 and an MNC of 0
  to 999, and \<open>ESP_OK\<close> means that an address was obtained.
\<close>

theorem modem_start_returns:
  assumes "ue_inv s"
  shows "(0 < timeout_ms \<longrightarrow> modem_ppp_start_blocking api cfg timeout_ms s w \<noteq> None) \<and>
    (\<forall>r. modem_ppp_start_blocking api cfg timeout_ms s w = Some r \<longrightarrow>
      (case r of Inl e \<Rightarrow> e \<noteq> Bad_Write
       | Inr (err, s', w') \<Rightarrow> ue_inv s' \<and> (err = ESP_OK \<longrightarrow> s_ppp_up s' \<and> s_ppp_netif s' \<noteq> None)))"
  using modem_start_no_fault [OF assms, of timeout_ms api cfg w] by (auto simp: ends_def start_post_def split: option.splits)

section \<open>A concrete modem\<close>

text \<open>A modem that answers every AT command with \<open>reply\<close>; the world counts the AT commands and requests.\<close>

definition demo_modem :: "string \<Rightarrow> nat modem_api" where
  "demo_modem reply = \<lparr>gpio_set_direction_output = \<lambda>_ w. w, gpio_set_level = \<lambda>_ _ w. w, esp_netif_new = \<lambda>w. (Some 1, w),
     esp_netif_set_default_netif = \<lambda>_ w. w, esp_event_handler_register = \<lambda>w. (ESP_OK, w), esp_modem_new_dev = \<lambda>_ _ w. (Some 1, w),
     esp_modem_set_apn = \<lambda>_ _ w. (ESP_OK, w), esp_modem_get_mode = \<lambda>_ _. MODE_COMMAND, esp_modem_set_mode = \<lambda>_ _ w. (ESP_OK, w),
     esp_modem_at = \<lambda>_ _ _ w. ((ESP_OK, Some reply), w + 1), esp_modem_command = \<lambda>_ _ _ w. ((ESP_OK, [reply]), w),
     wait_ip_events = \<lambda>_ w. ([PPP_GOT_IP], w), dns_setserver = \<lambda>_ _ w. w, netif_get_dns = \<lambda>_ _ _. None,
     netif_set_dns = \<lambda>_ _ _ w. w\<rparr>"

definition demo_http :: "string \<Rightarrow> nat http_api" where
  "demo_http text = \<lparr>http_client_init = \<lambda>u w. (Some 1, w), http_set_url = \<lambda>h u w. w,
     http_set_method = \<lambda>h m w. w, http_set_post_field = \<lambda>h d w. w, http_set_header = \<lambda>h k v w. w,
     http_set_timeout_ms = \<lambda>h t w. w, http_perform = \<lambda>h w. ((ESP_OK, [ON_DATA text]), w + 1),
     http_get_status_code = \<lambda>h w. 200, http_close = \<lambda>h w. w, http_cleanup = \<lambda>h w. w, get_time = \<lambda>w. (0, w)\<rparr>"

definition demo_state :: modem_state where
  "demo_state = \<lparr>s_ppp_up = False, s_ue_info = ue_zero, s_ue_valid = False, s_ppp_netif = None, s_acc = at_acc_of 64\<rparr>"

lemma demo_at_counts: "at_counts (demo_modem r) id"
  by (simp add: at_counts_def demo_modem_def)

theorem esperar_cereg_returns_witness:
  "\<exists>err w'. esperar_cereg (demo_modem ''+CEREG: 0,2'') 1 2000 500 0 = Some (err, w') \<and> int (id w' - id (0 :: nat)) * 500 < 2000 + 500"
  using esperar_cereg_returns [OF _ _ demo_at_counts, of 500 2000 "''+CEREG: 0,2''" 1 0] by auto

theorem cpsi_con_reintentos_result_witness:
  "\<exists>txt w'. cpsi_con_reintentos (demo_modem ''LTE,Online,334-20'') 1 128 3 0 = ((ESP_OK, txt), w') \<and> id w' \<le> id (0 :: nat) + 3"
proof -
  have "cpsi_se_ve_valido ''LTE,Online,334-20''" by code_simp
  then have e: "cpsi_con_reintentos (demo_modem ''LTE,Online,334-20'') 1 128 3 0 = ((ESP_OK, c_trunc 128 ''LTE,Online,334-20''), 1)"
    by (simp add: cpsi_con_reintentos_def demo_modem_def numeral_3_eq_3)
  with cpsi_con_reintentos_result [OF demo_at_counts e] show ?thesis by blast
qed

theorem parse_cpsi_line_reads_cell_witness:
  "parse_cpsi_line ''+CPSI: LTE,Online,334-20,0x232,43790378,55,EUTRAN-BAND5'' =
     Some \<lparr>mcc = 334, mnc = 20, tac = 0x232, cell_id = 43790378, valid = True\<rparr>"
proof -
  let ?line = "''+CPSI:'' @ '' LTE'' @ '','' @ ''Online'' @ '','' @ dec 334 @ ''-'' @ dec 20 @ '','' @ ''0x232'' @ '','' @ dec 43790378 @ '',''"
  have d: "dec 334 = ''334''" "dec 20 = ''20''" "dec 43790378 = ''43790378''"
    by (simp_all add: dec.simps digit_char_def char_of_def bit_0)
  have t: "trim_ws ''0x232'' = ''0x232''" "strtoul ''0x232'' = 0x232" by code_simp+
  have "parse_cpsi_line (?line @ ''55,EUTRAN-BAND5'') =
      Some \<lparr>mcc = int 334, mnc = int 20, tac = strtoul ''0x232'', cell_id = word_of_nat 43790378, valid = True\<rparr>"
    by (rule parse_cpsi_line_reads_cell [where sys = "'' LTE''" and mode = "''Online''"]) (simp_all add: t d)
  then show ?thesis by (simp add: d t)
qed

theorem json_get_string_finds_value_witness:
  "json_get_string ([quote, CHR ''c'', quote, CHR '':'', quote] @ ''Puebla'' @ [quote]) ''c'' 4 = Some ''Pue'' \<and>
   length ''Pue'' < (4 :: nat)"
  using json_get_string_finds_value [of "[quote, CHR ''c'', quote, CHR '':'', quote] @ ''Puebla'' @ [quote]" "''c''" 4 "''Pue''"]
  by (simp add: json_get_string_def c_trunc_def)

definition demo_cell :: modem_state where
  "demo_cell = demo_state\<lparr>s_ue_info := \<lparr>mcc = 334, mnc = 20, tac = 0x232, cell_id = 43790378, valid = True\<rparr>, s_ue_valid := True\<rparr>"

definition city_reply :: string where
  "city_reply = ''{'' @ quote # ''status'' @ [quote, CHR '':'', quote] @ ''ok'' @ quote # '','' @
     quote # ''city'' @ [quote, CHR '':'', quote] @ ''Puebla'' @ quote # ''}''"

theorem geolocation_result_witness:
  "s_ue_valid demo_cell \<and> (\<exists>err city state w'.
     modem_unwiredlabs_city_state (demo_modem []) (demo_http city_reply) ''tok'' demo_cell 64 64 ([], []) 0 = Inr ((err, city, state), w') \<and>
     length city < 64 \<and> (err = ESP_OK \<longleftrightarrow> city \<noteq> [] \<or> state \<noteq> []) \<and> id w' \<le> id (0 :: nat) + 5)"
proof -
  have "s_ue_valid demo_cell" by (simp add: demo_cell_def)
  moreover have "counts (demo_http city_reply) id" "dns_silent (demo_modem []) id"
    by (simp_all add: counts_def dns_silent_def demo_http_def demo_modem_def)
  from geolocation_result [OF _ _ this, of 64 64 "''tok''" demo_cell "([], [])" 0]
  have "\<exists>err city state w'. modem_unwiredlabs_city_state (demo_modem []) (demo_http city_reply) ''tok'' demo_cell 64 64 ([], []) 0 = Inr ((err, city, state), w') \<and>
     length city < 64 \<and> (err = ESP_OK \<longleftrightarrow> city \<noteq> [] \<or> state \<noteq> []) \<and> id w' \<le> id (0 :: nat) + 5" by auto
  ultimately show ?thesis by simp
qed

theorem modem_start_returns_witness:
  "\<exists>r. modem_ppp_start_blocking (demo_modem ''OK'')
     \<lparr>dtr_io = 25, rst_io = 5, pwrkey_io = 4, board_power_io = 12, apn = Some ''internet'', use_cmux = False\<rparr> 150000 demo_state 0 = Some r"
  using modem_start_returns [of demo_state 150000 "demo_modem ''OK''"
    "\<lparr>dtr_io = 25, rst_io = 5, pwrkey_io = 4, board_power_io = 12, apn = Some ''internet'', use_cmux = False\<rparr>" 0]
  by (auto simp: ue_inv_def demo_state_def)

end
