(* ===== verification/Sensor_Task_Props.thy ===== *)
theory Sensor_Task_Props
  imports Sensor_Task Firebase_Props Sensors_Props Modem_Props
begin

text \<open>
  The application composed of the components: order of the upload keys, ranges of the accumulators and averages, the
  uploaded payload, the retention policy, the invariant of the loop of \<open>sensor_task\<close> by rule induction on its states, the
  absence of bad accesses, and the start sequence of \<open>app_main\<close>.
\<close>

section \<open>Text of times\<close>

definition valid_tm :: "tm \<Rightarrow> bool" where
  "valid_tm t \<longleftrightarrow> tm_year t < 10000 \<and> tm_mon t < 100 \<and> tm_mday t < 100 \<and> tm_hour t < 100 \<and> tm_min t < 100 \<and> tm_sec t < 100"

lemma length_two: "n < 100 \<Longrightarrow> length (two n) = 2"
  unfolding two_def by (rule length_pad_left, rule length_dec) simp_all

lemma strftime_lengths:
  assumes "valid_tm t"
  shows "length (strftime_time t) = 8" "length (strftime_date t) = 10" "length (strftime_key t) = 17"
proof -
  have "length (dec (tm_year t)) \<le> 4" using assms by (intro length_dec) (simp_all add: valid_tm_def)
  then have "length (pad_left 4 (dec (tm_year t))) = 4" by (rule length_pad_left)
  then show "length (strftime_time t) = 8" "length (strftime_date t) = 10" "length (strftime_key t) = 17"
    using assms by (simp_all add: valid_tm_def strftime_time_def strftime_date_def strftime_key_def length_two)
qed

lemma digit_char_0: "digit_char 0 = CHR ''0''"
  by code_simp

lemma two_eq:
  assumes "n < 100"
  shows "two n = [digit_char (n div 10), digit_char (n mod 10)]"
proof (cases "n < 10")
  case True
  then show ?thesis by (simp add: two_def pad_left_def dec.simps digit_char_0)
next
  case False
  have "n div 10 < 10" using assms by simp
  with False have "dec n = [digit_char (n div 10), digit_char (n mod 10)]"
    by (subst dec.simps, subst dec.simps) simp
  then show ?thesis by (simp add: two_def pad_left_def)
qed

lemma digit_char_less: "a < 10 \<Longrightarrow> b < 10 \<Longrightarrow> digit_char a < digit_char b \<longleftrightarrow> a < b"
  by (simp add: less_char_def)

lemma digit_char_inj: "a < 10 \<Longrightarrow> b < 10 \<Longrightarrow> digit_char a = digit_char b \<longleftrightarrow> a = b"
  using of_char_digit_char [of a] of_char_digit_char [of b] by (metis add_left_cancel)

text \<open>Comparing two texts that start with a two-digit field and a separator.\<close>

lemma two_less_iff:
  assumes "m < 100" "n < 100"
  shows "two m @ c # x < two n @ c # y \<longleftrightarrow> m < n \<or> m = n \<and> x < y"
proof -
  have d: "10 * a + r < 10 * b + s \<longleftrightarrow> a < b \<or> a = b \<and> r < s" if "r < 10" "s < 10" for a b r s :: nat
    using that by linarith
  have "m < n \<longleftrightarrow> m div 10 < n div 10 \<or> m div 10 = n div 10 \<and> m mod 10 < n mod 10"
    using d [of "m mod 10" "n mod 10" "m div 10" "n div 10"] by simp
  moreover have "m = n \<longleftrightarrow> m div 10 = n div 10 \<and> m mod 10 = n mod 10" by (metis div_mult_mod_eq)
  moreover have "m div 10 < 10" "n div 10 < 10" using assms by simp_all
  ultimately show ?thesis using assms by (simp add: two_eq digit_char_less digit_char_inj) blast
qed

lemma two_less_last:
  assumes "m < 100" "n < 100"
  shows "two m < two n \<longleftrightarrow> m < n"
  using two_less_iff [OF assms, of c "[]" "[]" for c] assms
  by (simp add: two_eq digit_char_less digit_char_inj)

definition tm_fields :: "tm \<Rightarrow> nat list" where
  "tm_fields t = [tm_year t, tm_mon t, tm_mday t, tm_hour t, tm_min t, tm_sec t]"

text \<open>
  C26. The keys under which batches are stored sort by time within a century: comparing two of them as strings compares
  year, month, day, hour, minute and second. The oldest entries are therefore the first ones in key order, which is what
  the retention policy deletes.
\<close>

theorem upload_keys_are_chronological:
  assumes "valid_tm a" "valid_tm b" "tm_year a div 100 = tm_year b div 100"
  shows "strftime_key a < strftime_key b \<longleftrightarrow> tm_fields a < tm_fields b"
proof -
  have y: "tm_year a mod 100 < tm_year b mod 100 \<longleftrightarrow> tm_year a < tm_year b"
    "tm_year a mod 100 = tm_year b mod 100 \<longleftrightarrow> tm_year a = tm_year b"
    using assms(3) by (metis div_mult_mod_eq nat_add_left_cancel_less, metis div_mult_mod_eq)
  show ?thesis using assms(1,2)
    by (simp add: strftime_key_def tm_fields_def valid_tm_def two_less_iff two_less_last y)
qed

lemma path_put_complete:
  assumes "valid_tm now"
  shows "path_put now = ''/historial_mediciones/'' @ strftime_key now"
  using strftime_lengths(3) [OF assms] by (simp add: path_put_def HISTORY_def c_trunc_fits)

section \<open>The accumulators\<close>

lemma in_range_rnd_double:
  "in_range a b x \<Longrightarrow> \<bar>a\<bar> \<le> 2 ^ 53 \<Longrightarrow> \<bar>b\<bar> \<le> 2 ^ 53 \<Longrightarrow> in_range a b (rnd_double x)"
  unfolding in_range_def using double.rd_between is_double_int by blast

definition sum_in :: "int \<Rightarrow> int \<Rightarrow> nat \<Rightarrow> rat \<Rightarrow> bool" where
  "sum_in lo hi n x \<longleftrightarrow> in_range (lo * int n) (hi * int n) x"

lemma sum_in_0 [simp]: "sum_in lo hi 0 0"
  by (simp add: sum_in_def in_range_def)

lemma sum_in_add:
  assumes "sum_in lo hi n s" "in_range lo hi x" "n < 5" "\<bar>lo\<bar> \<le> 10000" "\<bar>hi\<bar> \<le> 10000"
  shows "sum_in lo hi (Suc n) (rnd_double (s + x))"
proof -
  have b: "\<bar>k * int (n + 1)\<bar> \<le> 2 ^ 53" if "\<bar>k\<bar> \<le> 10000" for k
  proof -
    have "\<bar>k * int (n + 1)\<bar> = \<bar>k\<bar> * int (n + 1)" by (simp add: abs_mult)
    also have "\<dots> \<le> 10000 * 5" using that assms(3) by (intro mult_mono) auto
    finally show ?thesis by simp
  qed
  have "in_range (lo * int (n + 1)) (hi * int (n + 1)) (s + x)"
    using assms(1,2) by (simp add: sum_in_def in_range_def distrib_left)
  then show ?thesis unfolding sum_in_def Suc_eq_plus1 using b assms(4,5) by (intro in_range_rnd_double) blast+
qed

lemma mean_in:
  assumes "sum_in lo hi n s" "0 < n" "\<bar>lo\<bar> \<le> 10000" "\<bar>hi\<bar> \<le> 10000"
  shows "in_range lo hi (mean s n)"
proof -
  have "in_range lo hi (s / of_nat n)"
    using assms(1,2) by (simp add: sum_in_def in_range_def pos_le_divide_eq pos_divide_le_eq)
  then have "in_range lo hi (rnd_double (s / of_nat n))" using assms(3,4) by (intro in_range_rnd_double) auto
  then show ?thesis unfolding mean_def using assms(3,4) by (intro in_range_rnd) auto
qed

definition sums_ok :: "task \<Rightarrow> bool" where
  "sums_ok t \<longleftrightarrow>
     (\<forall>f \<in> {sum_pm1p0, sum_pm2p5, sum_pm4p0, sum_pm10p0, sum_voc, sum_nox}. sum_in 0 6554 (sample_count t) (f t)) \<and>
     sum_in (-23) 229 (sample_count t) (sum_avg_temp t) \<and> sum_in 0 378 (sample_count t) (sum_avg_hum t) \<and>
     unat (sum_co2 t) \<le> 65535 * sample_count t"

lemma sums_ok_reset: "sums_ok (reset_sums t)"
  by (simp add: sums_ok_def reset_sums_def)

lemma co2_add:
  assumes "unat (s :: u32) \<le> 65535 * n" "n < 5"
  shows "unat (s + ucast (c :: u16)) \<le> 65535 * (n + 1)"
proof -
  have "unat (ucast c :: u32) = unat c" using u16_bound [of c] by (simp add: unsigned_ucast_eq take_bit_nat_eq_self)
  then have "unat (s + ucast c) = unat s + unat c"
    using assms u16_bound [of c] by (subst unat_plus_if') auto
  with assms(1) u16_bound [of c] show ?thesis by simp
qed

lemma sums_ok_accumulate:
  assumes "sums_ok t" "sample_count t < 5" "sensor_ranges d"
  shows "sums_ok (accumulate d t)"
proof -
  have a: "sum_in lo hi (Suc (sample_count t)) (rnd_double (f t + g d))"
    if "sum_in lo hi (sample_count t) (f t)" "in_range lo hi (g d)" "\<bar>lo\<bar> \<le> 10000" "\<bar>hi\<bar> \<le> 10000" for lo hi f g
    using that assms(2) by (intro sum_in_add)
  have "unat (sum_co2 t + ucast (co2 d)) \<le> 65535 * (sample_count t + 1)"
    using assms(1,2) by (intro co2_add) (simp_all add: sums_ok_def)
  with assms show ?thesis unfolding sums_ok_def accumulate_def sensor_ranges_def
    by (auto intro!: a)
qed

lemma average_printable:
  assumes "sums_ok t" "0 < sample_count t"
  shows "printable (average t)"
proof -
  have m: "in_range 0 6554 (mean (f t) (sample_count t))" if "f \<in> {sum_pm1p0, sum_pm2p5, sum_pm4p0, sum_pm10p0, sum_voc, sum_nox}" for f
    using assms that by (intro mean_in) (auto simp: sums_ok_def)
  have "in_range (-23) 229 (mean (sum_avg_temp t) (sample_count t))" "in_range 0 378 (mean (sum_avg_hum t) (sample_count t))"
    using assms by (auto intro!: mean_in simp: sums_ok_def)
  with m [of sum_pm1p0] m [of sum_pm2p5] m [of sum_pm4p0] m [of sum_pm10p0] m [of sum_voc] m [of sum_nox]
  show ?thesis unfolding printable_def average_def Let_def
    by (auto elim!: in_range_widen)
qed

section \<open>The retention policy\<close>

lemma is_double_frac: "is_double (15 / 16)" "is_double (1 / 8)"
proof -
  have "is_double (of_int 15 * 2 powi (-4))" "is_double (of_int 1 * 2 powi (-3))"
    unfolding is_double_def representable_def by (intro exI conjI, rule refl, simp, simp)+
  then show "is_double (15 / 16)" "is_double (1 / 8)" by (simp_all add: power_int_def power_divide)
qed

lemma decay_constants:
  "0 \<le> rnd_double (9 / 10)" "rnd_double (9 / 10) \<le> 15 / 16" "0 \<le> rnd_double (1 / 10)" "rnd_double (1 / 10) \<le> 1 / 8"
proof -
  show "rnd_double (9 / 10) \<le> 15 / 16" "rnd_double (1 / 10) \<le> 1 / 8" by (rule double.rd_le, simp, rule is_double_frac)+
qed (simp_all add: rnd_double_def rnd_nonneg)

lemma next_avg_size_bounds:
  assumes "in_range 0 1000 a" "item_len \<le> 383"
  shows "in_range 0 1000 (next_avg_size a item_len)"
proof -
  have l: "(of_nat item_len :: rat) \<le> 383" using assms(2) by (simp add: of_nat_le_iff)
  have "a * rnd_double (9 / 10) \<le> 1000 * (15 / 16)" "0 \<le> a * rnd_double (9 / 10)"
    using assms(1) decay_constants(1,2) by (intro mult_mono mult_nonneg_nonneg; simp add: in_range_def)+
  then have "in_range 0 938 (a * rnd_double (9 / 10))" by (simp add: in_range_def)
  then have x: "in_range 0 938 (rnd_double (a * rnd_double (9 / 10)))" by (rule in_range_rnd_double) simp_all
  have "rnd_double (1 / 10) * of_nat item_len \<le> 1 / 8 * 383" "0 \<le> rnd_double (1 / 10) * of_nat item_len"
    using l decay_constants(3,4) by (intro mult_mono mult_nonneg_nonneg; simp)+
  then have "in_range 0 48 (rnd_double (1 / 10) * of_nat item_len)" by (simp add: in_range_def)
  then have y: "in_range 0 48 (rnd_double (rnd_double (1 / 10) * of_nat item_len))" by (rule in_range_rnd_double) simp_all
  have "in_range 0 1000 (rnd_double (a * rnd_double (9 / 10)) + rnd_double (rnd_double (1 / 10) * of_nat item_len))"
    using x y by (simp add: in_range_def)
  then show ?thesis unfolding next_avg_size_def by (rule in_range_rnd_double) simp_all
qed

lemma max_items_bounds:
  assumes "in_range 0 1000 a"
  shows "10485 \<le> unat (max_items a)" "unat (max_items a) \<le> 10485760"
proof -
  let ?d = "if a > 1 then a else 1"
  have d: "1 \<le> ?d" "?d \<le> 1000" using assms by (auto simp: in_range_def)
  have "in_range 10485 10485760 (MAX_BYTES / ?d)"
    using d by (simp only: in_range_def MAX_BYTES_def) (simp add: pos_le_divide_eq pos_divide_le_eq)
  then have "in_range 10485 10485760 (rnd_double (MAX_BYTES / ?d))" by (rule in_range_rnd_double) simp_all
  then have f: "10485 \<le> \<lfloor>rnd_double (MAX_BYTES / ?d)\<rfloor>" "\<lfloor>rnd_double (MAX_BYTES / ?d)\<rfloor> \<le> 10485760"
    unfolding in_range_def by (simp_all add: le_floor_iff floor_le_iff)
  define k where "k = nat \<lfloor>rnd_double (MAX_BYTES / ?d)\<rfloor>"
  have "max_items a = word_of_nat k" using f by (simp add: max_items_def k_def)
  moreover have "k \<le> 10485760" "10485 \<le> k"
    using f unfolding k_def nat_le_iff le_nat_iff by (simp_all only: of_nat_numeral)
  ultimately show "10485 \<le> unat (max_items a)" "unat (max_items a) \<le> 10485760"
    by (simp_all add: unsigned_of_nat take_bit_nat_eq_self)
qed

lemma retention_Ok:
  assumes "retention b n t w = Ok (t', w')"
  obtains c g where "t' = t\<lparr>avg_size := next_avg_size (avg_size t) n, approx_count := c, t_shim := g\<rparr>"
proof (cases "approx_count t + 1 > max_items (next_avg_size (avg_size t) n) + 50")
  case True
  let ?t = "t\<lparr>avg_size := next_avg_size (avg_size t) n, approx_count := approx_count t + 1\<rparr>"
  let ?k = "\<lambda>(deleted, g, w). let t = ?t\<lparr>t_shim := g\<rparr> in
       Ok (if deleted > 0 then
             t\<lparr>approx_count := (if approx_count t > word_of_int deleted then approx_count t - word_of_int deleted else 0)\<rparr>
           else t, w)"
  have "bind (firebase_trim_oldest_batch (b_http b) HISTORY 50 (t_shim t) w) ?k = Ok (t', w')"
    using assms True by (simp add: retention_def Let_def)
  then obtain d g v where "?k (d, g, v) = Ok (t', w')" by (rule bind_OkE) auto
  then have "t' = ?t\<lparr>approx_count := if d > 0 then if approx_count ?t > word_of_int d then approx_count ?t - word_of_int d else 0
      else approx_count ?t, t_shim := g\<rparr>" by (auto simp: Let_def split: if_splits)
  then show thesis by (intro that) simp
next
  case False
  then have "t' = t\<lparr>avg_size := next_avg_size (avg_size t) n, approx_count := approx_count t + 1, t_shim := t_shim t\<rparr>"
    using assms by (auto simp: retention_def Let_def)
  then show thesis by (rule that)
qed

lemma unat_sub_floor:
  assumes "0 < d" "d < 2 ^ 32"
  shows "unat (if (c :: u32) > word_of_int d then c - word_of_int d else 0) = unat c - nat d"
proof -
  have d: "unat (word_of_int d :: u32) = nat d" using assms by (simp add: unsigned_of_int take_bit_int_eq_self)
  show ?thesis
  proof (cases "c > word_of_int d")
    case True
    then have "word_of_int d \<le> c" by simp
    with True d show ?thesis by (simp add: unat_sub)
  next
    case False
    then have "unat c \<le> unat (word_of_int d :: u32)" by (simp add: word_le_nat_alt not_less)
    with False d show ?thesis by simp
  qed
qed

text \<open>
  C24. After an upload the limit of stored entries lies between 10535 and 10485810 (it never wraps). At or below it the
  retention policy only counts the entry; above it, it asks for one batch of 50 to be deleted and subtracts the number
  deleted from the count, which stops at 0.
\<close>

theorem retention_bounds_stored_entries:
  assumes "in_range 0 1000 (avg_size t)" "item_len \<le> 383" "unat (approx_count t) < 2 ^ 32 - 1"
    "retention b item_len t w = Ok (t', w')" "limit = unat (max_items (avg_size t') + 50)"
  shows "10535 \<le> limit \<and> limit \<le> 10485810 \<and> in_range 0 1000 (avg_size t') \<and>
    (if unat (approx_count t) + 1 \<le> limit
     then unat (approx_count t') = unat (approx_count t) + 1 \<and> t_shim t' = t_shim t \<and> w' = w
     else \<exists>deleted. firebase_trim_oldest_batch (b_http b) HISTORY 50 (t_shim t) w = Ok (deleted, t_shim t', w') \<and>
       (deleted < 2 ^ 32 \<longrightarrow> unat (approx_count t') = unat (approx_count t) + 1 - nat deleted))"
proof -
  let ?a = "next_avg_size (avg_size t) item_len"
  have a: "in_range 0 1000 ?a" using assms(1,2) by (rule next_avg_size_bounds)
  have a': "avg_size t' = ?a" using assms(4) by (elim retention_Ok) simp
  have m: "unat (max_items ?a + 50) = unat (max_items ?a) + 50"
    using max_items_bounds [OF a] by (subst unat_plus_if') simp
  have c: "unat (approx_count t + 1) = unat (approx_count t) + 1" using assms(3) by (subst unat_plus_if') simp
  have l: "approx_count t + 1 > max_items ?a + 50 \<longleftrightarrow> \<not> unat (approx_count t) + 1 \<le> limit"
    unfolding word_less_nat_alt c assms(5) a' by auto
  show ?thesis
  proof (cases "unat (approx_count t) + 1 \<le> limit")
    case True
    with assms(4) l have "t' = t\<lparr>avg_size := ?a, approx_count := approx_count t + 1\<rparr>" "w' = w"
      by (auto simp: retention_def Let_def)
    with True show ?thesis using a' a m max_items_bounds [OF a] assms(5) c by simp
  next
    case False
    let ?t = "t\<lparr>avg_size := ?a, approx_count := approx_count t + 1\<rparr>"
    let ?k = "\<lambda>(deleted, g, w). let t = ?t\<lparr>t_shim := g\<rparr> in
       Ok (if deleted > 0 then
             t\<lparr>approx_count := (if approx_count t > word_of_int deleted then approx_count t - word_of_int deleted else 0)\<rparr>
           else t, w)"
    from False assms(4) l have "bind (firebase_trim_oldest_batch (b_http b) HISTORY 50 (t_shim t) w) ?k = Ok (t', w')"
      by (simp add: retention_def Let_def)
    then obtain d g v where f: "firebase_trim_oldest_batch (b_http b) HISTORY 50 (t_shim t) w = Ok (d, g, v)"
      "?k (d, g, v) = Ok (t', w')" by (rule bind_OkE) auto
    from f(2) have k: "v = w'" "t_shim t' = g"
      "approx_count t' = (if d > 0 then if approx_count t + 1 > word_of_int d then approx_count t + 1 - word_of_int d else 0 else approx_count t + 1)"
      by (auto simp: Let_def split: if_splits)
    have "d < 2 ^ 32 \<longrightarrow> unat (approx_count t') = unat (approx_count t) + 1 - nat d"
      unfolding k(3) using unat_sub_floor [of d "approx_count t + 1"] c by (simp split: if_splits)
    with False f(1) k show ?thesis using a' a m max_items_bounds [OF a] assms(5) by simp
  qed
qed

section \<open>The payload of a batch\<close>

lemma length_json_str: "length (json_str k v) = length k + length v + 5"
  by (simp add: json_str_def key_def)

definition batch_fields :: "string \<Rightarrow> sensors_state \<Rightarrow> tm \<Rightarrow> task \<Rightarrow> (string \<times> string) list" where
  "batch_fields device_id s now t =
    (if first_send t then [(''fecha'', strftime_date now), (''inicio'', inicio_str t), (''ciudad'', g_city_state s),
        (''hora'', strftime_time now), (''id'', device_id)]
     else (if last_fecha_str t \<noteq> strftime_date now then [(''fecha'', strftime_date now)] else []) @ [(''hora'', strftime_time now)])"

fun commas :: "string list \<Rightarrow> string" where
  "commas [] = []"
| "commas [x] = x"
| "commas (x # xs) = x @ '','' @ commas xs"


definition batch_payload :: "string \<Rightarrow> sensors_state \<Rightarrow> tm \<Rightarrow> task \<Rightarrow> string" where
  "batch_payload device_id s now t =
     json_values (average t) @ commas (map (\<lambda>(k, v). json_str k v) (batch_fields device_id s now t)) @ ''}''"

definition task_inv :: "task \<Rightarrow> bool" where
  "task_inv t \<longleftrightarrow> sample_count t < SAMPLES_PER_BATCH \<and> sums_ok t \<and> in_range 0 1000 (avg_size t) \<and>
     length (inicio_str t) = 8 \<and> length (last_fecha_str t) \<le> 10"

lemma batch_json_complete:
  assumes "sums_ok t" "0 < sample_count t" "length (inicio_str t) = 8" "length (last_fecha_str t) \<le> 10"
    "valid_tm now" "length (g_city_state s) \<le> 63" "length device_id \<le> 96"
  shows "fst (batch_json device_id s (average t) (c_trunc 16 (strftime_time now)) (c_trunc 20 (strftime_date now)) t) =
      batch_payload device_id s now t \<and> length (batch_payload device_id s now t) \<le> 383"
proof -
  have c: "c_trunc 16 (strftime_time now) = strftime_time now" "c_trunc 20 (strftime_date now) = strftime_date now"
    "c_trunc 21 (strftime_date now) = strftime_date now" "c_trunc 21 (last_fecha_str t) = last_fecha_str t"
    using strftime_lengths [OF assms(5)] assms(4) by (simp_all add: c_trunc_fits)
  have p: "printable (average t)" using assms(1,2) by (rule average_printable)
  note l = json_values_length [OF p] strftime_lengths [OF assms(5)]
  show ?thesis
  proof (cases "first_send t")
    case True
    have "sensors_format_json device_id s (average t) (strftime_time now) (strftime_date now) (inicio_str t) 384 =
      Some (batch_payload device_id s now t)"
      using format_json_fits [OF p assms(6), where device_id = device_id] l assms(3,7) True
      by (simp add: batch_payload_def batch_fields_def)
    moreover have "length (batch_payload device_id s now t) \<le> 383"
      using l assms(3,6,7) True by (simp add: batch_payload_def batch_fields_def length_json_str)
    ultimately show ?thesis using True by (simp add: batch_json_def c)
  next
    case False
    then show ?thesis using l by (simp add: batch_json_def c batch_payload_def batch_fields_def length_json_str c_trunc_fits)
  qed
qed

lemma batch_json_task:
  assumes "c_trunc 20 f = f" "c_trunc 21 f = f" "c_trunc 21 (last_fecha_str t) = last_fecha_str t"
  shows "snd (batch_json device_id s avg h f t) = t\<lparr>last_fecha_str := f, first_send := False\<rparr>"
  using assms by (cases t) (auto simp: batch_json_def)

definition batch_ready :: "'w board \<Rightarrow> sensors_state \<Rightarrow> task \<Rightarrow> bool" where
  "batch_ready b s t \<longleftrightarrow> (\<forall>w. valid_tm (fst (b_localtime b w))) \<and> length (g_city_state s) \<le> 63 \<and> length (b_device_id b) \<le> 96 \<and>
     sums_ok t \<and> 0 < sample_count t \<and> in_range 0 1000 (avg_size t) \<and> length (inicio_str t) = 8 \<and> length (last_fecha_str t) \<le> 10"

lemma send_batch_eq:
  assumes "batch_ready b s t" "b_localtime b w = (now, w1)"
  shows "send_batch b s t w =
    bind (firebase_putData (b_http b) (''/historial_mediciones/'' @ strftime_key now) (batch_payload (b_device_id b) s now t) (t_shim t) w1)
      (\<lambda>(_, g, w2). bind (retention b (length (batch_payload (b_device_id b) s now t))
          (t\<lparr>last_fecha_str := strftime_date now, first_send := False, t_shim := g\<rparr>) w2) (\<lambda>(t', w3). Ok (reset_sums t', w3))) \<and>
    length (batch_payload (b_device_id b) s now t) \<le> 383"
proof -
  have now: "valid_tm now" using assms unfolding batch_ready_def by (metis fst_conv)
  have c: "c_trunc 16 (strftime_time now) = strftime_time now" "c_trunc 20 (strftime_date now) = strftime_date now"
    "c_trunc 21 (strftime_date now) = strftime_date now" "c_trunc 21 (last_fecha_str t) = last_fecha_str t"
    using strftime_lengths [OF now] assms(1) by (simp_all add: c_trunc_fits batch_ready_def)
  let ?j = "batch_json (b_device_id b) s (average t) (strftime_time now) (strftime_date now) t"
  have j: "fst ?j = batch_payload (b_device_id b) s now t" and l: "length (batch_payload (b_device_id b) s now t) \<le> 383"
    using batch_json_complete [of t now s "b_device_id b"] assms(1) now by (simp_all add: batch_ready_def c)
  have "snd ?j = t\<lparr>last_fecha_str := strftime_date now, first_send := False\<rparr>"
    by (rule batch_json_task) (rule c)+
  with j have "?j = (batch_payload (b_device_id b) s now t, t\<lparr>last_fecha_str := strftime_date now, first_send := False\<rparr>)"
    by (metis prod.collapse)
  then show ?thesis using l unfolding send_batch_def assms(2) prod.case Let_def c path_put_complete [OF now] by simp
qed


lemma send_batch_inv:
  assumes "batch_ready b s t" "send_batch b s t w = Ok (t', w')"
  shows "task_inv t'"
proof -
  obtain now w1 where now: "b_localtime b w = (now, w1)" by force
  let ?p = "batch_payload (b_device_id b) s now t"
  note e = send_batch_eq [OF assms(1) now]
  obtain g w2 where r: "bind (retention b (length ?p) (t\<lparr>last_fecha_str := strftime_date now, first_send := False, t_shim := g\<rparr>) w2)
      (\<lambda>(t', w3). Ok (reset_sums t', w3)) = Ok (t', w')"
    using assms(2) unfolding e [THEN conjunct1] by (elim bind_OkE) auto
  then obtain u w3 where u: "retention b (length ?p) (t\<lparr>last_fecha_str := strftime_date now, first_send := False, t_shim := g\<rparr>) w2 = Ok (u, w3)"
    "t' = reset_sums u" by (elim bind_OkE) auto
  from u(1) obtain n g' where "u = t\<lparr>last_fecha_str := strftime_date now, first_send := False, t_shim := g,
      avg_size := next_avg_size (avg_size t) (length ?p), approx_count := n, t_shim := g'\<rparr>"
    by (rule retention_Ok) simp
  moreover have "valid_tm now" using assms(1) now unfolding batch_ready_def by (metis fst_conv)
  moreover have "in_range 0 1000 (next_avg_size (avg_size t) (length ?p))"
    using assms(1) e by (intro next_avg_size_bounds) (simp_all add: batch_ready_def)
  ultimately show ?thesis using assms(1) u(2) strftime_lengths [of now] sums_ok_reset [of u]
    by (simp add: task_inv_def batch_ready_def SAMPLES_PER_BATCH_def reset_sums_def)
qed

lemma refresh_step_Ok:
  assumes "refresh_step b t w = Ok (t', w')"
  obtains g n where "t' = t\<lparr>t_shim := g, next_refresh_us := n\<rparr>"
proof -
  have "\<exists>g n. t' = t\<lparr>t_shim := g, next_refresh_us := n\<rparr>"
    using assms by (cases t) (auto simp: refresh_step_def Let_def split: prod.splits if_splits elim!: bind_OkE)
  then show thesis using that by blast
qed

lemma task_inv_refresh [simp]: "task_inv (t\<lparr>t_shim := g, next_refresh_us := n\<rparr>) = task_inv t"
  by (simp add: task_inv_def sums_ok_def)

definition well_set :: "'w board \<Rightarrow> sensors_state \<Rightarrow> bool" where
  "well_set b s \<longleftrightarrow> (\<forall>w. valid_tm (fst (b_localtime b w))) \<and> length (g_city_state s) \<le> 63 \<and> length (b_device_id b) \<le> 96"

text \<open>The task after a reading, before the test for a full batch.\<close>

definition after_reading :: "esp_err_t \<Rightarrow> SensorData option \<Rightarrow> task \<Rightarrow> task" where
  "after_reading err d t = (let t = (case d of None \<Rightarrow> t | Some d \<Rightarrow> t\<lparr>t_data := d\<rparr>) in
     if err = ESP_OK then accumulate (t_data t) t else t)"

lemma sums_ok_data [simp]: "sums_ok (t\<lparr>t_data := d\<rparr>) = sums_ok t"
  by (simp add: sums_ok_def)

lemma after_reading_inv:
  assumes "task_inv t" "sensors_read drv s (Some (t_data t)) w = (err, d, w')"
  shows "sums_ok (after_reading err d t)" "sample_count (after_reading err d t) \<le> Suc (sample_count t)"
    "avg_size (after_reading err d t) = avg_size t" "inicio_str (after_reading err d t) = inicio_str t"
    "last_fecha_str (after_reading err d t) = last_fecha_str t" "t_shim (after_reading err d t) = t_shim t"
proof -
  show "sums_ok (after_reading err d t)"
  proof (cases "err = ESP_OK")
    case True
    then obtain d' where d: "d = Some d'" using assms(2)
      by (auto simp: sensors_read_def Let_def esp_err_defs split: sensors_read_splits)
    from assms(2) have "sensor_ranges d'" unfolding True d by (rule sensors_read_ranges)
    with assms(1) True d show ?thesis
      by (simp add: after_reading_def task_inv_def SAMPLES_PER_BATCH_def sums_ok_accumulate)
  qed (use assms(1) in \<open>simp add: after_reading_def task_inv_def split: option.split\<close>)
qed (simp_all add: after_reading_def Let_def accumulate_def split: option.split)

lemma sensor_task_step_eq:
  assumes "sensors_read (b_i2c b) s (Some (t_data t)) w = (err, d, w1)"
  shows "sensor_task_step b s t w =
    bind (if sample_count (after_reading err d t) \<ge> SAMPLES_PER_BATCH then send_batch b s (after_reading err d t) w1
          else Ok (after_reading err d t, w1)) (\<lambda>(t, w). refresh_step b t w)"
  by (simp add: sensor_task_step_def assms after_reading_def Let_def)

lemma sensor_task_step_inv:
  assumes "task_inv t" "well_set b s" "sensor_task_step b s t w = Ok (t', w')"
  shows "task_inv t'"
proof -
  obtain err d w1 where r: "sensors_read (b_i2c b) s (Some (t_data t)) w = (err, d, w1)" by (metis surj_pair)
  note a = after_reading_inv [OF assms(1) r]
  let ?t = "after_reading err d t"
  from assms(3) obtain u v where u: "(if sample_count ?t \<ge> SAMPLES_PER_BATCH then send_batch b s ?t w1 else Ok (?t, w1)) = Ok (u, v)"
    "refresh_step b u v = Ok (t', w')" unfolding sensor_task_step_eq [OF r] by (elim bind_OkE) auto
  have "task_inv u"
  proof (cases "sample_count ?t \<ge> SAMPLES_PER_BATCH")
    case True
    then have "batch_ready b s ?t" using a assms(1,2)
      by (simp add: batch_ready_def well_set_def task_inv_def SAMPLES_PER_BATCH_def)
    with True u(1) show ?thesis using send_batch_inv by auto
  next
    case False
    with u(1) have "u = ?t" by simp
    with False a assms(1) show ?thesis by (simp add: task_inv_def)
  qed
  with u(2) show ?thesis using refresh_step_Ok by (metis task_inv_refresh)
qed

lemma sensor_task_start_inv:
  assumes "well_set b s" "sensor_task_start b data0 u g w = Ok (Some t, w')"
  shows "task_inv t"
proof -
  obtain now w1 where now: "b_localtime b w = (now, w1)" by force
  then have "valid_tm now" using assms(1) unfolding well_set_def by (metis fst_conv)
  then have l: "length (c_trunc 20 (strftime_time now)) = 8" by (simp add: strftime_lengths)
  show ?thesis using assms(2) l unfolding sensor_task_start_def now Let_def prod.case
    by (elim bind_OkE) (auto simp: task_inv_def SAMPLES_PER_BATCH_def sums_ok_def in_range_def split_beta
      split: if_splits elim!: bind_OkE)
qed

text \<open>
  What the accumulators stand for: \<open>recent rs\<close> are the readings after the last full batch, \<open>rounded_sum f ds\<close> is the sum
  of the field \<open>f\<close> over \<open>ds\<close> in doubles, and \<open>batch_mean\<close> the message made of a batch.
\<close>

definition recent :: "'a list \<Rightarrow> 'a list" where
  "recent rs = drop (5 * (length rs div 5)) rs"

definition rounded_sum :: "(SensorData \<Rightarrow> rat) \<Rightarrow> SensorData list \<Rightarrow> rat" where
  "rounded_sum f ds = foldl (\<lambda>acc d. rnd_double (acc + f d)) 0 ds"

definition co2_sum :: "SensorData list \<Rightarrow> nat" where
  "co2_sum ds = (\<Sum>d\<leftarrow>ds. unat (co2 d))"

definition sums_of :: "SensorData list \<Rightarrow> task \<Rightarrow> bool" where
  "sums_of ds t \<longleftrightarrow> sample_count t = length ds \<and>
     sum_pm1p0 t = rounded_sum pm1p0 ds \<and> sum_pm2p5 t = rounded_sum pm2p5 ds \<and> sum_pm4p0 t = rounded_sum pm4p0 ds \<and>
     sum_pm10p0 t = rounded_sum pm10p0 ds \<and> sum_voc t = rounded_sum voc ds \<and> sum_nox t = rounded_sum nox ds \<and>
     sum_avg_temp t = rounded_sum avg_temp ds \<and> sum_avg_hum t = rounded_sum avg_hum ds \<and> unat (sum_co2 t) = co2_sum ds"

definition batch_mean :: "SensorData list \<Rightarrow> SensorData" where
  "batch_mean ds = (let m = (\<lambda>f. rnd_float (rnd_double (rounded_sum f ds / of_nat (length ds)))) in
     \<lparr>co2 = word_of_nat (co2_sum ds div length ds), scd_temp = m avg_temp, scd_hum = m avg_hum,
      pm1p0 = m pm1p0, pm2p5 = m pm2p5, pm4p0 = m pm4p0, pm10p0 = m pm10p0, voc = m voc, nox = m nox,
      sen_temp = m avg_temp, sen_hum = m avg_hum, avg_temp = m avg_temp, avg_hum = m avg_hum\<rparr>)"

lemma length_recent: "length (recent rs) = length rs mod 5"
  by (simp add: recent_def minus_mult_div_eq_mod)

lemma recent_snoc: "recent (rs @ [d]) = (if length (recent rs) = 4 then [] else recent rs @ [d])"
proof -
  have k: "5 * (length rs div 5) \<le> length rs" by (simp add: mult.commute)
  show ?thesis
  proof (cases "length rs mod 5 = 4")
    case True
    then have "Suc (length rs) mod 5 = 0" by (simp add: mod_Suc)
    then have "5 * (Suc (length rs) div 5) = Suc (length rs)" by (metis mult_div_mod_eq add_0_right)
    then show ?thesis using True by (simp add: length_recent recent_def [of "rs @ [d]"])
  next
    case False
    then have "Suc (length rs) div 5 = length rs div 5" by (simp add: div_Suc mod_Suc split: if_splits)
    then show ?thesis using False k by (simp add: length_recent) (simp add: recent_def)
  qed
qed

lemma co2_sum_le: "co2_sum ds \<le> 65535 * length ds"
proof (induction ds)
  case (Cons d ds)
  have "unat (co2 d) < 2 ^ 16" using unsigned_less [of "co2 d", where ?'a = nat] by simp
  with Cons show ?case by (simp add: co2_sum_def)
qed (simp add: co2_sum_def)

lemma sums_of_accumulate:
  assumes "sums_of ds t" "length ds < 5"
  shows "sums_of (ds @ [d]) (accumulate d (t\<lparr>t_data := e\<rparr>))"
proof -
  have "unat (co2 d) < 2 ^ 16" using unsigned_less [of "co2 d", where ?'a = nat] by simp
  then have u: "unat (ucast (co2 d) :: u32) = unat (co2 d)" by (simp add: unsigned_ucast_eq take_bit_nat_eq_self)
  from \<open>unat (co2 d) < 2 ^ 16\<close> have "co2_sum ds + unat (co2 d) < 2 ^ 32" using co2_sum_le [of ds] assms(2) by simp
  then have "unat (sum_co2 t + ucast (co2 d)) = co2_sum ds + unat (co2 d)"
    using assms(1) u by (simp add: sums_of_def unat_plus_if')
  then show ?thesis using assms(1) by (simp add: sums_of_def accumulate_def rounded_sum_def co2_sum_def)
qed

lemma sums_of_cong:
  "sums_of ds (t\<lparr>t_shim := g, next_refresh_us := n\<rparr>) = sums_of ds t" "sums_of ds (t\<lparr>t_data := d\<rparr>) = sums_of ds t"
  by (simp_all add: sums_of_def)

lemma sums_of_reset: "sums_of [] (reset_sums t)"
  by (simp add: sums_of_def reset_sums_def rounded_sum_def co2_sum_def)

lemma send_batch_resets: "send_batch b s t w = Ok (t', w') \<Longrightarrow> \<exists>u. t' = reset_sums u"
  by (auto simp: send_batch_def Let_def elim!: bind_OkE split: prod.splits)

lemma average_is_mean:
  assumes "sums_of ds t" "length ds = 5"
  shows "average t = batch_mean ds"
proof -
  have "(ucast (sum_co2 t div word_of_nat 5) :: u16) = word_of_nat (unat (sum_co2 t div 5))" by simp
  also have "unat (sum_co2 t div 5) = co2_sum ds div 5" using assms(1) by (simp add: sums_of_def unat_div)
  finally show ?thesis using assms by (simp add: average_def batch_mean_def mean_def sums_of_def Let_def)
qed

lemma step_keeps_sums:
  assumes "sums_of (recent rs) t" "sensors_read (b_i2c b) s (Some (t_data t)) w = (err, d, w1)"
    "sensor_task_step b s t w = Ok (t', w')"
  shows "err = ESP_OK \<Longrightarrow> d = Some x \<Longrightarrow> sums_of (recent (rs @ [x])) t'" "err \<noteq> ESP_OK \<Longrightarrow> sums_of (recent rs) t'"
proof -
  let ?t = "after_reading err d t"
  have l: "length (recent rs) < 5" by (simp add: length_recent)
  from assms(3) obtain u v where u: "(if sample_count ?t \<ge> SAMPLES_PER_BATCH then send_batch b s ?t w1 else Ok (?t, w1)) = Ok (u, v)"
    "refresh_step b u v = Ok (t', w')" unfolding sensor_task_step_eq [OF assms(2)] by (elim bind_OkE) auto
  have t': "sums_of ds t'" if "sums_of ds u" for ds using refresh_step_Ok [OF u(2)] that sums_of_cong(1) by metis
  have n: "sample_count t = length (recent rs)" using assms(1) by (simp add: sums_of_def)
  show "sums_of (recent (rs @ [x])) t'" if "err = ESP_OK" "d = Some x"
  proof -
    have s: "sums_of (recent rs @ [x]) ?t" using sums_of_accumulate [OF assms(1) l] that by (simp add: after_reading_def)
    then have c: "sample_count ?t = Suc (length (recent rs))" by (simp add: sums_of_def)
    show ?thesis
    proof (cases "length (recent rs) = 4")
      case True
      with u(1) c have "send_batch b s ?t w1 = Ok (u, v)" by (simp add: SAMPLES_PER_BATCH_def)
      from send_batch_resets [OF this] True show ?thesis by (auto simp: recent_snoc intro!: t' sums_of_reset)
    next
      case False
      with u(1) c l s show ?thesis by (auto simp: SAMPLES_PER_BATCH_def recent_snoc intro!: t')
    qed
  qed
  show "sums_of (recent rs) t'" if "err \<noteq> ESP_OK"
  proof -
    have "sums_of (recent rs) ?t" "sample_count ?t = length (recent rs)"
      using assms(1) n that by (simp_all add: after_reading_def sums_of_cong split: option.split)
    with u(1) l show ?thesis by (auto simp: SAMPLES_PER_BATCH_def intro!: t')
  qed
qed

lemma start_sums: "sensor_task_start b data0 u g w = Ok (Some t, w') \<Longrightarrow> sums_of (recent []) t"
  by (auto simp: sensor_task_start_def Let_def case_prod_unfold sums_of_def rounded_sum_def co2_sum_def recent_def
    elim!: bind_OkE split: if_splits)

text \<open>
  C9. At the head of every turn of the loop of \<open>sensor_task\<close>, after the successful readings \<open>rs\<close>, the count and every
  accumulator belong to the \<open>length rs mod 5\<close> readings since the last full batch: each is the sum, rounded to a double at every
  step, of its own field over them, and the CO2 sum is their exact sum, without wrap-around. With the fifth reading of a batch,
  what \<open>average\<close> makes of the accumulators are the means of the five readings. The values are in range, the average
  item size is between 0 and 1000, and the two stored time strings have the length their arrays expect.
\<close>

theorem sensor_task_invariant:
  assumes "task_run b s rs t w" "well_set b s"
  shows "task_inv t \<and> length (recent rs) = length rs mod 5 \<and> sums_of (recent rs) t \<and>
    (length (recent rs) = 4 \<longrightarrow> (\<forall>d. average (after_reading ESP_OK (Some d) t) = batch_mean (recent rs @ [d])))"
proof -
  have "task_inv t \<and> sums_of (recent rs) t" using assms(1)
  proof induction
    case (start data0 u g w t w')
    then show ?case using sensor_task_start_inv [OF assms(2) start] start_sums [OF start] by simp
  next
    case (reading rs t w d w1 t' w')
    then show ?case using sensor_task_step_inv [OF _ assms(2) reading.hyps(3)] step_keeps_sums(1) [OF _ reading.hyps(2,3) refl refl] by simp
  next
    case (failed rs t w err d w1 t' w')
    then show ?case using sensor_task_step_inv [OF _ assms(2) failed.hyps(4)] step_keeps_sums(2) [OF _ failed.hyps(2,4,3)] by simp
  qed
  moreover have "average (after_reading ESP_OK (Some d) t) = batch_mean (recent rs @ [d])"
    if "sums_of (recent rs) t" "length (recent rs) = 4" for d
    using average_is_mean [OF sums_of_accumulate [OF that(1)]] that(2) by (simp add: after_reading_def)
  ultimately show ?thesis by (simp add: length_recent)
qed

section \<open>Uploads\<close>

text \<open>The runs of the task, with the number of successful readings so far.\<close>

inductive task_readings :: "'w board \<Rightarrow> sensors_state \<Rightarrow> nat \<Rightarrow> task \<Rightarrow> 'w \<Rightarrow> bool" for b s where
  start: "sensor_task_start b data0 uninitialised g w = Ok (Some t, w') \<Longrightarrow> task_readings b s 0 t w'"
| step: "task_readings b s r t w \<Longrightarrow> sensors_read (b_i2c b) s (Some (t_data t)) w = (err, d, w1) \<Longrightarrow>
    sensor_task_step b s t w = Ok (t', w') \<Longrightarrow> task_readings b s (if err = ESP_OK then Suc r else r) t' w'"

lemma sample_count_after_reading: "sample_count (after_reading err d t) = (if err = ESP_OK then Suc (sample_count t) else sample_count t)"
  by (simp add: after_reading_def Let_def accumulate_def split: option.split)

lemma sample_count_send_batch: "send_batch b s t w = Ok (t', w') \<Longrightarrow> sample_count t' = 0"
  by (auto simp: send_batch_def Let_def reset_sums_def elim!: bind_OkE split: prod.splits)

lemma readings_counted: "task_readings b s r t w \<Longrightarrow> sample_count t = r mod 5"
proof (induction rule: task_readings.induct)
  case (start data0 uninitialised g w t w')
  then show ?case by (auto simp: sensor_task_start_def Let_def case_prod_unfold elim!: bind_OkE split: if_splits)
next
  case (step r t w err d w1 t' w')
  let ?t = "after_reading err d t"
  from step.hyps(3) obtain u v where u: "(if sample_count ?t \<ge> SAMPLES_PER_BATCH then send_batch b s ?t w1 else Ok (?t, w1)) = Ok (u, v)"
    "refresh_step b u v = Ok (t', w')" unfolding sensor_task_step_eq [OF step.hyps(2)] by (elim bind_OkE) auto
  have "sample_count t' = sample_count u" using u(2) by (rule refresh_step_Ok) simp
  moreover have "sample_count u = (if sample_count ?t \<ge> 5 then 0 else sample_count ?t)"
    using u(1) sample_count_send_batch by (auto simp: SAMPLES_PER_BATCH_def split: if_splits)
  ultimately show ?case using step.IH by (auto simp: sample_count_after_reading mod_Suc)
qed

text \<open>
  C11. Every fifth successful reading leads to an upload: in a turn that begins after \<open>r\<close> successful readings since the start, the batch is
  sent exactly when the reading of the turn succeeds and \<open>r + 1\<close> is a multiple of five; in every other turn nothing is uploaded and only the
  token may be refreshed. Failed readings do not count and do not lose the readings before them.
\<close>

theorem every_fifth_reading_is_uploaded:
  assumes "task_readings b s r t w" "sensors_read (b_i2c b) s (Some (t_data t)) w = (err, d, w1)"
  shows "sensor_task_step b s t w =
    (if err = ESP_OK \<and> 5 dvd Suc r then bind (send_batch b s (after_reading err d t) w1) (\<lambda>(t, w). refresh_step b t w)
     else refresh_step b (after_reading err d t) w1)"
proof -
  have "SAMPLES_PER_BATCH \<le> sample_count (after_reading err d t) \<longleftrightarrow> err = ESP_OK \<and> 5 dvd Suc r"
    using readings_counted [OF assms(1)] by (auto simp: sample_count_after_reading SAMPLES_PER_BATCH_def) presburger+
  then show ?thesis by (simp add: sensor_task_step_eq [OF assms(2)])
qed

section \<open>The shim\<close>

definition shim_ready :: "shim \<Rightarrow> bool" where
  "shim_ready g \<longleftrightarrow> (case g_app g of None \<Rightarrow> g_rtdb g = None | Some a \<Rightarrow> app_ready a)"

text \<open>\<open>buffer\<close> for an object whose receive buffer contains a NUL.\<close>

lemma ready_kept: "safe (may_end True) (\<lambda>(_, a, w). app_live a \<and> (True \<longrightarrow> terminated a)) r = safe json_exception (\<lambda>(_, a, w). app_ready a) r"
  by (simp add: app_ready_def)

lemmas ready_keeps = buffer.kept_write_data [where b = True, unfolded ready_kept] buffer.kept_deleteData [where b = True, unfolded ready_kept]
  buffer.kept_trimDays [where b = True, unfolded ready_kept] buffer.kept_trimOldestBatch [where b = True, unfolded ready_kept]
  buffer.kept_forceRefreshAuth [where b = True, unfolded ready_kept]

lemma app_readyD: "app_ready a \<Longrightarrow> app_live a \<and> (b \<longrightarrow> terminated a)"
  by (simp add: app_ready_def)

lemma on_rtdb_safe:
  assumes "shim_ready g" "\<And>base a w. app_ready a \<Longrightarrow> safe json_exception (\<lambda>(_, a, w). app_ready a) (oper base (a, w))"
  shows "safe json_exception (\<lambda>(_, g, w). shim_ready g) (on_rtdb oper g w)"
proof (cases "g_rtdb g")
  case None
  with assms(1) show ?thesis by (simp add: on_rtdb_def)
next
  case (Some base)
  with assms(1) obtain a where a: "g_app g = Some a" "app_ready a" by (auto simp: shim_ready_def split: option.splits)
  have "safe json_exception (\<lambda>(_, g, w). shim_ready g) (bind (oper base (a, w)) (\<lambda>(r, a, w). Ok (r, g\<lparr>g_app := Some a\<rparr>, w)))"
    by (rule safe_bind [OF assms(2) [OF a(2)]]) (auto simp: shim_ready_def)
  then show ?thesis using Some a(1) by (simp add: on_rtdb_def)
qed

abbreviation shim_kept :: "(int \<times> shim \<times> 'w) res \<Rightarrow> bool" where
  "shim_kept \<equiv> safe json_exception (\<lambda>(_, g, w). shim_ready g)"

lemma shim_kept_ops:
  assumes "shim_ready g"
  shows "shim_kept (firebase_putData api path json g w)" "shim_kept (firebase_delete api path g w)"
    "shim_kept (firebase_push api path json g w)" "shim_kept (firebase_trim_days api path n g w)"
    "shim_kept (firebase_trim_oldest_batch api path n g w)"
  using assms by (simp_all add: firebase_putData_def firebase_delete_def firebase_push_def firebase_trim_days_def
    firebase_trim_oldest_batch_def on_rtdb_safe putData_def postData_def ready_keeps app_readyD)

lemma shim_kept_refresh:
  assumes "shim_ready g"
  shows "shim_kept (firebase_refresh_token api g w)"
proof (cases "g_app g")
  case None
  with assms show ?thesis by (simp add: firebase_refresh_token_def)
next
  case (Some a)
  with assms have a: "app_ready a" by (simp add: shim_ready_def)
  have "shim_kept (bind (forceRefreshAuth api (a, w)) (\<lambda>(err, a, w). Ok (if err = ESP_OK then 0 else -2, g\<lparr>g_app := Some a\<rparr>, w)))"
    by (rule safe_bind [OF ready_keeps(5) [OF app_readyD [OF a]]]) (auto simp: shim_ready_def)
  then show ?thesis by (simp add: firebase_refresh_token_def Some)
qed

text \<open>Hypothesis on the HTTP client: \<open>esp_http_client_init\<close> creates a client, as it does unless memory runs out.\<close>

definition client_available :: "'w http_api \<Rightarrow> bool" where
  "client_available api \<longleftrightarrow> (\<forall>w. fst (http_client_init api ''https://google.com'' w) \<noteq> None)"

text \<open>A successful login leaves a cleared receive buffer.\<close>

definition logged_in :: "bool \<Rightarrow> esp_err_t \<times> FirebaseApp \<times> 'w \<Rightarrow> bool" where
  "logged_in b r \<longleftrightarrow> (case r of (err, a, w) \<Rightarrow> (app_live a \<and> (b \<longrightarrow> terminated a)) \<and> (err = ESP_OK \<longrightarrow> terminated a))"

lemma sign_in_clears:
  assumes "app_live a \<and> (b \<longrightarrow> terminated a)"
  shows "safe (may_end b) (logged_in b) (sign_in api r account (a, w))"
proof -
  have fail: "safe (may_end b) (logged_in b) (io_return ESP_FAIL (a, w))" if "app_live a \<and> (b \<longrightarrow> terminated a)" for a and w :: 'a
    using that by (simp add: io_return_def logged_in_def esp_err_defs)
  have ok: "safe (may_end b) (logged_in b) (bind (clearHTTPBuffer (a, w)) (\<lambda>(_, s). io_return ESP_OK s))"
    if "app_live a \<and> (b \<longrightarrow> terminated a)" for a and w :: 'a
    using that clear_ready [of a w] cleared_ready [of a] by (simp add: io_return_def logged_in_def app_live_def app_ready_def)
  have step: "safe (may_end b) (logged_in b) (bind m f)" if "buffer.kept b m" "\<And>x a w. app_live a \<and> (b \<longrightarrow> terminated a) \<Longrightarrow> safe (may_end b) (logged_in b) (f (x, a, w))"
    for m :: "('c \<times> FirebaseApp \<times> 'a) res" and f
    by (rule safe_bind [OF that(1)]) (use that(2) in auto)
  have token: "safe (may_end b) (logged_in b) (bind (getAuthToken api (a, w)) (\<lambda>(err, s).
      if err \<noteq> ESP_OK then io_return ESP_FAIL s else bind (clearHTTPBuffer s) (\<lambda>(_, s). io_return ESP_OK s)))"
    if "app_live a \<and> (b \<longrightarrow> terminated a)" for a w
    by (rule step [OF buffer.kept_getAuthToken [OF that]]) (simp add: fail ok)
  have cleared: "safe (may_end b) (logged_in b) (bind (clearHTTPBuffer (a, w)) (\<lambda>(_, s). bind (getAuthToken api s) (\<lambda>(err, s).
      if err \<noteq> ESP_OK then io_return ESP_FAIL s else bind (clearHTTPBuffer s) (\<lambda>(_, s). io_return ESP_OK s))))"
    if "app_live a \<and> (b \<longrightarrow> terminated a)" for a w
    by (rule step [OF buffer.inv_clear [OF that]]) (simp add: token)
  show ?thesis unfolding sign_in_def prod.case
    by (rule step [OF buffer.kept_getRefreshToken]) (use assms in \<open>simp_all add: fail cleared\<close>)
qed

lemma shim_kept_init:
  assumes "shim_ready g" "length u = HTTP_RECV_BUFFER_SIZE" "client_available api"
  shows "safe (may_end (NUL \<in> set u)) (\<lambda>(r, g, w). r = 0 \<longrightarrow> shim_ready g) (firebase_init api p u g w)"
proof (cases "g_app g")
  case None
  let ?b = "NUL \<in> set u" and ?post = "\<lambda>(r, g, w). r = 0 \<longrightarrow> shim_ready g"
  let ?live = "\<lambda>a. app_live a \<and> (?b \<longrightarrow> terminated a)"
  have new: "safe (may_end ?b) (\<lambda>(_, a, w). ?live a) (new_FirebaseApp api key u w)" for key
    using new_FirebaseApp_live [OF assms(2), of api w key] assms(3) by (auto simp: client_available_def)
  have fin: "safe (may_end ?b) ?post (if e \<noteq> ESP_OK then Ok (-2 :: int, g\<lparr>g_app := Some a\<rparr>, v) else Ok (0, g\<lparr>g_app := Some a, g_rtdb := Some d\<rparr>, v))"
    if "logged_in ?b (e, a, v)" for e a v d using that by (simp add: logged_in_def shim_ready_def app_ready_def)
  have login: "safe (may_end ?b) (logged_in ?b) (loginUserAccount api account (a, w))" if "?live a" for account a w
    using sign_in_clears [OF that] by (simp add: loginUserAccount_def)
  have again: "safe (may_end ?b) (logged_in ?b)
      (if e \<noteq> ESP_OK then bind (registerUserAccount api (user_account a) (a, v)) (\<lambda>(reg, a, w).
         if reg = ESP_OK then loginUserAccount api (user_account a) (a, w) else io_return e (a, w))
       else io_return e (a, v))" if "logged_in ?b (e, a, v)" for e a v
  proof (cases "e = ESP_OK")
    case False
    have "?live a" using that by (simp add: logged_in_def)
    have "safe (may_end ?b) (logged_in ?b) (if reg = ESP_OK then loginUserAccount api (user_account a) (a, w) else io_return e (a, w))"
      if "logged_in ?b (reg, a, w)" for reg a w
      using that False login [of a "user_account a" w] by (auto simp: logged_in_def [of _ "(reg, a, w)"] logged_in_def [of _ "(e, a, w)"] io_return_def)
    with False show ?thesis unfolding registerUserAccount_def
      by simp (rule safe_bind [OF sign_in_clears [OF \<open>?live a\<close>]], auto)
  qed (use that in \<open>simp add: io_return_def\<close>)
  show ?thesis using None unfolding firebase_init_def Let_def
    by (simp only: simp_thms if_False, intro safe_bind [OF new])
      (auto intro!: safe_bind [OF login] safe_bind [OF again] fin)
qed (use assms(1) in \<open>simp add: firebase_init_def\<close>)

abbreviation task_kept :: "(task \<times> 'w) res \<Rightarrow> bool" where
  "task_kept \<equiv> safe json_exception (\<lambda>(t, w). shim_ready (t_shim t))"

lemma retention_kept: "shim_ready (t_shim t) \<Longrightarrow> task_kept (retention b n t w)"
  unfolding retention_def Let_def by (auto intro!: safe_bind [OF shim_kept_ops(5)])

lemma send_batch_kept:
  assumes "shim_ready (t_shim t)"
  shows "task_kept (send_batch b s t w)"
proof -
  have j: "t_shim (snd (batch_json i s a h f t)) = t_shim t" for i a h f by (simp add: batch_json_def)
  show ?thesis unfolding send_batch_def Let_def split_beta
    using assms by (auto intro!: safe_bind [OF shim_kept_ops(1)] safe_bind [OF retention_kept] simp: j reset_sums_def)
qed

lemma refresh_step_kept: "shim_ready (t_shim t) \<Longrightarrow> task_kept (refresh_step b t w)"
  unfolding refresh_step_def Let_def split_beta by (auto intro!: safe_bind [OF shim_kept_refresh])

text \<open>
  C10. The measuring task composes the components without a write outside a buffer or the use of a null object or client,
  provided that \<open>esp_http_client_init\<close> creates the client: the start of the task from the state at boot (or any usable
  Firebase globals) and every turn of its loop end normally, with the Firebase globals usable for the next turn, or by an
  exception of the JSON library. No turn reads past the receive buffer; the start can, but only when the memory that \<open>new char[]\<close>
  returned for the buffer contains no NUL.
\<close>

theorem sensor_task_stays_in_buffers:
  assumes "length u = HTTP_RECV_BUFFER_SIZE" "client_available (b_http b)" "shim_ready g"
  shows "safe (\<lambda>e. json_exception e \<or> NUL \<notin> set u \<and> e = unterminated_response)
      (\<lambda>(r, w). \<forall>t. r = Some t \<longrightarrow> shim_ready (t_shim t)) (sensor_task_start b data0 u g w) \<and>
    (\<forall>(t :: task) w. shim_ready (t_shim t) \<longrightarrow> safe json_exception (\<lambda>(t', w'). shim_ready (t_shim t')) (sensor_task_step b s t w))"
proof (intro conjI allI impI)
  have weak: "safe (may_end c) P r" if "safe json_exception P r" for c P and r :: "(int \<times> shim \<times> 'a) res"
    using that by (rule safe_weaken) (simp_all add: may_end_def)
  have "safe (may_end (NUL \<in> set u)) (\<lambda>(r, w). \<forall>t. r = Some t \<longrightarrow> shim_ready (t_shim t)) (sensor_task_start b data0 u g w)"
    unfolding sensor_task_start_def Let_def split_beta
    by (rule safe_bind [OF shim_kept_init [OF assms(3,1,2)]]) (auto intro!: safe_bind [OF weak [OF shim_kept_ops(2)]])
  then show "safe (\<lambda>e. json_exception e \<or> NUL \<notin> set u \<and> e = unterminated_response)
      (\<lambda>(r, w). \<forall>t. r = Some t \<longrightarrow> shim_ready (t_shim t)) (sensor_task_start b data0 u g w)"
    by (rule safe_weaken) (auto simp: may_end_def)
next
  fix t :: task and w assume t: "shim_ready (t_shim t)"
  obtain err d w1 where r: "sensors_read (b_i2c b) s (Some (t_data t)) w = (err, d, w1)" by (metis surj_pair)
  have "t_shim (after_reading err d t) = t_shim t"
    by (simp add: after_reading_def Let_def accumulate_def split: option.split)
  with t show "task_kept (sensor_task_step b s t w)" unfolding sensor_task_step_eq [OF r]
    by (intro safe_bind [where P = "\<lambda>(t, w). shim_ready (t_shim t)"]) (auto intro!: send_batch_kept refresh_step_kept)
qed

section \<open>Start of the application\<close>

lemma ul_attempts_no_fault: "\<exists>x. ul_attempts api http m p cl sl n e cs w = Inr x"
proof (induction n arbitrary: e cs w)
  case (Suc n)
  obtain h w1 where i: "http_client_init http UNWIRED_URL (force_public_dns api m w) = (h, w1)" by force
  show ?case
  proof (cases h)
    case (Some cli)
    obtain err events w3 where p: "http_perform http cli
        (http_set_post_field http cli p (http_set_header http cli ''Content-Type'' ''application/json'' w1)) = ((err, events), w3)"
      by (metis surj_pair)
    obtain acc where acc: "ul_events events ul_accum0 = Some acc" using ul_events_ok [of events] by blast
    show ?thesis unfolding ul_attempts.simps i Some Let_def prod.case option.case p acc
      using Suc.IH by (auto split: prod.split bool.split)
  qed (use i Suc.IH in simp)
qed simp

lemma city_request_no_fault: "\<exists>x. modem_unwiredlabs_city_state api http token m cl sl cs w = Inr x"
  by (simp add: modem_unwiredlabs_city_state_def Let_def ul_attempts_no_fault del: split_paired_Ex)

definition clean_city :: "string \<Rightarrow> bool" where
  "clean_city c \<longleftrightarrow> length c \<le> 63 \<and> set c \<inter> {CHR '','', CHR '';'', CHR ''|''} = {}"

lemma build_city_clean: "build_city_hyphen 64 city state = Some c \<Longrightarrow> clean_city c"
  by (auto simp: build_city_hyphen_def Let_def clean_city_def hyphen_def split: if_splits)

lemma set_city_clean:
  assumes "r = Some c" "clean_city c"
  shows "clean_city (g_city_state (sensors_set_city_state r s))" "s_i2c_bus (sensors_set_city_state r s) = s_i2c_bus s"
  using assms by (auto simp: sensors_set_city_state_def clean_city_def)

lemma locate_ok:
  obtains s' w' where "locate b m s w = Inr (s', w')" "clean_city (g_city_state s')" "s_i2c_bus s' = s_i2c_bus s"
proof -
  obtain x where x: "modem_unwiredlabs_city_state (b_modem b) (b_http b) (b_ul_token b) m 64 64 ([], []) w = Inr x"
    using city_request_no_fault by (rule exE)
  obtain err city state w' where y: "x = ((err, city, state), w')" by (metis surj_pair)
  have d: "clean_city ''----''" by (simp add: clean_city_def)
  obtain c where c: "build_city_hyphen 64 city state = Some c" by (auto simp: build_city_hyphen_def Let_def)
  show thesis
  proof (cases "b_ul_token b = []")
    case True
    then have "locate b m s w = Inr (sensors_set_city_state (Some ''----'') s, w)" by (simp add: locate_def)
    from that [OF this] set_city_clean [OF refl d] show thesis by blast
  next
    case False
    then have "locate b m s w = Inr (sensors_set_city_state (if err = ESP_OK then Some c else Some ''----'') s, w')"
      by (simp add: locate_def x y c)
    from that [OF this] set_city_clean [OF refl d] set_city_clean [OF refl build_city_clean [OF c]]
    show thesis by (simp split: if_splits)
  qed
qed

lemma sensors_init_handles:
  assumes "sensors_init_all drv s w = (ret, s', w')" "s_i2c_bus s = None"
  shows "g_city_state s' = g_city_state s \<and>
    (ret = ESP_OK \<longrightarrow> s_i2c_bus s' \<noteq> None \<and> s_scd4x_dev s' \<noteq> None \<and> s_sen5x_dev s' \<noteq> None)"
  using assms by (auto simp: sensors_init_all_def Let_def split: prod.splits if_splits)

definition app_post :: "(bool \<times> sensors_state \<times> 'w) mres \<Rightarrow> bool" where
  "app_post r \<longleftrightarrow> (case r of Inl e \<Rightarrow> e \<noteq> Bad_Write
     | Inr (created, s, w) \<Rightarrow> clean_city (g_city_state s) \<and>
         (created \<longrightarrow> s_i2c_bus s \<noteq> None \<and> s_scd4x_dev s \<noteq> None \<and> s_sen5x_dev s \<noteq> None))"

lemma app_post_Inl: "app_post (Inl e) \<longleftrightarrow> e \<noteq> Bad_Write"
  by (simp add: app_post_def)

text \<open>
  C25. \<open>app_main\<close> always reaches an end of its start sequence without a write outside a buffer. It creates the measuring task
  only when the bus and both sensors have handles, and the stored city then has at most 63 characters, none of them a
  comma, a semicolon or a bar.
\<close>

theorem app_main_creates_task_only_with_sensors:
  assumes "ue_inv m" "s_i2c_bus s = None"
  shows "\<exists>r. app_main b m s w = Some r \<and>
    (case r of Inl e \<Rightarrow> e \<noteq> Bad_Write
     | Inr (created, s', w') \<Rightarrow> clean_city (g_city_state s') \<and>
         (created \<longrightarrow> s_i2c_bus s' \<noteq> None \<and> s_scd4x_dev s' \<noteq> None \<and> s_sen5x_dev s' \<noteq> None))"
proof -
  have "\<exists>r. app_main b m s w = Some r \<and> app_post r"
  proof (cases "nvs_start b w")
    case (Inl e)
    then have "e \<noteq> Bad_Write" by (auto simp: nvs_start_def error_check_def Let_def split: prod.splits if_splits)
    with Inl show ?thesis by (simp add: app_main_def app_post_def)
  next
    case (Inr w1)
    obtain e2 w2 where e2: "b_netif_init b w1 = (e2, w2)" by force
    obtain e3 w3 where e3: "b_event_loop b w2 = (e3, w3)" by force
    obtain r where r: "modem_ppp_start_blocking (b_modem b) the_config 150000 m (wifi_hard_off b w3) = Some r"
      "case r of Inl e \<Rightarrow> e \<noteq> Bad_Write | Inr _ \<Rightarrow> True"
      using modem_start_no_fault [OF assms(1), of 150000 "b_modem b" the_config "wifi_hard_off b w3"]
      by (fastforce simp: ends_def start_post_def split: option.splits sum.splits)
    show ?thesis
    proof (cases r)
      case Inl': (Inl f)
      with r(2) have "app_post (Inl f)" by (simp add: app_post_def)
      then show ?thesis unfolding app_main_def Inr sum.case e2 e3 Let_def prod.case r(1) option.case Inl' by (simp add: app_post_Inl)
    next
      case Inr': (Inr x)
      obtain mret m' w4 where x: "x = (mret, m', w4)" by (cases x)
      obtain s5 w5 where l: "locate b m' s (init_sntp_and_time b w4) = Inr (s5, w5)" "clean_city (g_city_state s5)" "s_i2c_bus s5 = s_i2c_bus s"
        by (rule locate_ok)
      obtain sret s6 w6 where i: "sensors_init_all (b_i2c b) s5 w5 = (sret, s6, w6)" by (cases "sensors_init_all (b_i2c b) s5 w5")
      have "app_post (Inr (sret = ESP_OK, s6, w6))"
        using sensors_init_handles [OF i] l assms(2) by (simp add: app_post_def)
      then show ?thesis unfolding app_main_def Inr sum.case e2 e3 Let_def prod.case r(1) option.case Inr' x l(1) i by (simp add: app_post_Inl)
    qed
  qed
  then show ?thesis unfolding app_post_def .
qed

section \<open>A concrete board\<close>

definition demo_tm :: tm where
  "demo_tm = \<lparr>tm_year = 2025, tm_mon = 1, tm_mday = 31, tm_hour = 23, tm_min = 59, tm_sec = 58\<rparr>"

definition demo_board :: "nat board" where
  "demo_board = \<lparr>b_i2c = demo_bus, b_http = demo_http ''x'', b_modem = demo_modem ''OK'', b_localtime = \<lambda>w. (demo_tm, w),
     b_time = \<lambda>w. (1700000000, w), b_timer_us = \<lambda>w. (0, w), b_nvs_init = \<lambda>w. (ESP_OK, w), b_nvs_erase = \<lambda>w. (ESP_OK, w),
     b_netif_init = \<lambda>w. (ESP_OK, w), b_event_loop = \<lambda>w. (ESP_OK, w), b_sntp_start = \<lambda>w. w, b_wifi_stop = \<lambda>w. w, b_wifi_deinit = \<lambda>w. w,
     b_netif_from_ifkey = \<lambda>k w. (None, w), b_netif_destroy = \<lambda>n w. w,
     b_privado = \<lparr>API_KEY = ''k'', USER_EMAIL = ''u'', USER_PASSWORD = ''p'', DATABASE_URL = ''d''\<rparr>,
     b_device_id = ''esp32'', b_ul_token = []\<rparr>"

definition demo_task :: task where
  "demo_task = \<lparr>t_data = demo_data, inicio_str = ''23:59:58'', first_send = True, sample_count = 5,
     sum_pm1p0 = 0, sum_pm2p5 = 0, sum_pm4p0 = 0, sum_pm10p0 = 0, sum_voc = 0, sum_nox = 0, sum_avg_temp = 0,
     sum_avg_hum = 0, sum_co2 = 0, last_fecha_str = [], next_refresh_us = 1, avg_size = 256, approx_count = 0,
     t_shim = \<lparr>g_app = None, g_rtdb = None\<rparr>\<rparr>"

lemma demo_well_set: "well_set demo_board sensors_state0"
  by (simp add: well_set_def demo_board_def demo_tm_def valid_tm_def sensors_state0_def)

theorem upload_keys_are_chronological_witness:
  "strftime_key demo_tm < strftime_key (demo_tm\<lparr>tm_mon := 2, tm_mday := 1, tm_hour := 0\<rparr>)"
  using upload_keys_are_chronological [of demo_tm "demo_tm\<lparr>tm_mon := 2, tm_mday := 1, tm_hour := 0\<rparr>"]
  by (simp add: demo_tm_def valid_tm_def tm_fields_def)

theorem retention_bounds_stored_entries_witness:
  "\<exists>t' w'. retention demo_board 300 demo_task 0 = Ok (t', w') \<and> unat (approx_count t') = 1 \<and> w' = 0"
proof -
  have a: "in_range 0 1000 (avg_size demo_task)" by (simp add: in_range_def demo_task_def)
  have "in_range 0 1000 (next_avg_size (avg_size demo_task) 300)" using a by (rule next_avg_size_bounds) simp
  note m = max_items_bounds [OF this]
  have "unat (max_items (next_avg_size (avg_size demo_task) 300) + 50) = unat (max_items (next_avg_size (avg_size demo_task) 300)) + 50"
    using m by (subst unat_plus_if') simp
  then have "\<not> approx_count demo_task + 1 > max_items (next_avg_size (avg_size demo_task) 300) + 50"
    using m by (simp add: word_less_nat_alt demo_task_def)
  then have r: "retention demo_board 300 demo_task 0 =
      Ok (demo_task\<lparr>avg_size := next_avg_size (avg_size demo_task) 300, approx_count := approx_count demo_task + 1\<rparr>, 0)"
    by (simp add: retention_def Let_def)
  have "approx_count demo_task = 0" by (simp add: demo_task_def)
  with retention_bounds_stored_entries [OF a _ _ r refl] r show ?thesis by simp
qed



text \<open>A first turn: the start, then a successful reading.\<close>

lemma demo_first_turn:
  obtains t d t' where "sensor_task_start demo_board demo_data [] \<lparr>g_app = Some demo_app, g_rtdb = None\<rparr> 0 = Ok (Some t, 0)" "t_data t = demo_data"
    "sensors_read (b_i2c demo_board) sensors_state0 (Some (t_data t)) 0 = (ESP_OK, Some d, 3)"
    "sensor_task_step demo_board sensors_state0 t 0 = Ok (t', 3)"
proof -
  let ?g = "\<lparr>g_app = Some demo_app, g_rtdb = None\<rparr>"
  have "\<exists>t. sensor_task_start demo_board demo_data [] ?g 0 = Ok (Some t, 0) \<and> t_data t = demo_data \<and> sample_count t = 0 \<and> 0 < next_refresh_us t"
    by (simp add: sensor_task_start_def demo_board_def firebase_init_def firebase_delete_def on_rtdb_def REFRESH_US_def minutes_to_us_def)
  then obtain t where t: "sensor_task_start demo_board demo_data [] ?g 0 = Ok (Some t, 0)" "t_data t = demo_data" "sample_count t = 0"
    "0 < next_refresh_us t" by blast
  obtain d where "sensors_read demo_bus sensors_state0 (Some demo_data) 0 = (ESP_OK, Some d, 3)" using demo_read by blast
  then have d: "sensors_read (b_i2c demo_board) sensors_state0 (Some (t_data t)) 0 = (ESP_OK, Some d, 3)" by (simp add: t(2) demo_board_def)
  have "sensor_task_step demo_board sensors_state0 t 0 = Ok (after_reading ESP_OK (Some d) t, 3)"
    unfolding sensor_task_step_eq [OF d] using t(3,4)
    by (simp add: after_reading_def accumulate_def SAMPLES_PER_BATCH_def refresh_step_def demo_board_def)
  then show thesis using that t(1,2) d by blast
qed

theorem sensor_task_invariant_witness:
  "\<exists>d t. task_run demo_board sensors_state0 [d] t 3 \<and> task_inv t \<and> sample_count t = 1 \<and> sum_voc t = rnd_double (0 + voc d)"
proof -
  obtain t d t' where t: "sensor_task_start demo_board demo_data [] \<lparr>g_app = Some demo_app, g_rtdb = None\<rparr> 0 = Ok (Some t, 0)"
    "sensors_read (b_i2c demo_board) sensors_state0 (Some (t_data t)) 0 = (ESP_OK, Some d, 3)"
    "sensor_task_step demo_board sensors_state0 t 0 = Ok (t', 3)" by (rule demo_first_turn)
  from task_run.reading [OF task_run.start [OF t(1)] t(2,3)] have r: "task_run demo_board sensors_state0 [d] t' 3" by simp
  from sensor_task_invariant [OF r demo_well_set] have "task_inv t'" "sums_of [d] t'" by (simp_all add: recent_def)
  with r show ?thesis by (auto simp: sums_of_def rounded_sum_def)
qed

theorem every_fifth_reading_is_uploaded_witness:
  "\<exists>t d. task_readings demo_board sensors_state0 0 t 0 \<and>
    sensor_task_step demo_board sensors_state0 t 0 = refresh_step demo_board (after_reading ESP_OK (Some d) t) 3"
proof -
  let ?g = "\<lparr>g_app = Some demo_app, g_rtdb = None\<rparr>"
  have "\<exists>t. sensor_task_start demo_board demo_data [] ?g 0 = Ok (Some t, 0) \<and> t_data t = demo_data"
    by (simp add: sensor_task_start_def demo_board_def firebase_init_def firebase_delete_def on_rtdb_def)
  then obtain t where t: "sensor_task_start demo_board demo_data [] ?g 0 = Ok (Some t, 0)" "t_data t = demo_data" by blast
  have r: "task_readings demo_board sensors_state0 0 t 0" using t(1) by (rule task_readings.start)
  obtain d where "sensors_read demo_bus sensors_state0 (Some demo_data) 0 = (ESP_OK, Some d, 3)" using demo_read by blast
  then have "sensors_read (b_i2c demo_board) sensors_state0 (Some (t_data t)) 0 = (ESP_OK, Some d, 3)" by (simp add: t(2) demo_board_def)
  from every_fifth_reading_is_uploaded [OF r this] r show ?thesis by auto
qed

theorem sensor_task_stays_in_buffers_witness:
  "safe json_exception (\<lambda>(r, w). \<forall>t. r = Some t \<longrightarrow> shim_ready (t_shim t))
     (sensor_task_start demo_board demo_data (replicate HTTP_RECV_BUFFER_SIZE NUL) \<lparr>g_app = None, g_rtdb = None\<rparr> 0) \<and>
   safe json_exception (\<lambda>(t', w'). shim_ready (t_shim t'))
     (sensor_task_step demo_board sensors_state0 (demo_task\<lparr>t_shim := \<lparr>g_app = Some demo_app, g_rtdb = Some ''https://db''\<rparr>\<rparr>) 0)"
proof -
  let ?u = "replicate HTTP_RECV_BUFFER_SIZE NUL" and ?g = "\<lparr>g_app = None, g_rtdb = None\<rparr>"
  have "shim_ready ?g" "shim_ready (t_shim (demo_task\<lparr>t_shim := \<lparr>g_app = Some demo_app, g_rtdb = Some ''https://db''\<rparr>\<rparr>))"
    using demo_app_ready by (simp_all add: shim_ready_def)
  moreover have "client_available (b_http demo_board)" by (simp add: client_available_def demo_board_def demo_http_def)
  moreover have "NUL \<in> set ?u" by (simp add: HTTP_RECV_BUFFER_SIZE_def)
  ultimately show ?thesis
    using sensor_task_stays_in_buffers [of ?u demo_board ?g demo_data 0 sensors_state0] by simp
qed

theorem app_main_creates_task_only_with_sensors_witness:
  "\<exists>r. app_main demo_board demo_state sensors_state0 0 = Some r"
  using app_main_creates_task_only_with_sensors [of demo_state sensors_state0 demo_board 0]
  by (auto simp: ue_inv_def demo_state_def sensors_state0_def)

end
