(* ===== verification/Firebase_Requests.thy ===== *)
theory Firebase_Requests
  imports Firebase_Props
begin

text \<open>
  Which requests the operations of \<open>RTDB\<close> send, as the server sees them: \<open>deleteData\<close> and the trimming of old days.
\<close>

text \<open>
  Hypothesis on the HTTP client. \<open>sends\<close>: the setters fill in the next request (URL, method, body), and
  \<open>esp_http_client_perform\<close>, and nothing else, adds it to the requests sent, whatever the reply.
\<close>

type_synonym request = "string \<times> http_method \<times> string"

definition sends :: "'w http_api \<Rightarrow> nat \<Rightarrow> ('w \<Rightarrow> request) \<Rightarrow> ('w \<Rightarrow> request list) \<Rightarrow> bool" where
  "sends api h req sent \<longleftrightarrow>
    (\<forall>u w. req (http_set_url api h u w) = (u, snd (req w)) \<and> sent (http_set_url api h u w) = sent w) \<and>
    (\<forall>m w. req (http_set_method api h m w) = (fst (req w), m, snd (snd (req w))) \<and> sent (http_set_method api h m w) = sent w) \<and>
    (\<forall>d w. req (http_set_post_field api h d w) = (fst (req w), fst (snd (req w)), d) \<and> sent (http_set_post_field api h d w) = sent w) \<and>
    (\<forall>k x w. req (http_set_header api h k x w) = req w \<and> sent (http_set_header api h k x w) = sent w) \<and>
    (\<forall>ms w. sent (http_set_timeout_ms api h ms w) = sent w) \<and> (\<forall>w. sent (http_close api h w) = sent w) \<and>
    (\<forall>w. sent (snd (get_time api w)) = sent w) \<and>
    (\<forall>w. sent (snd (http_perform api h w)) = sent w @ [req w])"

lemma sends_simps:
  assumes "sends api h req sent"
  shows "sent (http_set_header api h k x w) = sent w" "sent (http_set_timeout_ms api h ms w) = sent w"
    "sent (http_close api h w) = sent w" "sent (snd (get_time api w)) = sent w" "sent (after_failure api h m w) = sent w"
    "sent (snd (http_perform api h (prepare_body api h m d (http_set_method api h m (http_set_url api h u w))))) =
       sent w @ [(u, m, if has_body m then d else [])]"
  using assms by (simp_all add: sends_def after_failure_def prepare_body_def)

abbreviation live_client :: "nat \<Rightarrow> FirebaseApp \<Rightarrow> bool" where
  "live_client h a \<equiv> app_ready a \<and> client a = Some h"

lemma perform_live_client:
  assumes "live_client h a"
  obtains ret b where "perform api h (a, w) = Ok (ret, b, snd (http_perform api h w))" "live_client h b"
  using perform_live [of a api h w] assms by (auto simp: app_ready_def)

lemma request_loop_sends:
  assumes "sends api h req sent"
  shows "live_client h a \<Longrightarrow> \<exists>ret' b v k. request_loop api n url m d ret (a, w) = Ok (ret', b, v) \<and> live_client h b \<and>
    (0 < n \<longrightarrow> 0 < k) \<and> sent v = sent w @ replicate k (url, m, if has_body m then d else [])"
proof (induction n arbitrary: a w ret)
  case 0
  then show ?case by (auto simp: io_return_def intro!: exI [of _ 0])
next
  case (Suc n)
  let ?w = "prepare_body api h m d (http_set_method api h m (http_set_url api h url w))"
  let ?r = "(url, m, if has_body m then d else [])"
  obtain ret2 b where p: "perform api h (a, ?w) = Ok (ret2, b, snd (http_perform api h ?w))" "live_client h b"
    using perform_live_client [OF Suc.prems] .
  note s = sends_simps [OF assms]
  show ?case
  proof (cases "is_2xx ret2")
    case True
    with p Suc.prems s show ?thesis by (auto simp: prepare_client_def intro!: exI [of _ 1])
  next
    case False
    obtain ret' b' v k where i: "request_loop api n url m d ret2 (b, after_failure api h m (snd (http_perform api h ?w))) = Ok (ret', b', v)"
      "live_client h b'" "sent v = (sent w @ [?r]) @ replicate k ?r"
      using Suc.IH [OF p(2), of ret2 "after_failure api h m (snd (http_perform api h ?w))"] unfolding s by blast
    then have "sent v = sent w @ replicate (Suc k) ?r" by simp
    with False p i(1,2) Suc.prems show ?thesis
      by (auto simp: prepare_client_def response_text_eq app_ready_def simp del: replicate.simps intro!: exI [of _ "Suc k"])
  qed
qed

lemma performRequest_sends:
  assumes "sends api h req sent" "live_client h a"
  obtains ret b v k where "performRequest api url m d (a, w) = Ok (ret, b, v)" "live_client h b"
    "sent v = sent w @ replicate (Suc k) (cstr url, m, if has_body m then d else [])"
proof -
  obtain ret b v k where "performRequest api url m d (a, w) = Ok (ret, b, v)" "live_client h b" "0 < k"
    "sent v = sent w @ replicate k (cstr url, m, if has_body m then d else [])"
    using request_loop_sends [OF assms, of MAX_ATTEMPTS "cstr url" m d "(ESP_FAIL, -1)" w]
    by (auto simp: performRequest_def MAX_ATTEMPTS_def simp del: request_loop.simps)
  then show thesis using that by (cases k) auto
qed

text \<open>The requests sent after \<open>L\<close> satisfy \<open>Q\<close>.\<close>

definition sent_since :: "('w \<Rightarrow> request list) \<Rightarrow> request list \<Rightarrow> (request \<Rightarrow> bool) \<Rightarrow> 'w \<Rightarrow> bool" where
  "sent_since sent L Q w \<longleftrightarrow> (\<exists>reqs. sent w = L @ reqs \<and> (\<forall>r \<in> set reqs. Q r))"

lemma sent_since_cong: "sent w' = sent w \<Longrightarrow> sent_since sent L Q w \<Longrightarrow> sent_since sent L Q w'"
  by (simp add: sent_since_def)

lemma sent_since_replicate: "sent_since sent L Q w \<Longrightarrow> sent w' = sent w @ replicate k r \<Longrightarrow> Q r \<Longrightarrow> sent_since sent L Q w'"
  by (auto simp: sent_since_def)

text \<open>The token operations send \<open>POST\<close> requests only: an instance of \<open>token_invariant\<close>.\<close>

lemma token_operations_post:
  assumes "sends api h req sent" "\<And>u d. Q (u, METHOD_POST, d)"
  shows "token_invariant api json_exception (\<lambda>a w. live_client h a \<and> sent_since sent L Q w)"
proof
  fix a w h' url d k v
  assume a: "live_client h a \<and> sent_since sent L Q w"
  then have l: "live_client h a" and q: "sent_since sent L Q w" by simp_all
  note s = sends_simps [OF assms(1)]
  show "client a \<noteq> None" using a by simp
  show "live_client h a \<and> sent_since sent L Q (http_set_header api h' k v w)" if "client a = Some h'"
    using that a sent_since_cong [OF s(1) q] by simp
  show "live_client h a \<and> sent_since sent L Q (snd (get_time api w))" using a sent_since_cong [OF s(4) q] by simp
  show "safe json_exception (\<lambda>(_, a, w). live_client h a \<and> sent_since sent L Q w) (clearHTTPBuffer (a, w))"
    using a clear_ready [of a w] cleared_ready [of a] by (simp add: app_ready_def app_live_def)
  show "safe json_exception (\<lambda>(t, a', w'). a' = a \<and> w' = w \<and> length t \<le> 2147483642) (response_text (a, w))"
    using response_ready [of a w] length_response [of a] a by (auto simp: app_ready_def app_live_def)
  show "safe json_exception (\<lambda>(_, a, w). live_client h a \<and> sent_since sent L Q w) (performRequest api url METHOD_POST d (a, w))"
    by (rule performRequest_sends [OF assms(1) l, of url METHOD_POST d w])
      (auto simp: has_body_def assms(2) simp del: replicate.simps intro!: sent_since_replicate [OF q])
qed (simp_all add: app_ready_def)

section \<open>Deletions\<close>

text \<open>The request that deletes what is stored under \<open>path\<close>, with the token \<open>token\<close>.\<close>

definition delete_request :: "string \<Rightarrow> string \<Rightarrow> string \<Rightarrow> request" where
  "delete_request base path token = (cstr (base @ path @ ''.json?writeSizeLimit=unlimited&auth='' @ token), METHOD_DELETE, [])"

lemma delete_request_url: "delete_request base path (auth_token a) = (cstr (delete_url base path a), METHOD_DELETE, [])"
  by (simp add: delete_request_def delete_url_def)

definition token_request :: "request \<Rightarrow> bool" where "token_request r \<longleftrightarrow> fst (snd r) = METHOD_POST"

text \<open>The requests \<open>reqs\<close> delete exactly the \<open>paths\<close>; the others among them renew the token.\<close>

definition deletes_exactly :: "string \<Rightarrow> string set \<Rightarrow> request list \<Rightarrow> bool" where
  "deletes_exactly base paths reqs \<longleftrightarrow> (\<forall>p \<in> paths. \<exists>token. delete_request base p token \<in> set reqs) \<and>
     (\<forall>r \<in> set reqs. token_request r \<or> (\<exists>p \<in> paths. \<exists>token. r = delete_request base p token))"

lemma deletes_exactly_append:
  "deletes_exactly base P xs \<Longrightarrow> deletes_exactly base Q ys \<Longrightarrow> deletes_exactly base (P \<union> Q) (xs @ ys)"
  unfolding deletes_exactly_def by (metis Un_iff set_append)

definition deleted_since :: "('w \<Rightarrow> request list) \<Rightarrow> nat \<Rightarrow> string \<Rightarrow> string set \<Rightarrow> request list \<Rightarrow> FirebaseApp \<Rightarrow> 'w \<Rightarrow> bool" where
  "deleted_since sent h base paths L a w \<longleftrightarrow> live_client h a \<and> (\<exists>reqs. sent w = L @ reqs \<and> deletes_exactly base paths reqs)"

lemma delete_path_sent:
  assumes "sends api h req sent" "live_client h a"
  shows "safe json_exception (\<lambda>(_, b, v). deleted_since sent h base {path} (sent w) b v) (deleteData api base path (a, w))"
proof -
  let ?Q = "\<lambda>r. token_request r \<or> (\<exists>token. r = delete_request base path token)"
  let ?w = "http_set_header api h ''Accept'' ''application/json'' (http_set_header api h ''Content-Length'' ''0''
    (http_set_timeout_ms api h LONG_TIMEOUT_MS w))"
  note s = sends_simps [OF assms(1)]
  obtain ret b v k where p: "performRequest api (delete_url base path a) METHOD_DELETE [] (a, ?w) = Ok (ret, b, v)" "live_client h b"
    "sent v = sent w @ replicate (Suc k) (delete_request base path (auth_token a))"
    by (rule performRequest_sends [OF assms, of "delete_url base path a" METHOD_DELETE "[]" ?w])
      (simp only: s if_cancel delete_request_url)
  define L where "L = sent w @ replicate (Suc k) (delete_request base path (auth_token a))"
  define I where "I b v \<longleftrightarrow> live_client h b \<and> sent_since sent L ?Q v" for b v
  have t: "token_invariant api json_exception I"
    unfolding I_def [abs_def] using assms(1) by (rule token_operations_post) (simp add: token_request_def)
  have step: "safe json_exception P (bind m f)" if "safe json_exception (\<lambda>(_, b, v). I b v) m"
    "\<And>x b v. I b v \<Longrightarrow> safe json_exception P (f (x, b, v))" for P m f
    by (rule safe_bind [OF that(1)]) (use that(2) in auto)
  have request: "safe json_exception (\<lambda>(_, b, v). I b v) (performRequest api (delete_url base path b) METHOD_DELETE [] (c, v))"
    if "I c v" for b c v
  proof (rule performRequest_sends [OF assms(1) that [unfolded I_def, THEN conjunct1], of "delete_url base path b" METHOD_DELETE "[]" v])
    fix ret c' v' k
    assume r: "performRequest api (delete_url base path b) METHOD_DELETE [] (c, v) = Ok (ret, c', v')" "live_client h c'"
      "sent v' = sent v @ replicate (Suc k) (cstr (delete_url base path b), METHOD_DELETE, if has_body METHOD_DELETE then [] else [])"
    have "sent_since sent L ?Q v'"
      by (rule sent_since_replicate [OF that [unfolded I_def, THEN conjunct2] r(3)]) (auto simp: delete_request_def delete_url_def)
    with r(1,2) show ?thesis by (simp add: I_def)
  qed
  have last: "safe json_exception (\<lambda>(_, b, v). deleted_since sent h base {path} (sent w) b v)
      (bind (restoreDefaultHttpTimeout api (b, v)) (\<lambda>(_, s). bind (clearHTTPBuffer s) (\<lambda>(_, s). io_return x s)))"
    if "I b v" for b v x
  proof -
    from that obtain reqs where r: "sent v = L @ reqs" "\<forall>r \<in> set reqs. ?Q r" by (auto simp: I_def sent_since_def)
    then have "deletes_exactly base {path} (replicate (Suc k) (delete_request base path (auth_token a)) @ reqs)"
      by (auto simp: deletes_exactly_def)
    then show ?thesis using that r(1) cleared_ready [of b]
      by (auto simp: restoreDefaultHttpTimeout_def setHttpTimeoutMs_def with_client_def clear_ready app_ready_def app_live_def
        io_return_def deleted_since_def s L_def I_def)
  qed
  have "I b v" using p(2,3) by (auto simp: I_def sent_since_def L_def)
  then have "safe json_exception (\<lambda>(_, b, v). deleted_since sent h base {path} (sent w) b v)
    (bind (if \<not> is_2xx ret \<and> snd ret = 401 then
        bind (forceRefreshAuth api (b, v)) (\<lambda>(_, a, w). bind (delete_headers api (a, w)) (\<lambda>(_, s).
        performRequest api (delete_url base path a) METHOD_DELETE [] s))
      else io_return ret (b, v)) (\<lambda>(http_ret, s). bind (restoreDefaultHttpTimeout api s) (\<lambda>(_, s).
      bind (clearHTTPBuffer s) (\<lambda>(_, s). io_return (if is_2xx http_ret then ESP_OK else ESP_FAIL) s))))"
    by (intro step) (auto intro!: step last request token_invariant.kept_forceRefreshAuth [OF t]
      exchange_invariant.kept_delete_headers [OF token_invariant.axioms(1) [OF t]] exchange_invariant.kept_return [OF token_invariant.axioms(1) [OF t]])
  then show ?thesis using p(1) assms(2)
    by (simp add: deleteData_def setHttpTimeoutMs_def with_client_def delete_headers_def io_bind_def setHeader_def)
qed

lemma delete_each_sent:
  assumes "sends api h req sent"
  shows "live_client h a \<Longrightarrow> safe json_exception (\<lambda>(_, b, v).
    deleted_since sent h base ((\<lambda>day. cstr (root_path @ ''/'' @ day)) ` set days) (sent w) b v) (delete_each api base root_path days (a, w))"
proof (induction days arbitrary: a w)
  case Nil
  then show ?case by (simp add: io_return_def deleted_since_def deletes_exactly_def)
next
  case (Cons day days)
  let ?path = "\<lambda>day. cstr (root_path @ ''/'' @ day)"
  show ?case unfolding delete_each.simps
  proof (rule safe_bind [OF delete_path_sent [OF assms Cons.prems]], clarify)
    fix r b v assume "deleted_since sent h base {?path day} (sent w) b v"
    then obtain xs where x: "live_client h b" "sent v = sent w @ xs" "deletes_exactly base {?path day} xs"
      by (auto simp: deleted_since_def)
    show "safe json_exception (\<lambda>(_, b, v). deleted_since sent h base (?path ` set (day # days)) (sent w) b v)
      (delete_each api base root_path days (b, v))"
      by (rule safe_mono [OF Cons.IH [OF x(1)]])
        (use x(2) deletes_exactly_append [OF x(3)] in \<open>fastforce simp: deleted_since_def\<close>)
  qed
qed

lemma oldest_days_split:
  assumes "0 < max_days" "old = (if int (length days) \<le> max_days then [] else oldest_days max_days days)"
  shows "\<exists>kept. sort days = old @ kept \<and> length kept = min (length days) (nat max_days) \<and> (\<forall>d \<in> set old. \<forall>k \<in> set kept. d \<le> k)"
proof -
  define kept where "kept = drop (length old) (sort days)"
  have o: "old = take (nat (int (length days) - max_days)) (sort days)"
    using assms(1) by (auto simp: assms(2) oldest_days_def)
  have s: "sort days = old @ kept" by (simp add: o kept_def) (metis append_take_drop_id min_def take_all_iff length_sort nle_le)
  have "sorted (old @ kept)" using s by (metis sorted_sort)
  moreover have "length kept = min (length days) (nat max_days)"
    using assms(1) by (auto simp: kept_def o min_def)
  ultimately show ?thesis using s by (auto simp: sorted_append)
qed

text \<open>
  C30. When the request for the listing of the days is answered with an object, \<open>trimDays\<close> splits its member names, sorted, into
  the old ones and the last \<open>min count max_days\<close>; then it sends, over the same client, \<open>DELETE\<close> requests for the path \<open>root_path/day\<close> of
  every old day and for no other path, whatever the server answers to them. All other requests it sends are \<open>POST\<close>
  requests that renew the token. It returns \<open>ESP_OK\<close>, or an exception of the JSON library ends it during such a renewal.
\<close>

theorem trimDays_deletes_the_oldest:
  assumes "sends api h req sent" "app_ok a" "client_handler a" "client a = Some h" "0 < max_days"
    "replies api h (pending_request api h (shallow_url base root_path a) METHOD_GET [] (json_header api h w)) es w1"
    "parse_reply (reply_of es) = Ok obj" "isObject obj"
  shows "\<exists>days old kept. getMemberNames obj = Inr days \<and> sort days = old @ kept \<and>
    length kept = min (length days) (nat max_days) \<and> (\<forall>d \<in> set old. \<forall>k \<in> set kept. d \<le> k) \<and>
    safe json_exception (\<lambda>(ret, a', w'). ret = ESP_OK \<and> (\<exists>reqs.
        sent w' = sent w @ (cstr (base @ root_path @ ''.json?shallow=true&auth='' @ auth_token a), METHOD_GET, []) # reqs \<and>
        (\<forall>day \<in> set old. \<exists>token. delete_request base (cstr (root_path @ ''/'' @ day)) token \<in> set reqs) \<and>
        (\<forall>r \<in> set reqs. fst (snd r) = METHOD_POST \<or> (\<exists>day \<in> set old. \<exists>token. r = delete_request base (cstr (root_path @ ''/'' @ day)) token))))
      (trimDays api base root_path max_days (a, w))"
proof -
  let ?path = "\<lambda>day. cstr (root_path @ ''/'' @ day)" and ?a = "a\<lparr>recv_state := (replicate HTTP_RECV_BUFFER_SIZE NUL, 0)\<rparr>"
  let ?listing = "(cstr (shallow_url base root_path a), METHOD_GET, [])" and ?w = "http_close api h w1"
  obtain buf where p: "performRequest api (shallow_url base root_path a) METHOD_GET [] (a, json_header api h w) =
      Ok ((ESP_OK, 200), a\<lparr>recv_state := (buf, 0)\<rparr>, ?w)"
    "app_ready (a\<lparr>recv_state := (buf, 0)\<rparr>)" "cstr buf = reply_of es"
    using performRequest_once [OF assms(2-4,6)] by blast
  have r: "parse_response (a\<lparr>recv_state := (buf, 0)\<rparr>, ?w) = Ok (obj, a\<lparr>recv_state := (buf, 0)\<rparr>, ?w)"
    using assms(7) by (simp add: parse_response_once [OF p(2,3)])
  have c: "clearHTTPBuffer (a\<lparr>recv_state := (buf, 0)\<rparr>, ?w) = Ok ((), ?a, ?w)"
    using clear_ready [of "a\<lparr>recv_state := (buf, 0)\<rparr>" ?w] p(2) by (simp add: app_ready_def app_live_def)
  obtain days where d: "getMemberNames obj = Inr days"
    using assms(8) by (auto simp: getMemberNames_def json_assert_def isObject_def)
  define old where "old = (if int (length days) \<le> max_days then [] else oldest_days max_days days)"
  obtain kept where k: "sort days = old @ kept" "length kept = min (length days) (nat max_days)" "\<forall>d \<in> set old. \<forall>k \<in> set kept. d \<le> k"
    using oldest_days_split [OF assms(5) old_def] by blast
  have "trimDays api base root_path max_days (a, w) =
      bind (delete_each api base root_path old (?a, ?w)) (\<lambda>(_, a, w). Ok (ESP_OK, a, w))"
    unfolding trimDays_def content_json_def setHeader_def
    using assms(4,5,8) by (simp add: p(1) is_200_def r c d lift_def io_return_def old_def)
  moreover have "live_client h ?a" using assms(4) cleared_ready [of a] by simp
  note delete_each_sent [OF assms(1) this, of base root_path old ?w]
  moreover have "w1 = snd (http_perform api h (pending_request api h (shallow_url base root_path a) METHOD_GET [] (json_header api h w)))"
    using assms(6) by (simp add: replies_def)
  then have "sent ?w = sent w @ [?listing]" by (simp add: sends_simps [OF assms(1)] has_body_def)
  ultimately have "safe json_exception (\<lambda>(ret, a', w'). ret = ESP_OK \<and> (\<exists>reqs.
        sent w' = sent w @ ?listing # reqs \<and> (\<forall>day \<in> set old. \<exists>token. delete_request base (?path day) token \<in> set reqs) \<and>
        (\<forall>r \<in> set reqs. fst (snd r) = METHOD_POST \<or> (\<exists>day \<in> set old. \<exists>token. r = delete_request base (?path day) token))))
      (trimDays api base root_path max_days (a, w))"
    by (auto simp: deleted_since_def deletes_exactly_def token_request_def elim!: safe_bind)
  then show ?thesis using d k by (auto simp: shallow_url_def)
qed

section \<open>A concrete server\<close>

text \<open>The world is the pending request and the requests sent; a \<open>GET\<close> is answered with two days, any other request with \<open>null\<close>.\<close>

definition days_reply :: string where
  "days_reply = ''{'' @ dq @ ''25-01-02'' @ dq @ '':true,'' @ dq @ ''25-01-01'' @ dq @ '':true}''"

definition demo_days :: "(request \<times> request list) http_api" where
  "demo_days = \<lparr>http_client_init = \<lambda>u w. (Some 1, w), http_set_url = \<lambda>h u (r, l). ((u, snd r), l),
     http_set_method = \<lambda>h m (r, l). ((fst r, m, snd (snd r)), l), http_set_post_field = \<lambda>h d (r, l). ((fst r, fst (snd r), d), l),
     http_set_header = \<lambda>h k v w. w, http_set_timeout_ms = \<lambda>h t w. w,
     http_perform = \<lambda>h (r, l). ((ESP_OK, [ON_CONNECTED, ON_DATA (if fst (snd r) = METHOD_GET then days_reply else ''null''), ON_FINISH]), r, l @ [r]),
     http_get_status_code = \<lambda>h w. 200, http_close = \<lambda>h w. w, http_cleanup = \<lambda>h w. w, get_time = \<lambda>w. (1000, w)\<rparr>"

lemma demo_days_sends: "sends demo_days 1 fst snd"
  by (simp add: sends_def demo_days_def split_beta)

theorem trimDays_deletes_the_oldest_witness:
  "safe json_exception (\<lambda>(ret, a', w'). ret = ESP_OK \<and> (\<exists>token. delete_request ''https://db'' ''/root/25-01-01'' token \<in> set (snd w')))
     (trimDays demo_days ''https://db'' ''/root'' 1 (demo_app, ([], METHOD_POST, []), []))"
proof -
  have "case parse_reply days_reply of Ok v \<Rightarrow> isObject v \<and> getMemberNames v = Inr [''25-01-01'', ''25-01-02''] | _ \<Rightarrow> False"
    by code_simp
  then obtain v where v: "parse_reply days_reply = Ok v" "isObject v" "getMemberNames v = Inr [''25-01-01'', ''25-01-02'']"
    by (auto split: res.splits)
  have l: "length days_reply < HTTP_RECV_BUFFER_SIZE" "NUL \<notin> set days_reply" by (simp_all add: days_reply_def dq_def HTTP_RECV_BUFFER_SIZE_def)
  let ?w = "(([], METHOD_POST, []), []) :: request \<times> request list"
  let ?r = "pending_request demo_days 1 (shallow_url ''https://db'' ''/root'' demo_app) METHOD_GET [] (json_header demo_days 1 ?w)"
  have r: "replies demo_days 1 ?r [ON_DATA days_reply] (snd (http_perform demo_days 1 ?r))"
    by (simp add: replies_def demo_days_def mid_reply_def prepare_body_def has_body_def split_beta)
  obtain days old kept where t: "getMemberNames v = Inr days" "sort days = old @ kept" "length kept = min (length days) (nat 1)"
    "safe json_exception (\<lambda>(ret, a', w'). ret = ESP_OK \<and> (\<exists>reqs.
        snd w' = snd ?w @ (cstr (''https://db'' @ ''/root'' @ ''.json?shallow=true&auth='' @ auth_token demo_app), METHOD_GET, []) # reqs \<and>
        (\<forall>day \<in> set old. \<exists>token. delete_request ''https://db'' (cstr (''/root'' @ ''/'' @ day)) token \<in> set reqs) \<and>
        (\<forall>r \<in> set reqs. fst (snd r) = METHOD_POST \<or> (\<exists>day \<in> set old. \<exists>token. r = delete_request ''https://db'' (cstr (''/root'' @ ''/'' @ day)) token))))
      (trimDays demo_days ''https://db'' ''/root'' 1 (demo_app, ?w))"
    using trimDays_deletes_the_oldest [OF demo_days_sends demo_app_fields(1-3) zero_less_one r, unfolded reply_of_one [OF l], OF v(1,2)]
    by (elim exE conjE) (rule that)
  have s: "sort [''25-01-01'', ''25-01-02''] = [''25-01-01'', ''25-01-02'']" by code_simp
  have days: "days = [''25-01-01'', ''25-01-02'']" using t(1) v(3) by simp
  have "length kept = 1" using t(3) unfolding days by simp
  moreover have "old @ kept = [''25-01-01'', ''25-01-02'']" using t(2) s unfolding days by simp
  ultimately have "old = [''25-01-01'']" by (cases old; cases "tl old") auto
  then have d: "\<exists>token. delete_request ''https://db'' ''/root/25-01-01'' token \<in> set reqs"
    if "\<forall>day \<in> set old. \<exists>token. delete_request ''https://db'' (cstr (''/root'' @ ''/'' @ day)) token \<in> set reqs" for reqs
    using that by (simp add: cstr_def)
  show ?thesis by (rule safe_mono [OF t(4)]) (use d in fastforce)
qed

end
