(* ===== verification/Json_Text.thy ===== *)
theory Json_Text
  imports Json_Reader
begin

text \<open>
  What the scanner and the decoders of \<open>Json::Reader\<close> make of the texts the writer emits. A string of Unicode
  scalar values in UTF-8 is quoted by \<open>valueToQuotedStringN\<close> so that \<open>readString\<close> finds its end and
  \<open>decodeString\<close> gives it back; an optionally signed run of digits is decoded to its integer value exactly when the
  value fits the 64-bit types.
\<close>

unbundle bit_operations_syntax

section \<open>UTF-8\<close>

definition scalar :: "codepoint \<Rightarrow> bool" where
  "scalar cp \<longleftrightarrow> cp \<le> 0x10FFFF \<and> \<not> (0xD800 \<le> cp \<and> cp \<le> 0xDFFF)"

lemma char_byte_byte_char: "char_byte (byte_char w) = take_bit 8 w"
proof -
  have "w AND 0xFF = take_bit 8 w" by (simp add: take_bit_eq_mask mask_eq_exp_minus_1)
  moreover have "unat (take_bit 8 w) < 256" using take_bit_nat_less_exp [of 8 "unat w"] by (simp add: unsigned_take_bit_eq)
  ultimately show ?thesis by (simp add: char_byte_def byte_char_def)
qed

lemma word_masks:
  "0x1F AND w = take_bit 5 w" "0x3F AND w = take_bit 6 w" "0xF AND w = take_bit 4 w" "0x7 AND w = take_bit 3 w"
  "w AND 0x1F = take_bit 5 w" "w AND 0x3F = take_bit 6 w" "w AND 0xF = take_bit 4 w" "w AND 0x7 = take_bit 3 w"
  "w AND 0x3FF = take_bit 10 w" "w AND 0xFF = take_bit 8 w"
  for w :: u32
  by (simp_all add: take_bit_eq_mask mask_eq_exp_minus_1 and.commute)

lemma small_word: "unat w < 2 ^ n \<Longrightarrow> take_bit n w = w" for w :: u32
  by (simp add: word_unat_eq_iff unsigned_take_bit_eq take_bit_nat_eq_self)

lemma lead_byte:
  "take_bit 8 (0xC0 OR take_bit 5 w) = 0xC0 OR take_bit 5 w" "take_bit 5 (0xC0 OR take_bit 5 w) = take_bit 5 w"
  "take_bit 8 (0xE0 OR take_bit 4 w) = 0xE0 OR take_bit 4 w" "take_bit 4 (0xE0 OR take_bit 4 w) = take_bit 4 w"
  "take_bit 8 (0xF0 OR take_bit 3 w) = 0xF0 OR take_bit 3 w" "take_bit 3 (0xF0 OR take_bit 3 w) = take_bit 3 w"
  "take_bit 6 (take_bit 8 (0x80 OR take_bit 6 w)) = take_bit 6 w"
  for w :: u32
  by (simp_all add: take_bit_or)


lemma lead_byte_range:
  "\<not> 0xC0 OR take_bit 5 w < 0x80" "0xC0 OR take_bit 5 w < 0xE0"
  "\<not> 0xE0 OR take_bit 4 w < 0x80" "\<not> 0xE0 OR take_bit 4 w < 0xE0" "0xE0 OR take_bit 4 w < 0xF0"
  "\<not> 0xF0 OR take_bit 3 w < 0x80" "\<not> 0xF0 OR take_bit 3 w < 0xE0" "\<not> 0xF0 OR take_bit 3 w < 0xF0" "0xF0 OR take_bit 3 w < 0xF8"
  for w :: u32
proof -
  have a: "(0xC0 :: u32) OR take_bit 5 w = 0xC0 + take_bit 5 w" "(0xE0 :: u32) OR take_bit 4 w = 0xE0 + take_bit 4 w"
    "(0xF0 :: u32) OR take_bit 3 w = 0xF0 + take_bit 3 w"
    by (rule disjunctive_add_eq_or [symmetric], simp add: word_masks [symmetric] and.assoc [symmetric])+
  have b: "unat (take_bit n w) < 2 ^ n" for n by (simp add: unsigned_take_bit_eq)
  show "\<not> 0xC0 OR take_bit 5 w < 0x80" "0xC0 OR take_bit 5 w < 0xE0"
    "\<not> 0xE0 OR take_bit 4 w < 0x80" "\<not> 0xE0 OR take_bit 4 w < 0xE0" "0xE0 OR take_bit 4 w < 0xF0"
    "\<not> 0xF0 OR take_bit 3 w < 0x80" "\<not> 0xF0 OR take_bit 3 w < 0xE0" "\<not> 0xF0 OR take_bit 3 w < 0xF0" "0xF0 OR take_bit 3 w < 0xF8"
    using b [of 5] b [of 4] b [of 3] unfolding a word_less_nat_alt by (simp_all add: unat_plus_if')
qed

lemma join_bits: "push_bit m (take_bit k (drop_bit m w)) OR take_bit m w = take_bit (m + k) w" for w :: u32
  by (rule bit_word_eqI) (auto simp: bit_simps)

lemmas join_septets = join_bits [of 6 5, simplified] join_bits [of 6 6, simplified] join_bits [of 12 4, simplified]
  join_bits [of 12 6, simplified] join_bits [of 18 3, simplified]

lemma utf8_decode_encode:
  assumes "scalar cp"
  shows "codePointToUTF8 cp \<noteq> []" "utf8ToCodepoint (codePointToUTF8 cp @ rest) = (cp, length (codePointToUTF8 cp) - 1)"
proof -
  have le: "unat cp \<le> 0x10FFFF" using assms by (simp add: scalar_def word_le_nat_alt)
  then show "codePointToUTF8 cp \<noteq> []" by (simp add: codePointToUTF8_def word_le_nat_alt)
  note defs = codePointToUTF8_def utf8ToCodepoint_def cont_def Let_def char_byte_byte_char word_masks lead_byte lead_byte_range
    nth_append or.assoc [symmetric] 
  consider "cp \<le> 0x7F" | "\<not> cp \<le> 0x7F" "cp \<le> 0x7FF" | "\<not> cp \<le> 0x7FF" "cp \<le> 0xFFFF" | "\<not> cp \<le> 0xFFFF" by fastforce
  then show "utf8ToCodepoint (codePointToUTF8 cp @ rest) = (cp, length (codePointToUTF8 cp) - 1)"
  proof cases
    case 1
    then have "take_bit 8 cp = cp" "cp < 0x80" by (simp_all add: small_word word_le_nat_alt word_less_nat_alt)
    with 1 show ?thesis by (simp add: defs)
  next
    case 2
    then have "take_bit 11 cp = cp" "\<not> cp < 0x80" by (simp_all add: small_word word_le_nat_alt word_less_nat_alt)
    with 2 show ?thesis by (simp add: defs join_septets)
  next
    case 3
    then have "take_bit 16 cp = cp" "\<not> cp < 0x800" "\<not> cp \<le> 0x7F" by (simp_all add: small_word word_le_nat_alt word_less_nat_alt)
    with 3 assms show ?thesis by (auto simp add: defs join_septets or.assoc scalar_def)
  next
    case 4
    then have "take_bit 21 cp = cp" "\<not> cp < 0x10000" "\<not> cp \<le> 0x7F" "\<not> cp \<le> 0x7FF"
      using le by (simp_all add: small_word word_le_nat_alt word_less_nat_alt)
    with 4 assms show ?thesis by (simp add: defs join_septets or.assoc scalar_def)
  qed
qed

section \<open>Quoted strings\<close>

definition special_escape :: "codepoint \<Rightarrow> char option" where
  "special_escape cp =
    (if cp = 0x22 then Some dquote else if cp = 0x5C then Some bslash else if cp = 8 then Some (CHR ''b'')
     else if cp = 0xC then Some (CHR ''f'') else if cp = 0xA then Some (CHR ''n'') else if cp = 0xD then Some (CHR ''r'')
     else if cp = 9 then Some (CHR ''t'') else None)"

definition quoted_cp :: "codepoint \<Rightarrow> string" where
  "quoted_cp cp = (case special_escape cp of Some c \<Rightarrow> [bslash, c] | None \<Rightarrow> escape_codepoint [] cp)"

lemma escape_codepoint_append: "escape_codepoint r cp = r @ escape_codepoint [] cp"
  by (simp add: escape_codepoint_def appendHex_def appendRaw_def Let_def)

lemma special_utf8:
  "codePointToUTF8 0x22 = [dquote]" "codePointToUTF8 0x5C = [bslash]" "codePointToUTF8 8 = [CHR 0x08]" "codePointToUTF8 0xC = [CHR 0x0C]"
  "codePointToUTF8 0xA = [CHR 0x0A]" "codePointToUTF8 0xD = [CHR 0x0D]" "codePointToUTF8 9 = [CHR 0x09]"
  by code_simp+

lemma special_bytes:
  "char_byte dquote = 0x22" "char_byte bslash = 0x5C" "char_byte (CHR 0x08) = 8" "char_byte (CHR 0x0C) = 0xC"
  "char_byte (CHR 0x0A) = 0xA" "char_byte (CHR 0x0D) = 0xD" "char_byte (CHR 0x09) = 9"
  by code_simp+

lemma escape_loop_cp:
  assumes "scalar cp"
  shows "escape_loop False (codePointToUTF8 cp @ rest) r = escape_loop False rest (r @ quoted_cp cp)"
proof -
  obtain c t where ct: "codePointToUTF8 cp = c # t" using utf8_decode_encode(1) [OF assms] by (cases "codePointToUTF8 cp") auto
  have u: "utf8ToCodepoint (c # t @ rest) = (cp, length t)" using utf8_decode_encode(2) [OF assms, of rest] by (simp add: ct)
  have a: "cp = char_byte c \<and> t = []" if "char_byte c < 0x80" using u that by (simp add: utf8ToCodepoint_def)
  show ?thesis
  proof (cases "c \<in> {dquote, bslash, CHR 0x08, CHR 0x0C, CHR 0x0A, CHR 0x0D, CHR 0x09}")
    case True
    then have "char_byte c < 0x80" by (auto simp: special_bytes)
    from a [OF this] True show ?thesis unfolding ct
      by (auto simp: quoted_cp_def special_escape_def special_bytes)
  next
    case False
    then have "special_escape cp = None" using ct special_utf8 by (auto simp: special_escape_def)
    with False u show ?thesis unfolding ct by (simp add: quoted_cp_def escape_codepoint_append [of r])
  qed
qed

lemma escape_loop_text:
  "\<forall>cp \<in> set cps. scalar cp \<Longrightarrow> escape_loop False (concat (map codePointToUTF8 cps)) r = r @ concat (map quoted_cp cps)"
  by (induction cps arbitrary: r) (simp_all add: escape_loop_cp)

lemma hex_value_digit: "n < 16 \<Longrightarrow> hex_value (hex_digit n) = Some n"
proof -
  have "\<forall>n \<in> set [0..<16]. hex_value (hex_digit n) = Some n" by code_simp
  then show "n < 16 \<Longrightarrow> hex_value (hex_digit n) = Some n" by simp
qed

lemma hex_digit_plain: "n < 16 \<Longrightarrow> hex_digit n \<noteq> bslash \<and> hex_digit n \<noteq> dquote"
proof -
  have "\<forall>n \<in> set [0..<16]. hex_digit n \<noteq> bslash \<and> hex_digit n \<noteq> dquote" by code_simp
  then show "n < 16 \<Longrightarrow> hex_digit n \<noteq> bslash \<and> hex_digit n \<noteq> dquote" by simp
qed

lemma toHex16Bit_digits:
  assumes "unat x < 65536"
  shows "toHex16Bit x = [hex_digit (unat x div 4096), hex_digit (unat x div 256 mod 16), hex_digit (unat x div 16 mod 16), hex_digit (unat x mod 16)]"
proof -
  have "unat (drop_bit 8 x AND 0xFF) = unat x div 256" "unat (x AND 0xFF) = unat x mod 256"
    using assms by (simp_all only: word_masks unsigned_take_bit_eq unsigned_drop_bit_eq take_bit_eq_mod [of _ "n :: nat" for n] drop_bit_eq_div [of _ "n :: nat" for n]) simp_all
  moreover have "unat x mod 256 div 16 = unat x div 16 mod 16" "unat x mod 256 mod 16 = unat x mod 16" "unat x div 256 div 16 = unat x div 4096"
    by (simp_all add: mod_mult2_eq [of _ 16 16, simplified] div_mult2_eq [of _ 256 16, simplified] mod_mod_cancel)
  ultimately show ?thesis by (simp add: toHex16Bit_def Let_def hex2_def)
qed

lemma decode_hex16:
  assumes "unat x < 65536"
  shows "decodeUnicodeEscapeSequence (toHex16Bit x @ rest) = Inr (x, rest)"
proof -
  have four: "unicode_digits 4 = unicode_digits (Suc (Suc (Suc (Suc 0))))" by (simp add: eval_nat_numeral)
  have "unat x div 4096 < 16" using assms by simp
  then have "unicode_digits 4 0 (toHex16Bit x @ rest) =
      Inr (((unat x div 4096 * 16 + unat x div 256 mod 16) * 16 + unat x div 16 mod 16) * 16 + unat x mod 16, rest)"
    unfolding four toHex16Bit_digits [OF assms] by (simp add: hex_value_digit)
  moreover have "((unat x div 4096 * 16 + unat x div 256 mod 16) * 16 + unat x div 16 mod 16) * 16 + unat x mod 16 = unat x"
  proof -
    have "unat x div 256 = unat x div 16 div 16" "unat x div 4096 = unat x div 16 div 16 div 16"
      by (simp_all add: div_mult2_eq [symmetric])
    then show ?thesis by (simp only: div_mult_mod_eq)
  qed
  ultimately show ?thesis using toHex16Bit_digits [OF assms] by (simp add: decodeUnicodeEscapeSequence_def)
qed

lemma escape_cp_cases:
  assumes "scalar cp" "special_escape cp = None"
  obtains (hex) "escape_codepoint [] cp = [bslash, CHR ''u''] @ toHex16Bit cp" "unat cp < 65536"
  | (raw) "escape_codepoint [] cp = [byte_char cp]" "0x20 \<le> cp" "cp < 0x80"
  | (pair) hi lo where "escape_codepoint [] cp = [bslash, CHR ''u''] @ toHex16Bit hi @ [bslash, CHR ''u''] @ toHex16Bit lo"
      "0xD800 \<le> unat hi" "unat hi \<le> 0xDBFF" "unat lo < 65536" "cp = 0x10000 + push_bit 10 (hi AND 0x3FF) + (lo AND 0x3FF)"
proof -
  consider "cp < 0x20" | "0x20 \<le> cp" "cp < 0x80" | "0x80 \<le> cp" "cp < 0x10000" | "0x10000 \<le> cp" by fastforce
  then show thesis
  proof cases
    case 1
    then show thesis by (intro hex) (simp_all add: escape_codepoint_def appendHex_def word_less_nat_alt)
  next
    case 2
    then show thesis by (intro raw) (simp_all add: escape_codepoint_def appendRaw_def word_less_nat_alt word_le_nat_alt)
  next
    case 3
    then show thesis by (intro hex) (simp_all add: escape_codepoint_def appendHex_def word_less_nat_alt word_le_nat_alt)
  next
    case 4
    let ?c = "cp - 0x10000"
    have le: "0x10000 \<le> unat cp" "unat cp \<le> 0x10FFFF" using 4 assms(1) by (simp_all add: scalar_def word_le_nat_alt)
    then have c: "unat ?c = unat cp - 0x10000" using 4 by (simp add: unat_sub)
    let ?hi = "0xD800 + take_bit 10 (drop_bit 10 ?c)" and ?lo = "0xDC00 + take_bit 10 ?c"
    have t: "unat (take_bit 10 w) < 1024" for w :: u32
      using take_bit_nat_less_exp [of 10 "unat w"] by (simp add: unsigned_take_bit_eq)
    have hi: "unat ?hi = 0xD800 + unat (take_bit 10 (drop_bit 10 ?c))" and lo: "unat ?lo = 0xDC00 + unat (take_bit 10 ?c)"
      using t [of "drop_bit 10 ?c"] t [of ?c] by (subst unat_plus_if'; simp)+
    have m: "take_bit 10 (0xD800 + take_bit 10 w) = take_bit 10 w" "take_bit 10 (0xDC00 + take_bit 10 w) = take_bit 10 w" for w :: u32
    proof -
      have "(0xD800 :: u32) + take_bit 10 w = 0xD800 OR take_bit 10 w" "(0xDC00 :: u32) + take_bit 10 w = 0xDC00 OR take_bit 10 w"
        by (rule disjunctive_add_eq_or, simp add: word_masks [symmetric] and.assoc [symmetric] and.commute [of w])+
      then show "take_bit 10 (0xD800 + take_bit 10 w) = take_bit 10 w" "take_bit 10 (0xDC00 + take_bit 10 w) = take_bit 10 w"
        by (simp_all add: take_bit_or)
    qed
    have j: "push_bit 10 (take_bit 10 (drop_bit 10 ?c)) + take_bit 10 ?c = ?c"
    proof -
      have "push_bit 10 (take_bit 10 (drop_bit 10 ?c)) AND take_bit 10 ?c = 0" by (rule bit_word_eqI) (auto simp: bit_simps)
      then have "push_bit 10 (take_bit 10 (drop_bit 10 ?c)) + take_bit 10 ?c = take_bit 20 ?c"
        by (simp only: disjunctive_add_eq_or join_bits) simp
      also have "\<dots> = ?c" using c le by (intro small_word) simp
      finally show ?thesis .
    qed
    show thesis
    proof (rule pair)
      show "escape_codepoint [] cp = [bslash, CHR ''u''] @ toHex16Bit ?hi @ [bslash, CHR ''u''] @ toHex16Bit ?lo"
        using 4 le by (simp add: escape_codepoint_def appendHex_def word_less_nat_alt word_le_nat_alt Let_def word_masks)
      show "0xD800 \<le> unat ?hi" "unat ?hi \<le> 0xDBFF" "unat ?lo < 65536"
        using hi lo t [of "drop_bit 10 ?c"] t [of ?c] by simp_all
      show "cp = 0x10000 + push_bit 10 (?hi AND 0x3FF) + (?lo AND 0x3FF)"
        unfolding word_masks m using j by (simp add: algebra_simps)
    qed
  qed
qed

lemma decode_special: "special_escape cp = Some c \<Longrightarrow> simple_escape c = Some (hd (codePointToUTF8 cp)) \<and> codePointToUTF8 cp = [hd (codePointToUTF8 cp)]"
  by (auto simp: special_escape_def special_utf8 simple_escape_def split: if_splits)

lemma decode_chars_u:
  "decodeUnicodeCodePoint cs = Inr (u, rest) \<Longrightarrow> decode_chars (bslash # CHR ''u'' # cs) d = decode_chars rest (d @ codePointToUTF8 u)"
  by (simp add: decode_chars.simps(2) simple_escape_def)

lemma decode_quoted_cp:
  assumes "scalar cp"
  shows "decode_chars (quoted_cp cp @ rest) d = decode_chars rest (d @ codePointToUTF8 cp)"
proof (cases "special_escape cp")
  case (Some c)
  from decode_special [OF Some] obtain y where "simple_escape c = Some y" "codePointToUTF8 cp = [y]" by blast
  then have "decode_chars (bslash # c # rest) d = decode_chars rest (d @ codePointToUTF8 cp)"
    by (simp add: decode_chars.simps(2))
  with Some show ?thesis by (simp add: quoted_cp_def)
next
  case None
  from assms None show ?thesis
  proof (cases rule: escape_cp_cases)
    case hex
    have "\<not> (cp \<ge> 0xD800 \<and> cp \<le> 0xDBFF)" using assms unfolding scalar_def by (auto simp: word_le_nat_alt)
    with decode_hex16 [OF hex(2), of rest] have "decodeUnicodeCodePoint (toHex16Bit cp @ rest) = Inr (cp, rest)"
      by (simp only: decodeUnicodeCodePoint_def sum.case prod.case if_False)
    from decode_chars_u [OF this] show ?thesis using None hex(1) by (simp add: quoted_cp_def)
  next
    case raw
    have c: "codePointToUTF8 cp = [byte_char cp]" using raw by (simp add: codePointToUTF8_def word_less_nat_alt word_le_nat_alt)
    have "byte_char cp \<noteq> dquote" "byte_char cp \<noteq> bslash"
    proof -
      have "take_bit 8 cp = cp" using raw by (intro small_word) (simp add: word_less_nat_alt)
      then have "char_byte (byte_char cp) = cp" by (simp add: char_byte_byte_char)
      with None special_bytes show "byte_char cp \<noteq> dquote" "byte_char cp \<noteq> bslash" by (auto simp: special_escape_def)
    qed
    then show ?thesis using None raw(1) c by (simp add: quoted_cp_def decode_chars.simps(2))
  next
    case (pair hi lo)
    have h: "0xD800 \<le> hi" "hi \<le> 0xDBFF" using pair by (simp_all add: word_le_nat_alt)
    have "decodeUnicodeCodePoint (toHex16Bit hi @ [bslash, CHR ''u''] @ toHex16Bit lo @ rest) = Inr (cp, rest)"
      using decode_hex16 [of hi "[bslash, CHR ''u''] @ toHex16Bit lo @ rest"] decode_hex16 [OF pair(4), of rest] pair(3) h
        toHex16Bit_digits [OF pair(4)] pair(5)
      by (simp add: decodeUnicodeCodePoint_def)
    from decode_chars_u [OF this] show ?thesis using None pair(1) by (simp add: quoted_cp_def)
  qed
qed

lemma decode_quoted_text:
  "\<forall>cp \<in> set cps. scalar cp \<Longrightarrow> decode_chars (concat (map quoted_cp cps)) d = Inr (d @ concat (map codePointToUTF8 cps))"
  by (induction cps arbitrary: d) (simp_all add: decode_quoted_cp decode_chars.simps(1))

lemma scan_hex16: "unat x < 65536 \<Longrightarrow> string_scan (bslash # CHR ''u'' # toHex16Bit x @ rest) = string_scan rest"
  by (simp add: toHex16Bit_digits hex_digit_plain)

lemma scan_quoted_cp:
  assumes "scalar cp"
  shows "string_scan (quoted_cp cp @ rest) = string_scan rest"
proof (cases "special_escape cp")
  case (Some c)
  then show ?thesis by (simp add: quoted_cp_def)
next
  case None
  from assms None show ?thesis
  proof (cases rule: escape_cp_cases)
    case hex
    with None scan_hex16 [of cp rest] show ?thesis by (simp add: quoted_cp_def del: string_scan.simps)
  next
    case raw
    have "take_bit 8 cp = cp" using raw by (intro small_word) (simp add: word_less_nat_alt)
    then have "char_byte (byte_char cp) = cp" by (simp add: char_byte_byte_char)
    with None special_bytes have "byte_char cp \<noteq> dquote" "byte_char cp \<noteq> bslash" by (auto simp: special_escape_def)
    then show ?thesis using None raw(1) by (simp add: quoted_cp_def)
  next
    case (pair hi lo)
    have "unat hi < 65536" using pair(3) by simp
    with None pair(1) scan_hex16 [of hi "[bslash, CHR ''u''] @ toHex16Bit lo @ rest"] scan_hex16 [OF pair(4), of rest]
    show ?thesis by (simp add: quoted_cp_def del: string_scan.simps)
  qed
qed

lemma scan_quoted_text:
  "\<forall>cp \<in> set cps. scalar cp \<Longrightarrow> string_scan (concat (map quoted_cp cps) @ rest) = string_scan rest"
  by (induction cps) (simp_all add: scan_quoted_cp)

definition utf8 :: "string \<Rightarrow> bool" where
  "utf8 s \<longleftrightarrow> (\<exists>cps. (\<forall>cp \<in> set cps. scalar cp) \<and> s = concat (map codePointToUTF8 cps))"

lemma plain_chars:
  assumes "\<forall>c \<in> set s. c \<noteq> bslash \<and> c \<noteq> dquote"
  shows "decode_chars s d = Inr (d @ s)" "string_scan (s @ rest) = string_scan rest"
  using assms by (induction s arbitrary: d) (simp_all add: decode_chars.simps)

lemma quoted_string_decodes:
  assumes "utf8 s"
  obtains body where "valueToQuotedStringN s False = [dquote] @ body @ [dquote]" "decode_chars body [] = Inr s"
    "\<And>rest. string_scan (body @ dquote # rest) = (True, rest)"
proof (cases "doesAnyCharRequireEscaping s")
  case False
  then have "\<forall>c \<in> set s. c \<noteq> bslash \<and> c \<noteq> dquote" by (auto simp: doesAnyCharRequireEscaping_def)
  with False that [of s] show thesis by (simp add: valueToQuotedStringN_def plain_chars)
next
  case True
  obtain cps where cps: "\<forall>cp \<in> set cps. scalar cp" "s = concat (map codePointToUTF8 cps)" using assms unfolding utf8_def by blast
  have "valueToQuotedStringN s False = [dquote] @ concat (map quoted_cp cps) @ [dquote]"
    using True by (simp add: valueToQuotedStringN_def cps(2) escape_loop_text [OF cps(1)])
  from that [OF this] show thesis using decode_quoted_text [OF cps(1)] scan_quoted_text [OF cps(1)] cps(2) by simp
qed

text \<open>With \<open>emitUTF8\<close> the bytes above 127 are copied, whatever they mean.\<close>

definition quoted_char :: "char \<Rightarrow> string" where
  "quoted_char c = (if char_byte c < 0x80 then quoted_cp (char_byte c) else [c])"

lemma unat_char_byte: "unat (char_byte c) = of_char c"
  by (simp add: char_byte_def unsigned_of_nat take_bit_nat_eq_self_iff less_trans [OF nat_of_char_less_256])

lemma byte_char_char_byte [simp]: "byte_char (char_byte c) = c"
proof -
  have "take_bit 8 (char_byte c) = char_byte c"
    by (rule small_word) (simp add: unat_char_byte less_le_trans [OF nat_of_char_less_256])
  then show ?thesis by (simp add: byte_char_def word_masks unat_char_byte)
qed

lemma char_byte_inj: "char_byte c = char_byte d \<longleftrightarrow> c = d"
  by (metis byte_char_char_byte)

lemma escape_loop_raw: "escape_loop True (c # cs) r = escape_loop True cs (r @ quoted_char c)"
proof (cases "c \<in> {dquote, bslash, CHR 0x08, CHR 0x0C, CHR 0x0A, CHR 0x0D, CHR 0x09}")
  case True
  then show ?thesis by (auto simp: quoted_char_def quoted_cp_def special_escape_def special_bytes)
next
  case False
  then have "special_escape (char_byte c) = None"
    by (auto simp: special_escape_def special_bytes [symmetric] char_byte_inj simp del: special_bytes)
  with False show ?thesis
    by (auto simp: quoted_char_def quoted_cp_def escape_codepoint_def appendHex_def appendRaw_def word_less_nat_alt)
qed


lemma escape_loop_bytes: "escape_loop True s r = r @ concat (map quoted_char s)"
  by (induction s arbitrary: r) (simp_all only: escape_loop_raw escape_loop.simps(1) list.map concat.simps append_Nil2 append_assoc)

lemma ascii_byte:
  assumes "char_byte c < 0x80"
  shows "scalar (char_byte c)" "codePointToUTF8 (char_byte c) = [c]"
  using assms by (simp_all add: scalar_def codePointToUTF8_def word_less_nat_alt word_le_nat_alt)

lemma quoted_char_decodes:
  "decode_chars (quoted_char c @ rest) d = decode_chars rest (d @ [c])" "string_scan (quoted_char c @ rest) = string_scan rest"
proof -
  have "c \<noteq> dquote \<and> c \<noteq> bslash" if "\<not> char_byte c < 0x80" using that by (auto simp: special_bytes)
  then show "decode_chars (quoted_char c @ rest) d = decode_chars rest (d @ [c])" "string_scan (quoted_char c @ rest) = string_scan rest"
    using decode_quoted_cp [OF ascii_byte(1)] scan_quoted_cp [OF ascii_byte(1)] ascii_byte(2)
    by (simp_all add: quoted_char_def decode_chars.simps(2))
qed

lemma quoted_bytes_decode:
  "decode_chars (concat (map quoted_char s)) d = Inr (d @ s)" "string_scan (concat (map quoted_char s) @ rest) = string_scan rest"
  by (induction s arbitrary: d) (simp_all add: quoted_char_decodes decode_chars.simps(1))

lemma utf8_ascii:
  assumes "\<forall>c \<in> set s. of_char c < (0x80 :: nat)"
  shows "utf8 s"
proof -
  have "\<forall>c \<in> set s. char_byte c < 0x80" using assms by (simp add: word_less_nat_alt unat_char_byte)
  then have "s = concat (map codePointToUTF8 (map char_byte s))" "\<forall>cp \<in> set (map char_byte s). scalar cp"
    by (induction s) (auto simp: ascii_byte)
  then show ?thesis unfolding utf8_def by blast
qed

section \<open>Quoted texts are printable\<close>

text \<open>Whatever the string, its quoted form consists of printable ASCII characters.\<close>

definition printable :: "char \<Rightarrow> bool" where
  "printable c \<longleftrightarrow> 0x20 \<le> (of_char c :: nat) \<and> (of_char c :: nat) < 0x80"

lemma printable_Char [simp]: "printable (Char b0 b1 b2 b3 b4 b5 b6 b7) \<longleftrightarrow> \<not> b7 \<and> (b5 \<or> b6)"
  by (cases b0; cases b1; cases b2; cases b3; cases b4; cases b5; cases b6; cases b7) (simp_all add: printable_def)

lemma printable_hex_digit: "n < 16 \<Longrightarrow> printable (hex_digit n)"
proof -
  have "\<forall>n \<in> set [0..<16]. printable (hex_digit n)" by code_simp
  then show "n < 16 \<Longrightarrow> printable (hex_digit n)" by simp
qed

lemma printable_hex: "list_all printable (toHex16Bit x)"
proof -
  have b: "unat (w AND 0xFF) < 256" for w :: u32
    using take_bit_nat_less_exp [of 8 "unat w"] by (simp add: word_masks unsigned_take_bit_eq)
  have "printable (hex2 (2 * n)) \<and> printable (hex2 (2 * n + 1))" if "n < 256" for n
    using that by (simp add: hex2_def printable_hex_digit less_mult_imp_div_less)
  with b [of "drop_bit 8 x"] b [of x] show ?thesis unfolding toHex16Bit_def Let_def by simp
qed

lemma printable_raw: "0x20 \<le> cp \<Longrightarrow> cp < 0x80 \<Longrightarrow> printable (byte_char cp)"
proof -
  assume "0x20 \<le> cp" "cp < 0x80"
  then have u: "0x20 \<le> unat cp" "unat cp < 0x80" by (simp_all add: word_le_nat_alt word_less_nat_alt)
  then have "take_bit 8 cp = cp" by (intro small_word) simp
  then show ?thesis using u by (simp add: printable_def byte_char_def word_masks)
qed

lemma printable_escape: "list_all printable r \<Longrightarrow> list_all printable (escape_codepoint r cp)"
  using printable_hex printable_raw [of cp]
  by (simp add: escape_codepoint_def appendHex_def appendRaw_def Let_def printable_def not_less)

lemma printable_escape_loop: "list_all printable r \<Longrightarrow> list_all printable (escape_loop False s r)"
proof (induction "False" s r rule: escape_loop.induct)
  case (2 c cs r)
  have "printable x" if "x \<in> {dquote, bslash, CHR ''b'', CHR ''f'', CHR ''n'', CHR ''r'', CHR ''t''}" for x
    using that by (auto simp: printable_def)
  then have "list_all printable (r @ [bslash, x])" if "x \<in> {dquote, bslash, CHR ''b'', CHR ''f'', CHR ''n'', CHR ''r'', CHR ''t''}" for x
    using that "2.prems" by auto
  with 2 printable_escape show ?case by (auto simp: Let_def split: prod.split)
qed simp

lemma printable_quoted: "list_all printable (valueToQuotedStringN s False)"
proof (cases "doesAnyCharRequireEscaping s")
  case False
  have "printable c" if "c \<in> set s" for c
  proof -
    have u: "unat (char_byte c) = of_char c"
      by (simp add: char_byte_def unsigned_of_nat take_bit_nat_eq_self_iff less_trans [OF nat_of_char_less_256])
    have "\<not> char_byte c < 0x20" "\<not> char_byte c > 0x7F" using False that by (auto simp: doesAnyCharRequireEscaping_def)
    then show ?thesis by (simp add: printable_def word_less_nat_alt u)
  qed
  with False show ?thesis by (simp add: valueToQuotedStringN_def list_all_iff printable_def)
qed (use printable_escape_loop [of "[dquote]"] in \<open>simp add: valueToQuotedStringN_def printable_def\<close>)

section \<open>Integers\<close>

lemma undec_Nil [simp]: "undec [] = 0"
  by (simp add: undec_def)

lemma undec_Cons: "undec (c # ds) = digit_val c * 10 ^ length ds + undec ds"
proof (induction ds rule: rev_induct)
  case Nil
  show ?case using undec_snoc [of "[]" c] by simp
next
  case (snoc d ds)
  have "undec (c # ds @ [d]) = undec (c # ds) * 10 + digit_val d" using undec_snoc [of "c # ds" d] by simp
  with snoc show ?case by (simp add: undec_snoc algebra_simps)
qed

lemma digit_val_bound: "is_digit c \<Longrightarrow> digit_val c < 10"
  unfolding is_digit_def digit_val_def less_eq_char_def by auto

lemma decode_digits_exact:
  assumes "list_all is_digit ds" "unat v \<le> unat M" "100 \<le> unat M"
  shows "decode_digits M (M div 10) v ds =
    (if unat v * 10 ^ length ds + undec ds \<le> unat M then Some (word_of_nat (unat v * 10 ^ length ds + undec ds)) else None)"
  using assms(1,2)
proof (induction ds arbitrary: v)
  case Nil
  then show ?case by simp
next
  case (Cons c ds)
  let ?T = "unat M div 10" and ?d = "digit_val c"
  have d: "is_digit c" "?d < 10" using Cons.prems(1) digit_val_bound by auto
  have T: "unat (M div 10) = ?T" "unat (M mod 10) = unat M mod 10" by (simp_all only: unat_div10 unat_mod10)
  have ud: "unat (word_of_nat ?d :: u64) = ?d" using d(2) by (simp add: unsigned_of_nat take_bit_nat_eq_self)
  have M: "unat M = 10 * ?T + unat M mod 10" "unat M mod 10 < 10" by simp_all
  define stop where "stop \<longleftrightarrow> unat v \<ge> ?T \<and> (unat v > ?T \<or> ds \<noteq> [] \<or> ?d > unat M mod 10)"
  have step: "decode_digits M (M div 10) v (c # ds) = (if stop then None else decode_digits M (M div 10) (v * 10 + word_of_nat ?d) ds)"
    by (simp add: d stop_def Let_def word_le_nat_alt word_less_nat_alt T ud)
  have val: "unat v * 10 ^ length (c # ds) + undec (c # ds) = (unat v * 10 + ?d) * 10 ^ length ds + undec ds"
    by (simp add: undec_Cons algebra_simps)
  show ?case
  proof (cases stop)
    case True
    have p: "1 \<le> (10 :: nat) ^ length ds" by simp
    have "unat M < (unat v * 10 + ?d) * 10 ^ length ds"
    proof (cases "unat v > ?T \<or> ds = []")
      case True
      with \<open>stop\<close> have "?T \<le> unat v" "?T < unat v \<or> unat M mod 10 < ?d" by (auto simp: stop_def)
      then have "unat M < unat v * 10 + ?d" using M by linarith
      also have "\<dots> \<le> (unat v * 10 + ?d) * 10 ^ length ds" using mult_le_mono2 [OF p] by simp
      finally show ?thesis .
    next
      case False
      then have v: "unat v = ?T" "1 \<le> length ds" using \<open>stop\<close> by (cases ds; simp add: stop_def)+
      then have "(10 :: nat) ^ 1 \<le> 10 ^ length ds" by (intro power_increasing) simp_all
      then have "(unat v * 10 + ?d) * 10 \<le> (unat v * 10 + ?d) * 10 ^ length ds" by (intro mult_le_mono2) simp
      have "unat M < unat v * 10 * 10" using M assms(3) v(1) by linarith
      also have "\<dots> \<le> (unat v * 10 + ?d) * 10" by simp
      also have "\<dots> \<le> (unat v * 10 + ?d) * 10 ^ length ds" by fact
      finally show ?thesis .
    qed
    then have "unat M < unat v * 10 ^ length (c # ds) + undec (c # ds)" unfolding val by linarith
    with True step show ?thesis by simp
  next
    case False
    then have "unat v < ?T \<or> unat v = ?T \<and> ?d \<le> unat M mod 10" by (auto simp: stop_def not_le)
    then have le: "unat v * 10 + ?d \<le> unat M" using M d(2) by linarith
    then have "unat (v * 10 + word_of_nat ?d) = unat v * 10 + ?d"
      using u64_bound [of M] by (simp add: unat_word_ariths ud)
    with Cons.IH [of "v * 10 + word_of_nat ?d"] Cons.prems(1) le False step val show ?thesis by simp
  qed
qed

definition integer_value :: "int \<Rightarrow> Payload" where
  "integer_value i = (if i \<le> 2147483647 then PInt (word_of_int i) else PUInt (word_of_int i))"

text \<open>A text of digits with an optional minus sign.\<close>

definition signed_value :: "bool \<Rightarrow> string \<Rightarrow> int" where
  "signed_value neg ds = (if neg then - int (undec ds) else int (undec ds))"

lemma decode_integer_exact:
  assumes "list_all is_digit ds"
  shows "decode_integer ((if neg then ''-'' else []) @ ds) =
    (if - (2 ^ 63) \<le> signed_value neg ds \<and> signed_value neg ds < 2 ^ 64 then Some (initBasic (integer_value (signed_value neg ds))) else None)"
proof (cases neg)
  case True
  let ?M = "maxLargestInt + 1"
  have M: "unat ?M = 2 ^ 63" by (simp add: maxLargestInt_def)
  have d: "decode_digits ?M (?M div 10) 0 ds = (if undec ds \<le> 2 ^ 63 then Some (word_of_nat (undec ds)) else None)"
    using decode_digits_exact [OF assms, of 0 ?M] M by simp
  have "Value_of_Int64 (- word_of_nat (undec ds)) = initBasic (integer_value (- int (undec ds)))"
    by (simp add: Value_of_Int64_def integer_value_def)
  moreover have "- ?M = minLargestInt" unfolding minLargestInt_def maxLargestInt_def by (simp add: eq_neg_iff_add_eq_0)
  ultimately show ?thesis using True d
    by (auto simp: decode_integer_def Let_def signed_value_def)
next
  case False
  have h: "\<not> (ds \<noteq> [] \<and> hd ds = CHR ''-'')" using assms by (cases ds) (auto simp: is_digit_def less_eq_char_def)
  have M: "unat maxLargestUInt = 2 ^ 64 - 1" by (simp add: maxLargestUInt_def)
  have d: "decode_digits maxLargestUInt (maxLargestUInt div 10) 0 ds = (if undec ds < 2 ^ 64 then Some (word_of_nat (undec ds)) else None)"
    using decode_digits_exact [OF assms, of 0 maxLargestUInt] M by (simp add: less_eq_Suc_le)
  have "(word_of_nat n :: u64) \<le> 0x7FFFFFFF \<longleftrightarrow> n \<le> 2147483647" if "n < 2 ^ 64" for n
    using that by (simp add: word_le_nat_alt unsigned_of_nat take_bit_nat_eq_self)
  then show ?thesis using False h d
    by (auto simp: decode_integer_def Let_def signed_value_def integer_value_def Value_of_Int64_def Value_of_UInt64_def)
qed

text \<open>
  C27. A run of digits with an optional sign is decoded to the integer it denotes exactly when that lies in
  \<open>[-2^63, 2^64)\<close>, as a signed value up to \<open>2^31 - 1\<close> and as an unsigned one above; any other one is read as a double. The
  sign alone, without a digit, counts as 0.
\<close>

theorem decodeNumber_reads_integers:
  assumes "list_all is_digit ds"
  shows "decodeNumber_value ((if neg then ''-'' else []) @ ds) =
    (if - (2 ^ 63) \<le> signed_value neg ds \<and> signed_value neg ds < 2 ^ 64 then Some (initBasic (integer_value (signed_value neg ds)))
     else map_option Value_of_double (decodeDouble ((if neg then ''-'' else []) @ ds)))"
  using decode_integer_exact [OF assms, of neg] by (simp add: decodeNumber_value_def split: option.split)

theorem decodeNumber_reads_integers_witness:
  "decodeNumber_value ''-9223372036854775808'' = Some (initBasic (PInt (word_of_int (- (2 ^ 63))))) \<and>
   decodeNumber_value ''18446744073709551616'' = map_option Value_of_double (decodeDouble ''18446744073709551616'')"
  using decodeNumber_reads_integers [of "''9223372036854775808''" True] decodeNumber_reads_integers [of "''18446744073709551616''" False]
  by (simp add: is_digit_def less_eq_char_def signed_value_def integer_value_def undec_Cons digit_val_def)

end
