(* ===== verification/Json_Reading.thy ===== *)
theory Json_Reading
  imports Json_Text Json_Reader_Props Json_Writer
begin

text \<open>
  The reader on a text that is known: which token stands at a position, what \<open>readValue\<close> and the loops of \<open>readArray\<close> and
  \<open>readObject\<close> do there, with white space in front of every token. The state after reading is described by \<open>wrote s n f t\<close>: the reader moved by \<open>n\<close>
  characters and changed the current value by \<open>f\<close>.
\<close>

section \<open>Tokens of a written text\<close>

definition ahead :: "Reader \<Rightarrow> string" where "ahead s = drop (current s) (doc s)"

definition adv :: "nat \<Rightarrow> Reader \<Rightarrow> Reader" where "adv n s = s\<lparr>current := current s + n\<rparr>"

lemma adv_simps [simp]:
  "doc (adv n s) = doc s" "current (adv n s) = current s + n" "nodes (adv n s) = nodes s" "root (adv n s) = root s"
  "collectComments (adv n s) = collectComments s" "features (adv n s) = features s" "adv m (adv n s) = adv (n + m) s"
  "adv 0 s = s" "offset (adv n s) p = offset s p"
  by (simp_all add: adv_def offset_def)

lemma ahead_adv: "ahead (adv n s) = drop n (ahead s)"
  by (simp add: ahead_def add.commute)

lemma ahead_adv_append: "ahead s = x @ r \<Longrightarrow> n = length x \<Longrightarrow> ahead (adv n s) = r"
  by (simp add: ahead_adv)

lemma ahead_adv_Cons: "ahead s = c # r \<Longrightarrow> ahead (adv 1 s) = r"
  by (simp add: ahead_adv)

lemma next_char:
  assumes "ahead s = c # r"
  shows "getNextChar s = (c, adv 1 s)"
proof -
  have "current s < length (doc s)" using assms unfolding ahead_def by (metis drop_all list.simps(3) not_le)
  with assms show ?thesis by (simp add: getNextChar_def end_pos_def adv_def ahead_def hd_drop_conv_nth [symmetric])
qed

lemma no_spaces: "ahead s = c # r \<Longrightarrow> \<not> is_space c \<Longrightarrow> skipSpaces s = s"
  by (simp add: skipSpaces_def skip_from_def ahead_def)

definition token :: "TokenType \<Rightarrow> nat \<Rightarrow> Reader \<Rightarrow> Token" where
  "token t n s = \<lparr>t_type = t, t_start = current s, t_end = current s + n\<rparr>"

lemma token_simps [simp]: "t_type (token t n s) = t" "t_start (token t n s) = current s" "t_end (token t n s) = current s + n"
  by (simp_all add: token_def)

definition punct :: "char \<Rightarrow> TokenType option" where
  "punct c = (if c = CHR ''{'' then Some tokenObjectBegin else if c = CHR ''}'' then Some tokenObjectEnd
     else if c = CHR ''['' then Some tokenArrayBegin else if c = CHR '']'' then Some tokenArrayEnd
     else if c = CHR '','' then Some tokenArraySeparator else if c = CHR '':'' then Some tokenMemberSeparator else None)"

lemma read_punct:
  assumes "ahead s = c # r" "punct c = Some t"
  shows "readToken s = Ok (True, token t 1 s, adv 1 s)"
proof -
  have "\<not> is_space c" using assms(2) by (auto simp: punct_def is_space_def split: if_splits)
  with assms no_spaces next_char show ?thesis
    by (auto simp: readToken_def punct_def tok_def token_def is_digit_def less_eq_char_def split: if_splits)
qed

lemma read_string_token:
  assumes "ahead s = dquote # body @ dquote # r" "string_scan (body @ dquote # r) = (True, r)"
  shows "readToken s = Ok (True, token tokenString (length body + 2) s, adv (length body + 2) s)"
proof -
  have l: "length (doc s) - current s = length body + 2 + length r" using arg_cong [OF assms(1), of length] by (simp add: ahead_def)
  have a: "ahead (adv 1 s) = body @ dquote # r" using assms(1) by (rule ahead_adv_Cons)
  have "readString (adv 1 s) = (True, adv (length body + 2) s)"
    using l unfolding readString_def ahead_def [symmetric] a assms(2) by (simp add: end_pos_def adv_def)
  with assms(1) no_spaces next_char show ?thesis
    by (simp add: readToken_def is_space_def tok_def token_def)
qed

lemma read_literal:
  assumes "ahead s = lit @ r" "(lit, t) \<in> {(''true'', tokenTrue), (''false'', tokenFalse), (''null'', tokenNull)}"
  shows "readToken s = Ok (True, token t (length lit) s, adv (length lit) s)"
proof -
  obtain c cs where lit: "lit = c # cs" using assms(2) by auto
  then have h: "ahead s = c # cs @ r" using assms(1) by simp
  have a: "ahead (adv 1 s) = cs @ r" using h by (rule ahead_adv_Cons)
  from a [unfolded ahead_def] have "match cs (adv 1 s) = (True, adv (length lit) s)" by (simp add: match_def lit adv_def)
  with assms(2) h lit no_spaces [OF h] next_char [OF h] show ?thesis
    by (auto simp: readToken_def is_space_def tok_def token_def is_digit_def less_eq_char_def)
qed

definition stops :: "string \<Rightarrow> bool" where
  "stops r \<longleftrightarrow> r = [] \<or> is_space (hd r) \<or> hd r \<in> {CHR '','', CHR '']'', CHR ''}''}"

lemma read_number_token:
  assumes "ahead s = sign @ ds @ r" "sign = [] \<or> sign = ''-''" "list_all is_digit ds" "ds \<noteq> []" "stops r"
  shows "readToken s = Ok (True, token tokenNumber (length (sign @ ds)) s, adv (length (sign @ ds)) s)"
proof -
  obtain c cs where t: "sign @ ds = c # cs" "is_digit c \<or> c = CHR ''-''" "list_all is_digit cs"
    using assms(2-4) by (cases ds) auto
  then have h: "ahead s = c # cs @ r" using assms(1) by (metis append_Cons append_assoc)
  have l: "length (doc s) - current s = Suc (length cs + length r)" using arg_cong [OF h, of length] by (simp add: ahead_def)
  have a: "drop (Suc (current s)) (doc s) = cs @ r" using h unfolding ahead_def by (metis drop_Suc list.sel(3) tl_drop)
  let ?i = "Suc (current s) + length cs"
  have "takeWhile is_digit (cs @ r) = cs"
  proof -
    have "r = [] \<or> \<not> is_digit (hd r)" using assms(5) by (auto simp: stops_def is_space_def is_digit_def less_eq_char_def)
    with t(3) show ?thesis by (cases r) (auto simp: list_all_iff takeWhile_append takeWhile_eq_all_conv [THEN iffD2])
  qed
  then have s1: "skip_from is_digit (doc s) (Suc (current s)) = ?i" by (simp add: skip_from_def a)
  have "peek (doc s) ?i = (if r = [] then NUL else hd r)"
  proof -
    have "drop ?i (doc s) = r" using a by (metis append_eq_conv_conj drop_drop add.commute)
    then show ?thesis by (cases r) (auto simp: peek_def hd_drop_conv_nth [symmetric] not_less)
  qed
  then have "number_end (doc s) (Suc (current s)) = ?i"
    using assms(5) by (auto simp: number_end_def s1 Let_def stops_def is_space_def)
  then have n: "readNumber (adv 1 s) = adv (length (sign @ ds)) s" by (simp add: readNumber_def adv_def t(1))
  have "\<not> is_space c" "c \<noteq> dquote" "punct c = None" "c \<noteq> CHR ''/''"
    using t(2) by (auto simp: is_digit_def less_eq_char_def is_space_def punct_def)
  with t(2) no_spaces [OF h] next_char [OF h] n show ?thesis
    by (auto simp: readToken_def punct_def tok_def token_def split: if_splits)
qed

section \<open>Reading scalars\<close>

lemma no_comment [simp]: "t_type tk \<noteq> tokenComment \<Longrightarrow> skip_comments ok tk s = Ok (ok, tk, s)"
  by (simp add: skip_comments.simps)

lemma skipCommentTokens_eq:
  "readToken s = Ok (ok, tk, s') \<Longrightarrow> t_type tk \<noteq> tokenComment \<Longrightarrow> skipCommentTokens s = Ok (tk, s')"
  by (simp add: skipCommentTokens_def)

definition reading :: "Reader \<Rightarrow> bool" where
  "reading s \<longleftrightarrow> \<not> collectComments s \<and> length (doc s) \<le> 2147483642 \<and> nodes s \<noteq> []"

lemma value_body_eq:
  assumes "readToken s = Ok (ok, tk, s')" "t_type tk \<noteq> tokenComment" "length (nodes s) \<le> stackLimit_g" "\<not> collectComments s'"
    "value_switch ro ra tk s' = Ok (Some True, t)" "\<not> collectComments t"
  shows "value_body ro ra s = Ok (True, t)"
  using assms by (simp add: value_body_def skipCommentTokens_eq take_comments_def mark_value_def)

lemma slice_ahead: "slice (current s) (current s + n) (doc s) = take n (ahead s)"
  by (simp add: slice_def ahead_def)

text \<open>\<open>wrote s n f t\<close>: \<open>t\<close> is \<open>s\<close> moved by \<open>n\<close> characters with the current value changed by \<open>f\<close>.\<close>

definition wrote :: "Reader \<Rightarrow> nat \<Rightarrow> (Value \<Rightarrow> Value) \<Rightarrow> Reader \<Rightarrow> bool" where
  "wrote s n f t \<longleftrightarrow> t = upd_current f (adv n s)"

lemma wrote_simps:
  assumes "wrote s n f t"
  shows "doc t = doc s" "current t = current s + n" "nodes t = nodes s" "collectComments t = collectComments s" "features t = features s"
    "currentPath t = currentPath s" "root t = upd_at (currentPath s) f (root s)" "ahead t = drop n (ahead s)" "reading t = reading s"
  using assms by (simp_all add: wrote_def upd_current_def currentPath_def ahead_def reading_def add.commute)

lemma wrote_trans: "wrote s n f t \<Longrightarrow> wrote t m g u \<Longrightarrow> wrote s (n + m) (\<lambda>x. g (f x)) u"
  by (simp add: wrote_def upd_current_def adv_def currentPath_def upd_at_comp)

lemma wrote_store: "wrote s n (\<lambda>v. setOffsets (offset s (current s)) (offset s (current s + n)) (set_payload (payload d) v)) (store_decoded (token t n s) d (adv n s))"
  by (simp add: wrote_def store_decoded_def)

lemma payload_offsets [simp]: "payload (setOffsets a b v) = payload v" "payload (set_payload p v) = p" "payload (setOffsetLimit i v) = payload v"
  "payload (setOffsetStart i v) = payload v"
  by (cases v; simp add: setOffsets_def setOffsetLimit_def setOffsetStart_def set_payload_def)+

lemma value_equal_payload: "value_equal v w \<longleftrightarrow> payload_equal (payload v) (payload w)"
  by (cases v; cases w; cases "payload v"; cases "payload w"; simp)

lemma read_scalar:
  assumes "reading s" "length (nodes s) \<le> stackLimit_g" "readToken s = Ok (True, token t n s, adv n s)" "t \<noteq> tokenComment"
    "value_switch ro ra (token t n s) (adv n s) = Ok (Some True, store_decoded (token t n s) d (adv n s))"
  shows "\<exists>f t. value_body ro ra s = Ok (True, t) \<and> wrote s n f t \<and> (\<forall>u. payload (f u) = payload d)"
proof -
  let ?t = "store_decoded (token t n s) d (adv n s)"
  have w: "wrote s n (\<lambda>v. setOffsets (offset s (current s)) (offset s (current s + n)) (set_payload (payload d) v)) ?t" by (rule wrote_store)
  have "value_body ro ra s = Ok (True, ?t)"
    using assms wrote_simps(4) [OF w] by (intro value_body_eq) (simp_all add: reading_def)
  with w show ?thesis by fastforce
qed

section \<open>Values that are read back\<close>

text \<open>
  Values without reals whose integers have the type the parser chooses, whose strings are UTF-8 and whose arrays
  have no gaps. \<open>nesting\<close> counts the levels of the value.
\<close>

fun plain :: "Value \<Rightarrow> bool" and plain_payload :: "Payload \<Rightarrow> bool" and plain_all :: "ObjectValues \<Rightarrow> bool" where
  "plain (Value p _ _ _) = plain_payload p"
| "plain_payload p = (case p of
     PInt i \<Rightarrow> sint i \<le> 2147483647
   | PUInt u \<Rightarrow> uint u > 2147483647
   | PReal _ \<Rightarrow> False
   | PString s \<Rightarrow> utf8 s
   | PArray m \<Rightarrow> length m < 2 ^ 31 \<and> map fst m = map (CZIndex \<circ> idx) [0..<length m] \<and> plain_all m
   | PObject m \<Rightarrow> sorted_map m \<and> (\<forall>e \<in> set m. \<exists>k. fst e = CZStr k \<and> utf8 k \<and> length k < 2 ^ 30) \<and> plain_all m
   | _ \<Rightarrow> True)"
| "plain_all [] = True"
| "plain_all ((k, v) # m) = (plain v \<and> plain_all m)"

fun nesting :: "Value \<Rightarrow> nat" and nesting_payload :: "Payload \<Rightarrow> nat" and nesting_all :: "ObjectValues \<Rightarrow> nat" where
  "nesting (Value p _ _ _) = nesting_payload p"
| "nesting_payload p = (case p of PArray m \<Rightarrow> Suc (nesting_all m) | PObject m \<Rightarrow> Suc (nesting_all m) | _ \<Rightarrow> 1)"
| "nesting_all [] = 0"
| "nesting_all ((k, v) # m) = max (nesting v) (nesting_all m)"

declare plain_payload.simps [simp del] nesting_payload.simps [simp del]

definition compact_json :: "FastWriter \<Rightarrow> bool" where
  "compact_json w \<longleftrightarrow> \<not> yamlCompatibilityEnabled w \<and> \<not> dropNullPlaceholders w"

lemma sint_bounds: "- (2 ^ 63) \<le> sint (i :: u64)" "sint (i :: u64) < 2 ^ 63"
  using sint_greater_eq [of i] sint_less [of i] by simp_all

lemma unat_of_int_u64: "0 \<le> k \<Longrightarrow> k < 2 ^ 64 \<Longrightarrow> unat (word_of_int k :: u64) = nat k"
  by (simp add: unsigned_of_int take_bit_int_eq_self)

lemma sint_text: "valueToString_LargestInt i = (if sint i < 0 then ''-'' else []) @ dec (nat \<bar>sint i\<bar>)"
proof (cases "sint i < 0")
  case True
  have "- i = word_of_int (- sint i)" by simp
  then have "unat (- i) = nat (- sint i)" using True sint_bounds [of i] by (simp only:) (rule unat_of_int_u64; simp)
  moreover have "maxLargestInt + 1 = - i" if "i = minLargestInt"
    using that by (simp add: minLargestInt_def maxLargestInt_def eq_neg_iff_add_eq_0)
  ultimately show ?thesis using True by (auto simp: valueToString_LargestInt_def uintToString_dec)
next
  case False
  have "unat (word_of_int (sint i) :: u64) = nat (sint i)" using False sint_bounds [of i] by (intro unat_of_int_u64) simp_all
  then have "unat i = nat (sint i)" by simp
  moreover have "i \<noteq> minLargestInt" using False by (auto simp: minLargestInt_def)
  ultimately show ?thesis using False by (simp add: valueToString_LargestInt_def uintToString_dec)
qed

lemma dec_all_digits: "list_all is_digit (dec n)"
  by (simp add: list_all_iff dec_digits)

lemma read_integer:
  assumes "reading s" "length (nodes s) \<le> stackLimit_g" "ahead s = text @ r" "stops r"
    "text = (if i < 0 then ''-'' else []) @ dec (nat \<bar>i\<bar>)" "- (2 ^ 63) \<le> i" "i < 2 ^ 64"
  shows "\<exists>f t. value_body ro ra s = Ok (True, t) \<and> wrote s (length text) f t \<and> (\<forall>u. payload (f u) = integer_value i)"
proof -
  let ?n = "length text" and ?d = "initBasic (integer_value i)"
  have tk: "readToken s = Ok (True, token tokenNumber ?n s, adv ?n s)"
    using assms(3-5) by (intro read_number_token [where r = r, unfolded append_assoc, THEN trans]) (auto simp: dec_all_digits)
  have "signed_value (i < 0) (dec (nat \<bar>i\<bar>)) = i" by (simp add: signed_value_def)
  with decode_integer_exact [OF dec_all_digits, of "i < 0" "nat \<bar>i\<bar>"] assms(6,7)
  have "decode_integer text = Some ?d" by (simp add: assms(5))
  moreover have "token_text (token tokenNumber ?n s) (adv ?n s) = text"
    using slice_ahead [of s ?n] assms(3) by (simp add: token_text_def)
  ultimately have "value_switch ro ra (token tokenNumber ?n s) (adv ?n s) = Ok (Some True, store_decoded (token tokenNumber ?n s) ?d (adv ?n s))"
    by (simp add: value_switch_def decodeNumber_def decodeNumber_value_def with_result_def)
  from read_scalar [OF assms(1,2) tk _ this] show ?thesis by (simp add: initBasic_def)
qed

text \<open>White space in front of a token.\<close>

definition spaces :: "string \<Rightarrow> bool" where
  "spaces ws \<longleftrightarrow> list_all is_space ws"

lemma spaces_simps [simp]: "spaces []" "spaces (c # ws) \<longleftrightarrow> is_space c \<and> spaces ws" "spaces (ws @ ws') \<longleftrightarrow> spaces ws \<and> spaces ws'"
  by (simp_all add: spaces_def)

text \<open>Where a text starts with something else than white space and a closing bracket.\<close>

definition starts :: "string \<Rightarrow> bool" where
  "starts t \<longleftrightarrow> t \<noteq> [] \<and> \<not> is_space (hd t) \<and> hd t \<noteq> CHR '']''"

lemma skipSpaces_ahead:
  assumes "ahead s = ws @ r" "spaces ws" "r \<noteq> []" "\<not> is_space (hd r)"
  shows "skipSpaces s = adv (length ws) s"
proof -
  have "takeWhile is_space (drop (current s) (doc s)) = ws"
    using assms unfolding ahead_def spaces_def by (cases r) (auto simp: list_all_iff takeWhile_append2)
  then show ?thesis by (simp add: skipSpaces_def skip_from_def adv_def)
qed

lemma readToken_spaced:
  assumes "ahead s = ws @ r" "spaces ws" "r \<noteq> []" "\<not> is_space (hd r)"
  shows "readToken s = readToken (adv (length ws) s)"
  using readToken_skipSpaces [of s] skipSpaces_ahead [OF assms] by simp

lemma punct_not_space: "punct c = Some t \<Longrightarrow> \<not> is_space c"
  by (auto simp: punct_def is_space_def split: if_splits)

lemma read_punct_spaced:
  assumes "ahead s = ws @ c # r" "spaces ws" "punct c = Some t"
  shows "readToken s = Ok (True, token t 1 (adv (length ws) s), adv (length ws + 1) s)" "ahead (adv (length ws + 1) s) = r"
proof -
  have a: "ahead (adv (length ws) s) = c # r" using assms(1) by (simp add: ahead_adv)
  show "readToken s = Ok (True, token t 1 (adv (length ws) s), adv (length ws + 1) s)"
    using readToken_spaced [OF assms(1,2)] read_punct [OF a assms(3)] punct_not_space [OF assms(3)] by simp
  show "ahead (adv (length ws + 1) s) = r" using ahead_adv_Cons [OF a] by simp
qed

section \<open>Texts of scalars\<close>

text \<open>\<open>string_text x t\<close>: \<open>t\<close> is a quoted text that stands for the string \<open>x\<close>.\<close>

definition string_text :: "string \<Rightarrow> string \<Rightarrow> bool" where
  "string_text x t \<longleftrightarrow> (\<exists>body. t = [dquote] @ body @ [dquote] \<and> decode_chars body [] = Inr x \<and>
     (\<forall>rest. string_scan (body @ dquote # rest) = (True, rest)))"

lemma quoted_string_text: "utf8 x \<Longrightarrow> string_text x (valueToQuotedStringN x False)"
  unfolding string_text_def by (metis quoted_string_decodes)

lemma quoted_bytes_text: "string_text x (valueToQuotedStringN x True)"
proof (cases "doesAnyCharRequireEscaping x")
  case False
  then have "\<forall>c \<in> set x. c \<noteq> bslash \<and> c \<noteq> dquote" by (auto simp: doesAnyCharRequireEscaping_def)
  with False show ?thesis by (auto simp: string_text_def valueToQuotedStringN_def plain_chars)
next
  case True
  then show ?thesis
    using quoted_bytes_decode by (auto simp: string_text_def valueToQuotedStringN_def escape_loop_bytes intro!: exI [where x = "concat (map quoted_char x)"])
qed

definition scalar_text :: "Payload \<Rightarrow> string \<Rightarrow> bool" where
  "scalar_text p t = (case p of
     PNull \<Rightarrow> t = ''null'' | PBool b \<Rightarrow> t = valueToString_bool b
   | PInt i \<Rightarrow> t = valueToString_LargestInt i | PUInt u \<Rightarrow> t = valueToString_LargestUInt u
   | PString x \<Rightarrow> string_text x t | _ \<Rightarrow> False)"

lemma decode_name:
  assumes "string_text k t" "ahead s = t @ r"
  shows "readToken s = Ok (True, token tokenString (length t) s, adv (length t) s)" "length k \<le> length (doc s)"
    "doc s' = doc s \<Longrightarrow> decodeString_value (token tokenString (length t) s) s' = Inr k"
proof -
  obtain body where b: "t = [dquote] @ body @ [dquote]" "decode_chars body [] = Inr k"
    "\<forall>rest. string_scan (body @ dquote # rest) = (True, rest)" using assms(1) unfolding string_text_def by blast
  have n: "length t = length body + 2" by (simp add: b(1))
  have h: "ahead s = dquote # body @ dquote # r" using assms(2) b(1) by simp
  show "readToken s = Ok (True, token tokenString (length t) s, adv (length t) s)"
    using h b(3) unfolding n by (intro read_string_token) auto
  have "length (ahead s) \<le> length (doc s)" by (simp add: ahead_def)
  then show "length k \<le> length (doc s)" using decode_chars_length [OF b(2)] h by simp
  have "drop (Suc (current s)) (doc s) = body @ dquote # r" using ahead_adv_Cons [OF h] by (simp add: ahead_def)
  then have "string_body (token tokenString (length t) s) s' = body" if "doc s' = doc s"
    using that by (simp add: string_body_def slice_def n)
  then show "doc s' = doc s \<Longrightarrow> decodeString_value (token tokenString (length t) s) s' = Inr k"
    using b(2) by (simp add: decodeString_value_def)
qed

lemma read_string:
  assumes "reading s" "length (nodes s) \<le> stackLimit_g" "ahead s = t @ r" "string_text x t"
  shows "\<exists>f s'. value_body ro ra s = Ok (True, s') \<and> wrote s (length t) f s' \<and> (\<forall>u. payload (f u) = PString x)"
proof -
  note n = decode_name [OF assms(4,3)]
  have "Value_of_String x = Inr (initBasic (PString x))"
    using assms(1) n(2) by (simp add: reading_def Value_of_String_def duplicateAndPrefixStringValue_def json_assert_def maxInt_def)
  then have "value_switch ro ra (token tokenString (length t) s) (adv (length t) s) =
      Ok (Some True, store_decoded (token tokenString (length t) s) (initBasic (PString x)) (adv (length t) s))"
    by (simp add: value_switch_def decodeString_def n(3) lift_def with_result_def)
  from read_scalar [OF assms(1,2) n(1) _ this] show ?thesis by (simp add: initBasic_def)
qed

lemma read_literal_value:
  assumes "reading s" "length (nodes s) \<le> stackLimit_g" "ahead s = lit @ r"
    "(lit, p) \<in> {(''true'', PBool True), (''false'', PBool False), (''null'', PNull)}"
  shows "\<exists>f t. value_body ro ra s = Ok (True, t) \<and> wrote s (length lit) f t \<and> (\<forall>u. payload (f u) = p)"
proof -
  obtain t where t: "(lit, t) \<in> {(''true'', tokenTrue), (''false'', tokenFalse), (''null'', tokenNull)}"
    "\<And>tk s'. t_type tk = t \<Longrightarrow> value_switch ro ra tk s' = Ok (Some True, store_decoded tk (initBasic p) s')"
    using assms(4) by (auto simp: value_switch_def with_result_def store_literal_def)
  then have "t \<noteq> tokenComment" by auto
  from read_scalar [OF assms(1,2) read_literal [OF assms(3) t(1)] this t(2)] show ?thesis by (simp add: initBasic_def)
qed

lemma scalar_read:
  assumes "reading s" "length (nodes s) \<le> stackLimit_g" "ahead s = t @ r" "stops r" "plain_payload p" "scalar_text p t"
  shows "\<exists>f s'. value_body ro ra s = Ok (True, s') \<and> wrote s (length t) f s' \<and> (\<forall>u. payload (f u) = p)"
proof (cases p)
  case (PInt i)
  have t: "t = (if sint i < 0 then ''-'' else []) @ dec (nat \<bar>sint i\<bar>)" using assms(6) by (simp add: scalar_text_def PInt sint_text)
  have p: "p = integer_value (sint i)" using assms(5) PInt by (simp add: integer_value_def plain_payload.simps)
  have "sint i < 2 ^ 64" using sint_bounds(2) [of i] by simp
  from read_integer [OF assms(1,2,3,4) t sint_bounds(1) this] show ?thesis unfolding p .
next
  case (PUInt i)
  have t: "t = (if int (unat i) < 0 then ''-'' else []) @ dec (nat \<bar>int (unat i)\<bar>)"
    using assms(6) by (simp add: scalar_text_def PUInt valueToString_LargestUInt_def uintToString_dec)
  have p: "p = integer_value (int (unat i))" using assms(5) PUInt by (simp add: integer_value_def plain_payload.simps)
  have hi: "int (unat i) < 2 ^ 64"
    using of_nat_less_iff [of "unat i" "2 ^ 64", where 'a = int] u64_bound [of i] by simp
  have "- (2 ^ 63) \<le> int (unat i)" by (rule order_trans [OF _ of_nat_0_le_iff]) simp
  from read_integer [OF assms(1,2,3,4) t this hi] show ?thesis unfolding p .
next
  case (PString x)
  then have "string_text x t" using assms(6) by (simp add: scalar_text_def)
  from read_string [OF assms(1-3) this] show ?thesis unfolding PString .
next
  case (PBool x)
  have "(t, p) \<in> {(''true'', PBool True), (''false'', PBool False), (''null'', PNull)}"
    using PBool assms(6) by (simp add: scalar_text_def valueToString_bool_def)
  then show ?thesis by (rule read_literal_value [OF assms(1-3)])
next
  case PNull
  then have "(t, p) \<in> {(''true'', PBool True), (''false'', PBool False), (''null'', PNull)}"
    using assms(6) by (simp add: scalar_text_def)
  then show ?thesis by (rule read_literal_value [OF assms(1-3)])
qed (use assms(6) in \<open>simp_all add: scalar_text_def\<close>)

section \<open>Reading containers\<close>

lemma map_equal_list_all2: "map_equal m n \<longleftrightarrow> list_all2 (\<lambda>e e'. fst e = fst e' \<and> value_equal (snd e) (snd e')) m n"
  by (induction m n rule: list_induct2') (auto simp: czequal_eq)

lemma map_equal_snoc: "map_equal m n \<Longrightarrow> value_equal x v \<Longrightarrow> map_equal (m @ [(k, x)]) (n @ [(k, v)])"
  by (simp add: map_equal_list_all2 list_all2_appendI)

lemma map_equal_length: "map_equal m n \<Longrightarrow> length m = length n"
  by (auto simp: map_equal_list_all2 list_all2_lengthD)

lemma map_equal_keys: "map_equal m n \<Longrightarrow> map fst m = map fst n"
  by (induction m n rule: list_induct2') (auto simp: czequal_eq)

lemma emplace_append: "\<forall>e \<in> set m. fst e < k \<Longrightarrow> map_emplace k x m = m @ [(k, x)]"
  by (induction m) (auto simp: map_emplace_Cons)

lemma wrote_adv: "wrote s n (\<lambda>x. x) (adv n s)"
  by (simp add: wrote_def upd_current_def upd_at_id)

lemma wrote_get: "wrote s n f t \<Longrightarrow> get_at (currentPath s) (root s) = Some a \<Longrightarrow> get_at (currentPath t) (root t) = Some (f a)"
  by (simp add: wrote_simps get_at_upd_at)

text \<open>\<open>read_ok v t\<close>: wherever \<open>t\<close> stands in a document, \<open>readValue\<close> reads it and gets \<open>v\<close>.\<close>

definition read_ok :: "Value \<Rightarrow> string \<Rightarrow> bool" where
  "read_ok v t \<longleftrightarrow> (\<exists>ws t'. t = ws @ t' \<and> spaces ws \<and> starts t') \<and>
    (\<forall>n s r u. reading s \<longrightarrow> ahead s = t @ r \<longrightarrow> stops r \<longrightarrow> 2 * length t \<le> n \<longrightarrow>
     length (nodes s) + nesting v \<le> Suc stackLimit_g \<longrightarrow> get_at (currentPath s) (root s) = Some u \<longrightarrow>
     (\<exists>f s'. readValue n s = Ok (True, s') \<and> wrote s (length t) f s' \<and> value_equal (f u) v))"

lemma stops_simps [simp]: "stops (CHR '','' # r)" "stops (CHR '']'' # r)" "stops (CHR ''}'' # r)" "stops []"
  by (simp_all add: stops_def)

lemma stops_spaces: "spaces ws \<Longrightarrow> stops r \<Longrightarrow> stops (ws @ r)"
  by (cases ws) (simp_all add: stops_def)

lemma read_ok_spaced:
  assumes "read_ok v t" "starts t" "spaces ws"
  shows "read_ok v (ws @ t)"
  unfolding read_ok_def
proof (intro conjI allI impI)
  fix n s r u
  assume s: "reading s" "ahead s = (ws @ t) @ r" "stops r" "2 * length (ws @ t) \<le> n"
    "length (nodes s) + nesting v \<le> Suc stackLimit_g" "get_at (currentPath s) (root s) = Some u"
  let ?s = "adv (length ws) s"
  have k: "skipSpaces s = ?s" using assms(2,3) s(2) by (intro skipSpaces_ahead [where r = "t @ r"]) (auto simp: starts_def)
  have w: "wrote s (length ws) (\<lambda>x. x) ?s" by (rule wrote_adv)
  have g: "reading ?s" "ahead ?s = t @ r" "2 * length t \<le> n" "length (nodes ?s) + nesting v \<le> Suc stackLimit_g"
    "get_at (currentPath ?s) (root ?s) = Some u"
    using s wrote_get [OF w s(6)] wrote_simps(9) [OF w] by (simp_all add: ahead_adv)
  obtain f s' where f: "readValue n ?s = Ok (True, s')" "wrote ?s (length t) f s'" "value_equal (f u) v"
    using assms(1) [unfolded read_ok_def, THEN conjunct2, rule_format, OF g(1,2) s(3) g(3-5)] by blast
  have "readValue n s = Ok (True, s')" using readValue_skipSpaces [of n s] f(1) unfolding k by simp
  moreover have "wrote s (length (ws @ t)) f s'" using wrote_trans [OF w f(2)] by simp
  ultimately show "\<exists>f s'. readValue n s = Ok (True, s') \<and> wrote s (length (ws @ t)) f s' \<and> value_equal (f u) v" using f(3) by blast
qed (use assms(2,3) in blast)

lemma upd_at_new:
  assumes "\<forall>e \<in> set m. fst e \<noteq> k" "P = PArray \<or> P = PObject"
  shows "get_at [k] (set_payload (P (m @ [(k, x)])) a) = Some x"
    "upd_at [k] f (set_payload (P (m @ [(k, x)])) a) = set_payload (P (m @ [(k, f x)])) a"
proof -
  have "map_find k (m @ [(k, x)]) = Some x" using assms(1) by (induction m) auto
  then show "get_at [k] (set_payload (P (m @ [(k, x)])) a) = Some x" using assms(2) by (auto simp: map_of_value_def)
  have "map (\<lambda>(k', x). (k', if k' = k then f x else x)) m = m" using assms(1) by (induction m) auto
  then show "upd_at [k] f (set_payload (P (m @ [(k, x)])) a) = set_payload (P (m @ [(k, f x)])) a"
    using assms(2) by (cases a) (auto simp: with_map_def set_payload_def cong: if_cong)
qed

lemma child_read:
  assumes "reading s" "get_at (currentPath s) (root s) = Some a" "create a = Inr (set_payload (P (m @ [(k, nullSingleton)])) a)"
    "\<forall>e \<in> set m. fst e \<noteq> k" "P = PArray \<or> P = PObject" "read_ok v t" "ahead s = t @ r" "stops r"
    "2 * length t \<le> n" "length (nodes s) + nesting v \<le> stackLimit_g"
  shows "\<exists>x s'. child_body create k e (\<lambda>s. readValue n s) after s = after s' \<and>
    wrote s (length t) (\<lambda>_. set_payload (P (m @ [(k, x)])) a) s' \<and> value_equal x v"
proof -
  let ?p = "currentPath s" and ?a = "set_payload (P (m @ [(k, nullSingleton)])) a"
  let ?s1 = "s\<lparr>root := upd_at ?p (\<lambda>_. ?a) (root s)\<rparr>"
  let ?s2 = "push (?p @ [k]) ?s1"
  have c: "upd_outcome ?p create s = Ok ?s1" using assms(2,3) by (simp add: upd_outcome_def lift_def)
  have p2: "currentPath ?s2 = ?p @ [k]" "currentPath ?s1 = ?p" by (simp_all add: currentPath_def push_def)
  have g: "get_at (currentPath ?s2) (root ?s2) = Some nullSingleton"
    using get_at_upd_at [OF assms(2), of "\<lambda>_. ?a"] upd_at_new(1) [OF assms(4,5)] unfolding p2 by (simp add: push_def get_at_append del: get_at.simps)
  have r2: "reading ?s2" "ahead ?s2 = t @ r" "length (nodes ?s2) + nesting v \<le> Suc stackLimit_g"
    using assms(1,7,10) by (simp_all add: reading_def push_def ahead_def)
  obtain f s' where t: "readValue n ?s2 = Ok (True, s')" "wrote ?s2 (length t) f s'" "value_equal (f nullSingleton) v"
    using assms(6,8,9) r2 g unfolding read_ok_def by blast
  have "child_body create k e (\<lambda>s. readValue n s) after s = after (pop s')"
    unfolding child_body_def c bind.simps p2(2) t(1) by simp
  moreover have "wrote s (length t) (\<lambda>_. set_payload (P (m @ [(k, f nullSingleton)])) a) (pop s')"
    using t(2) upd_at_new(2) [OF assms(4,5), of f nullSingleton a] unfolding wrote_def upd_current_def
    by (simp add: pop_def push_def adv_def currentPath_def upd_at_append upd_at_comp del: upd_at.simps)
  ultimately show ?thesis using t(3) by blast
qed

definition index_keys :: "nat \<Rightarrow> ObjectValues \<Rightarrow> bool" where
  "index_keys i m \<longleftrightarrow> map fst m = map (CZIndex \<circ> idx) [i..<i + length m]"

lemma idx_less: "i < j \<Longrightarrow> j < 2 ^ 32 \<Longrightarrow> CZIndex (idx i) < CZIndex (idx j)"
  by (simp add: word_less_nat_alt unat_idx)

lemma create_index:
  assumes "payload a = PArray m" "index_keys 0 m" "length m < 2 ^ 31"
  shows "index_ref_int (int (length m)) a = Inr (set_payload (PArray (m @ [(CZIndex (idx (length m)), nullSingleton)])) a)"
    "\<forall>e \<in> set m. fst e \<noteq> CZIndex (idx (length m))"
proof -
  have lt: "\<forall>e \<in> set m. fst e < CZIndex (idx (length m))"
  proof
    fix e assume "e \<in> set m"
    then have "fst e \<in> set (map fst m)" by simp
    then have "fst e \<in> set (map (CZIndex \<circ> idx) [0..<length m])" using assms(2) unfolding index_keys_def by (simp only: add_0)
    then obtain i where "i < length m" "fst e = CZIndex (idx i)" by auto
    with assms(3) show "fst e < CZIndex (idx (length m))" by (simp add: idx_less del: czstring_less_simps)
  qed
  then show "\<forall>e \<in> set m. fst e \<noteq> CZIndex (idx (length m))" by auto
  have "type_of a = arrayValue" using assms(1) by (simp add: type_of_def)
  then show "index_ref_int (int (length m)) a = Inr (set_payload (PArray (m @ [(CZIndex (idx (length m)), nullSingleton)])) a)"
    using assms(1) emplace_append [OF lt] by (simp add: index_ref_int_def index_ref_def json_assert_def coerce_def with_map_def idx_def)
qed

lemma index_keys_equal: "map_equal m n \<Longrightarrow> index_keys i m = index_keys i n"
  by (simp add: index_keys_def map_equal_keys map_equal_length)

lemma array_element:
  assumes "read_ok v t" "length (nodes s) + nesting v \<le> stackLimit_g" "reading s" "ahead s = t @ r" "stops r"
    "get_at (currentPath s) (root s) = Some a" "payload a = PArray m" "index_keys 0 m" "length m < 2 ^ 31" "2 * length t \<le> n"
  shows "\<exists>x s'. readArray_loop (Suc n) (int (length m)) s = separator_body (\<lambda>index s. readArray_loop n index s) (int (length m)) s' \<and>
    wrote s (length t) (\<lambda>_. set_payload (PArray (m @ [(CZIndex (idx (length m)), x)])) a) s' \<and> value_equal x v"
  using child_read [where create = "index_ref_int (int (length m))" and P = PArray and k = "CZIndex (idx (length m))" and m = m and
      e = tokenArrayEnd and after = "separator_body (\<lambda>index s. readArray_loop n index s) (int (length m))", OF assms(3,6)
      create_index [OF assms(7,8,9)] _ assms(1,4,5,10,2)]
  by (simp add: array_body_def idx_def)

lemma index_keys_split:
  assumes "index_keys 0 (m1 @ e # m2)"
  shows "index_keys 0 m1 \<and> fst e = CZIndex (idx (length m1))"
proof -
  have "[0..<length m1 + Suc (length m2)] = [0..<length m1] @ length m1 # [Suc (length m1)..<length m1 + Suc (length m2)]"
    using upt_add_eq_append [OF le0, of "length m1" "Suc (length m2)"] upt_conv_Cons [of "length m1" "length m1 + Suc (length m2)"]
    by (simp only: less_add_Suc1 simp_thms)
  with assms show ?thesis by (simp add: index_keys_def del: upt_Suc)
qed

text \<open>A piece of an array's text: the text of an element with the white space behind it.\<close>

definition element_piece :: "(Value \<Rightarrow> string \<Rightarrow> bool) \<Rightarrow> czstring \<times> Value \<Rightarrow> string \<Rightarrow> bool" where
  "element_piece P e x \<longleftrightarrow> (\<exists>t w. P (snd e) t \<and> spaces w \<and> x = t @ w)"

definition more_pieces :: "string list \<Rightarrow> string" where
  "more_pieces xs = concat (map (\<lambda>x. CHR '','' # x) xs)"

lemma stops_more: "stops (more_pieces xs @ CHR '']'' # r)" "stops (more_pieces xs @ CHR ''}'' # r)"
  by (cases xs; simp add: more_pieces_def)+

text \<open>One turn of the loop of \<open>readArray\<close>, up to and with the separator \<open>c\<close>.\<close>

lemma array_turn:
  assumes "element_piece read_ok e x" "length (nodes s) + nesting (snd e) \<le> stackLimit_g" "index_keys 0 (m1 @ e # m2)"
    "length (m1 @ e # m2) < 2 ^ 31" "reading s" "ahead s = x @ c # r" "stops (c # r)" "punct c = Some ty"
    "get_at (currentPath s) (root s) = Some a" "payload a = PArray m'" "map_equal m' m1" "2 * length x \<le> n"
    "ty = tokenArraySeparator \<or> ty = tokenArrayEnd"
  shows "\<exists>a' m'' s'. readArray_loop (Suc n) (int (length m1)) s =
      (if ty = tokenArrayEnd then Ok (True, s') else readArray_loop n (int (length (m1 @ [e]))) s') \<and>
    wrote s (length x + 1) (\<lambda>_. a') s' \<and> ahead s' = r \<and> payload a' = PArray m'' \<and> map_equal m'' (m1 @ [e])"
proof -
  let ?k = "CZIndex (idx (length m'))"
  obtain t w where x: "read_ok (snd e) t" "spaces w" "x = t @ w" using assms(1) unfolding element_piece_def by blast
  have k: "index_keys 0 m'" "length m' = length m1" "length m' < 2 ^ 31" "fst e = ?k"
    using index_keys_split [OF assms(3)] assms(4) map_equal_length [OF assms(11)] index_keys_equal [OF assms(11), of 0] by auto
  have h: "ahead s = t @ w @ c # r" using assms(6) x(3) by simp
  obtain v s1 where s1: "readArray_loop (Suc n) (int (length m')) s = separator_body (\<lambda>index s. readArray_loop n index s) (int (length m')) s1"
    "wrote s (length t) (\<lambda>_. set_payload (PArray (m' @ [(?k, v)])) a) s1" "value_equal v (snd e)"
    using array_element [OF x(1) assms(2,5) h stops_spaces [OF x(2) assms(7)] assms(9,10) k(1,3), of n] assms(12) x(3) by auto
  have a1: "ahead s1 = w @ c # r" using wrote_simps(8) [OF s1(2)] h by simp
  note p = read_punct_spaced [OF a1 x(2) assms(8)]
  let ?s = "adv (length w + 1) s1"
  have "separator_body (\<lambda>index s. readArray_loop n index s) (int (length m')) s1 =
      (if ty = tokenArrayEnd then Ok (True, ?s) else readArray_loop n (int (length (m1 @ [e]))) ?s)"
    using p(1) assms(13) k(2) by (auto simp: separator_body_def add.commute)
  moreover have "wrote s (length x + 1) (\<lambda>_. set_payload (PArray (m' @ [(?k, v)])) a) ?s"
    using wrote_trans [OF s1(2) wrote_adv [of s1 "length w + 1"]] x(3) by (simp add: add.assoc)
  moreover have "map_equal (m' @ [(?k, v)]) (m1 @ [e])" using map_equal_snoc [OF assms(11) s1(3), of ?k] k(4) by (cases e) simp
  ultimately show ?thesis using s1(1) k(2) p(2) by fastforce
qed

lemma array_loop:
  assumes "list_all2 (element_piece read_ok) (e # m2) (x # xs)" "\<forall>e \<in> set (e # m2). length (nodes s) + nesting (snd e) \<le> stackLimit_g"
    "index_keys 0 (m1 @ e # m2)" "length (m1 @ e # m2) < 2 ^ 31" "reading s" "ahead s = x @ more_pieces xs @ CHR '']'' # r"
    "get_at (currentPath s) (root s) = Some a" "payload a = PArray m'" "map_equal m' m1" "2 * length (x @ more_pieces xs) + 1 \<le> n"
  shows "\<exists>f s' m''. readArray_loop n (int (length m1)) s = Ok (True, s') \<and>
    wrote s (length (x @ more_pieces xs) + 1) f s' \<and> payload (f a) = PArray m'' \<and> map_equal m'' (m1 @ e # m2)"
  using assms
proof (induction m2 arbitrary: e x xs m1 s a m' n)
  case (Nil e x xs m1 s a m' n)
  obtain n' where n: "n = Suc n'" using Nil.prems(10) by (cases n) auto
  have xs: "xs = []" "element_piece read_ok e x" using Nil.prems(1) by simp_all
  have h: "ahead s = x @ CHR '']'' # r" using Nil.prems(6) xs by (simp add: more_pieces_def)
  have "\<exists>a' m'' s'. readArray_loop (Suc n') (int (length m1)) s =
      (if tokenArrayEnd = tokenArrayEnd then Ok (True, s') else readArray_loop n' (int (length (m1 @ [e]))) s') \<and>
    wrote s (length x + 1) (\<lambda>_. a') s' \<and> ahead s' = r \<and> payload a' = PArray m'' \<and> map_equal m'' (m1 @ [e])"
    by (rule array_turn [OF xs(2) _ Nil.prems(3,4,5) h _ _ Nil.prems(7,8,9)]) (use Nil.prems n in \<open>simp_all add: punct_def\<close>)
  then show ?case unfolding n xs(1) more_pieces_def by auto
next
  case (Cons e2 m2 e x xs m1 s a m' n)
  obtain n' where n: "n = Suc n'" using Cons.prems(10) by (cases n) auto
  obtain x2 xs2 where xs: "xs = x2 # xs2" "element_piece read_ok e x" "list_all2 (element_piece read_ok) (e2 # m2) (x2 # xs2)"
    using Cons.prems(1) by (auto simp: list_all2_Cons1)
  have me: "more_pieces xs = CHR '','' # x2 @ more_pieces xs2" by (simp add: xs(1) more_pieces_def)
  have h: "ahead s = x @ CHR '','' # x2 @ more_pieces xs2 @ CHR '']'' # r" using Cons.prems(6) by (simp add: me)
  have "\<exists>a' m'' s'. readArray_loop (Suc n') (int (length m1)) s =
      (if tokenArraySeparator = tokenArrayEnd then Ok (True, s') else readArray_loop n' (int (length (m1 @ [e]))) s') \<and>
    wrote s (length x + 1) (\<lambda>_. a') s' \<and> ahead s' = x2 @ more_pieces xs2 @ CHR '']'' # r \<and> payload a' = PArray m'' \<and> map_equal m'' (m1 @ [e])"
    by (rule array_turn [OF xs(2) _ Cons.prems(3,4,5) h _ _ Cons.prems(7,8,9)]) (use Cons.prems n in \<open>simp_all add: punct_def\<close>)
  then obtain a' m'' s' where t: "readArray_loop n (int (length m1)) s = readArray_loop n' (int (length (m1 @ [e]))) s'"
    "wrote s (length x + 1) (\<lambda>_. a') s'" "ahead s' = x2 @ more_pieces xs2 @ CHR '']'' # r" "payload a' = PArray m''" "map_equal m'' (m1 @ [e])"
    unfolding n by auto
  have "\<exists>f u m3. readArray_loop n' (int (length (m1 @ [e]))) s' = Ok (True, u) \<and>
      wrote s' (length (x2 @ more_pieces xs2) + 1) f u \<and> payload (f a') = PArray m3 \<and> map_equal m3 ((m1 @ [e]) @ e2 # m2)"
  proof (rule Cons.IH [OF xs(3) _ _ _ _ t(3) _ t(4,5)])
    show "get_at (currentPath s') (root s') = Some a'" using wrote_get [OF t(2) Cons.prems(7)] .
  qed (use Cons.prems wrote_simps(3,9) [OF t(2)] n in \<open>simp_all add: me\<close>)
  then obtain f u m3 where u: "readArray_loop n' (int (length (m1 @ [e]))) s' = Ok (True, u)"
      "wrote s' (length (x2 @ more_pieces xs2) + 1) f u" "payload (f a') = PArray m3" "map_equal m3 (m1 @ e # e2 # m2)" by auto
  have "length x + 1 + (length (x2 @ more_pieces xs2) + 1) = length (x @ more_pieces xs) + 1" by (simp add: me)
  then show ?case using t(1) u(1,3,4) wrote_trans [OF t(2) u(2)] by (metis (no_types, lifting))
qed

section \<open>Reading objects\<close>

definition name_keys :: "ObjectValues \<Rightarrow> bool" where
  "name_keys m \<longleftrightarrow> sorted_map m \<and> (\<forall>e \<in> set m. \<exists>k. fst e = CZStr k \<and> length k < 2 ^ 30)"

lemma create_member:
  assumes "payload a = PObject m" "name_keys (m1 @ e # m2)" "map_equal m m1"
  shows "resolveReference (cz_name (fst e)) a = Inr (set_payload (PObject (m @ [(fst e, nullSingleton)])) a)"
    "CZString (cz_name (fst e)) = fst e" "\<forall>x \<in> set m. fst x \<noteq> fst e"
proof -
  obtain k where k: "fst e = CZStr k" "length k < 2 ^ 30" using assms(2) by (auto simp: name_keys_def)
  then show cz: "CZString (cz_name (fst e)) = fst e" by (simp add: CZString_short)
  have lt: "\<forall>x \<in> set m. fst x < fst e"
  proof
    fix x assume "x \<in> set m"
    then have "fst x \<in> set (map fst m1)" using map_equal_keys [OF assms(3)] by (metis image_eqI set_map)
    with assms(2) show "fst x < fst e" by (auto simp: name_keys_def sorted_map_append)
  qed
  then show "\<forall>x \<in> set m. fst x \<noteq> fst e" by auto
  have "type_of a = objectValue" using assms(1) by (simp add: type_of_def)
  then show "resolveReference (cz_name (fst e)) a = Inr (set_payload (PObject (m @ [(fst e, nullSingleton)])) a)"
    using assms(1) emplace_append [OF lt] cz by (simp add: resolveReference_def json_assert_def coerce_def with_map_def)
qed

text \<open>A piece of an object's text: name, colon and value of a member, with white space around them.\<close>

definition member_piece :: "(Value \<Rightarrow> string \<Rightarrow> bool) \<Rightarrow> czstring \<times> Value \<Rightarrow> string \<Rightarrow> bool" where
  "member_piece P e x \<longleftrightarrow> (\<exists>w1 t w2 t' w3. spaces w1 \<and> string_text (cz_name (fst e)) t \<and> spaces w2 \<and> P (snd e) t' \<and> spaces w3 \<and>
     x = w1 @ t @ w2 @ CHR '':'' # t' @ w3)"

text \<open>Name and colon: the reader stands in front of the value.\<close>

lemma member_name:
  assumes "string_text k t" "ahead s = w1 @ t @ w2 @ CHR '':'' # r" "spaces w1" "spaces w2"
  shows "readObject_loop (Suc n) name s = child_body (resolveReference k) (CZString k) tokenObjectEnd (\<lambda>s. readValue n s)
      (comma_body (\<lambda>name s. readObject_loop n name s) k) (adv (length w1 + length t + length w2 + 1) s)"
    "ahead (adv (length w1 + length t + length w2 + 1) s) = r"
proof -
  let ?s1 = "adv (length w1) s"
  let ?s2 = "adv (length t) ?s1"
  have t: "t \<noteq> []" "\<not> is_space (hd t)" using assms(1) by (auto simp: string_text_def is_space_def)
  have h1: "ahead ?s1 = t @ w2 @ CHR '':'' # r" using assms(2) by (simp add: ahead_adv)
  have h2: "ahead ?s2 = w2 @ CHR '':'' # r" using h1 by (rule ahead_adv_append) simp
  note d = decode_name [OF assms(1) h1]
  have n: "readToken s = Ok (True, token tokenString (length t) ?s1, ?s2)"
    using readToken_spaced [OF assms(2,3)] t d(1) by simp
  have v: "decodeString_value (token tokenString (length t) ?s1) ?s2 = Inr k" by (rule d(3)) simp
  note c = read_punct_spaced [OF h2 assms(4), of tokenMemberSeparator]
  have "adv (length w2 + 1) ?s2 = adv (length w1 + length t + length w2 + 1) s" by (simp add: add.assoc)
  with c show "ahead (adv (length w1 + length t + length w2 + 1) s) = r"
    "readObject_loop (Suc n) name s = child_body (resolveReference k) (CZString k) tokenObjectEnd (\<lambda>s. readValue n s)
      (comma_body (\<lambda>name s. readObject_loop n name s) k) (adv (length w1 + length t + length w2 + 1) s)"
    by (simp_all add: object_body_def name_body_def member_body_def punct_def n v [simplified])
qed

lemma object_turn:
  assumes "member_piece read_ok e x" "length (nodes s) + nesting (snd e) \<le> stackLimit_g" "name_keys (m1 @ e # m2)" "reading s"
    "ahead s = x @ c # r" "stops (c # r)" "punct c = Some ty" "get_at (currentPath s) (root s) = Some a" "payload a = PObject m'"
    "map_equal m' m1" "2 * length x \<le> n" "ty = tokenArraySeparator \<or> ty = tokenObjectEnd"
  shows "\<exists>a' m'' s'. readObject_loop (Suc n) name s =
      (if ty = tokenObjectEnd then Ok (True, s') else readObject_loop n (cz_name (fst e)) s') \<and>
    wrote s (length x + 1) (\<lambda>_. a') s' \<and> ahead s' = r \<and> payload a' = PObject m'' \<and> map_equal m'' (m1 @ [e])"
proof -
  let ?k = "cz_name (fst e)" and ?next = "\<lambda>name s. readObject_loop n name s"
  obtain w1 t w2 t' w3 where x: "spaces w1" "string_text ?k t" "spaces w2" "read_ok (snd e) t'" "spaces w3"
    "x = w1 @ t @ w2 @ CHR '':'' # t' @ w3" using assms(1) unfolding member_piece_def by blast
  note cm = create_member [OF assms(9,3,10)]
  have h: "ahead s = w1 @ t @ w2 @ CHR '':'' # t' @ w3 @ c # r" using assms(5) x(6) by simp
  note nm = member_name [OF x(2) h x(1,3)]
  let ?l = "length w1 + length t + length w2 + 1"
  let ?s = "adv ?l s"
  have w: "wrote s ?l (\<lambda>x. x) ?s" by (rule wrote_adv)
  have "\<exists>v s1. child_body (resolveReference ?k) (CZString ?k) tokenObjectEnd (\<lambda>s. readValue n s) (comma_body ?next ?k) ?s = comma_body ?next ?k s1 \<and>
      wrote ?s (length t') (\<lambda>_. set_payload (PObject (m' @ [(CZString ?k, v)])) a) s1 \<and> value_equal v (snd e)"
  proof (rule child_read [OF _ _ _ _ _ x(4) nm(2)])
    show "reading ?s" "length (nodes ?s) + nesting (snd e) \<le> stackLimit_g" using assms(2,4) wrote_simps(9) [OF w] by simp_all
    show "get_at (currentPath ?s) (root ?s) = Some a" using wrote_get [OF w assms(8)] .
  qed (use assms(11) cm x(6) stops_spaces [OF x(5) assms(6)] in simp_all)
  then obtain v s1 where s1: "readObject_loop (Suc n) name s = comma_body ?next ?k s1" "wrote ?s (length t') (\<lambda>_. set_payload (PObject (m' @ [(fst e, v)])) a) s1"
    "value_equal v (snd e)" unfolding nm(1) cm(2) by blast
  have a1: "ahead s1 = w3 @ c # r" using wrote_simps(8) [OF s1(2)] nm(2) by simp
  note p = read_punct_spaced [OF a1 x(5) assms(7)]
  let ?s' = "adv (length w3 + 1) s1"
  have "comma_body ?next ?k s1 = (if ty = tokenObjectEnd then Ok (True, ?s') else readObject_loop n ?k ?s')"
    using p(1) assms(12) by (auto simp: comma_body_def)
  moreover have "wrote s (length x + 1) (\<lambda>_. set_payload (PObject (m' @ [(fst e, v)])) a) ?s'"
    using wrote_trans [OF w wrote_trans [OF s1(2) wrote_adv [of s1 "length w3 + 1"]]] x(6) by (simp add: add.assoc)
  moreover have "map_equal (m' @ [(fst e, v)]) (m1 @ [e])" using map_equal_snoc [OF assms(10) s1(3), of "fst e"] by simp
  ultimately show ?thesis using s1(1) p(2) by fastforce
qed

lemma object_loop:
  assumes "list_all2 (member_piece read_ok) (e # m2) (x # xs)" "\<forall>e \<in> set (e # m2). length (nodes s) + nesting (snd e) \<le> stackLimit_g"
    "name_keys (m1 @ e # m2)" "reading s" "ahead s = x @ more_pieces xs @ CHR ''}'' # r"
    "get_at (currentPath s) (root s) = Some a" "payload a = PObject m'" "map_equal m' m1" "2 * length (x @ more_pieces xs) + 1 \<le> n"
  shows "\<exists>f s' m''. readObject_loop n name s = Ok (True, s') \<and>
    wrote s (length (x @ more_pieces xs) + 1) f s' \<and> payload (f a) = PObject m'' \<and> map_equal m'' (m1 @ e # m2)"
  using assms
proof (induction m2 arbitrary: e x xs m1 s a m' n name)
  case (Nil e x xs m1 s a m' n)
  obtain n' where n: "n = Suc n'" using Nil.prems(9) by (cases n) auto
  have xs: "xs = []" "member_piece read_ok e x" using Nil.prems(1) by simp_all
  have h: "ahead s = x @ CHR ''}'' # r" using Nil.prems(5) xs by (simp add: more_pieces_def)
  have "\<exists>a' m'' s'. readObject_loop (Suc n') name s =
      (if tokenObjectEnd = tokenObjectEnd then Ok (True, s') else readObject_loop n' (cz_name (fst e)) s') \<and>
    wrote s (length x + 1) (\<lambda>_. a') s' \<and> ahead s' = r \<and> payload a' = PObject m'' \<and> map_equal m'' (m1 @ [e])"
    by (rule object_turn [OF xs(2) _ Nil.prems(3,4) h _ _ Nil.prems(6,7,8)]) (use Nil.prems n in \<open>simp_all add: punct_def\<close>)
  then show ?case unfolding n xs(1) more_pieces_def by auto
next
  case (Cons e2 m2 e x xs m1 s a m' n)
  obtain n' where n: "n = Suc n'" using Cons.prems(9) by (cases n) auto
  obtain x2 xs2 where xs: "xs = x2 # xs2" "member_piece read_ok e x" "list_all2 (member_piece read_ok) (e2 # m2) (x2 # xs2)"
    using Cons.prems(1) by (auto simp: list_all2_Cons1)
  have me: "more_pieces xs = CHR '','' # x2 @ more_pieces xs2" by (simp add: xs(1) more_pieces_def)
  have h: "ahead s = x @ CHR '','' # x2 @ more_pieces xs2 @ CHR ''}'' # r" using Cons.prems(5) by (simp add: me)
  have "\<exists>a' m'' s'. readObject_loop (Suc n') name s =
      (if tokenArraySeparator = tokenObjectEnd then Ok (True, s') else readObject_loop n' (cz_name (fst e)) s') \<and>
    wrote s (length x + 1) (\<lambda>_. a') s' \<and> ahead s' = x2 @ more_pieces xs2 @ CHR ''}'' # r \<and> payload a' = PObject m'' \<and> map_equal m'' (m1 @ [e])"
    by (rule object_turn [OF xs(2) _ Cons.prems(3,4) h _ _ Cons.prems(6,7,8)]) (use Cons.prems n in \<open>simp_all add: punct_def\<close>)
  then obtain a' m'' s' where t: "readObject_loop n name s = readObject_loop n' (cz_name (fst e)) s'"
    "wrote s (length x + 1) (\<lambda>_. a') s'" "ahead s' = x2 @ more_pieces xs2 @ CHR ''}'' # r" "payload a' = PObject m''" "map_equal m'' (m1 @ [e])"
    unfolding n by auto
  have "\<exists>f u m3. readObject_loop n' (cz_name (fst e)) s' = Ok (True, u) \<and>
      wrote s' (length (x2 @ more_pieces xs2) + 1) f u \<and> payload (f a') = PObject m3 \<and> map_equal m3 ((m1 @ [e]) @ e2 # m2)"
  proof (rule Cons.IH [OF xs(3) _ _ _ t(3) _ t(4,5)])
    show "get_at (currentPath s') (root s') = Some a'" using wrote_get [OF t(2) Cons.prems(6)] .
  qed (use Cons.prems wrote_simps(3,9) [OF t(2)] n in \<open>simp_all add: me\<close>)
  then obtain f u m3 where u: "readObject_loop n' (cz_name (fst e)) s' = Ok (True, u)"
      "wrote s' (length (x2 @ more_pieces xs2) + 1) f u" "payload (f a') = PObject m3" "map_equal m3 (m1 @ e # e2 # m2)" by auto
  have "length x + 1 + (length (x2 @ more_pieces xs2) + 1) = length (x @ more_pieces xs) + 1" by (simp add: me)
  then show ?case using t(1) u(1,3,4) wrote_trans [OF t(2) u(2)] by (metis (no_types, lifting))
qed

end
