(* ===== verification/Json_Layout.thy ===== *)
theory Json_Layout
  imports Json_Reading
begin

text \<open>
  The texts \<open>Json::Reader\<close> reads a value from: the inductive relation \<open>layout v t\<close> (JSON for \<open>v\<close> with any white space between
  the tokens), and that \<open>parse\<close> accepts every such text and rebuilds the value.
\<close>

section \<open>Whole values\<close>

declare writeValue.simps [simp del]

lemma plain_all_iff: "plain_all m \<longleftrightarrow> (\<forall>e \<in> set m. plain (snd e))"
  by (induction m) auto

lemma nesting_all_ge: "e \<in> set m \<Longrightarrow> nesting (snd e) \<le> nesting_all m"
  by (induction m) (auto simp: le_max_iff_disj)

lemma size_element: "e \<in> set m \<Longrightarrow> size (snd e) < size_list (size_prod (\<lambda>_. 0) size) m"
  by (induction m) (auto simp: less_Suc_eq_le)

lemma digits_start: "starts (dec n @ r)"
proof -
  obtain c cs where c: "dec n = c # cs" using dec_nonempty [of n] by (cases "dec n") blast+
  then have "is_digit c" using dec_digits [of c n] by simp
  with c show ?thesis by (auto simp: starts_def is_digit_def less_eq_char_def is_space_def)
qed

lemma scalar_starts: "scalar_text p t \<Longrightarrow> starts t"
  using digits_start [of _ "[]"] by (cases p)
    (auto simp: scalar_text_def sint_text valueToString_LargestUInt_def uintToString_dec valueToString_bool_def string_text_def,
     auto simp: starts_def is_space_def)

lemma read_ok_scalar:
  assumes "plain_payload p" "scalar_text p t"
  shows "read_ok (Value p c a b) t"
  unfolding read_ok_def
proof (intro conjI allI impI)
  show "\<exists>ws t'. t = ws @ t' \<and> spaces ws \<and> starts t'" using scalar_starts [OF assms(2)] by (metis append_Nil spaces_simps(1))
  fix n s r u
  assume s: "reading s" "ahead s = t @ r" "stops r" "2 * length t \<le> n" "length (nodes s) + nesting (Value p c a b) \<le> Suc stackLimit_g"
  have "t \<noteq> []" using scalar_starts [OF assms(2)] by (simp add: starts_def)
  then obtain k where n: "n = Suc k" using s(4) by (cases n) auto
  have "length (nodes s) \<le> stackLimit_g" using s(5) by (simp add: nesting_payload.simps split: Payload.splits)
  then obtain f s' where f: "value_body (readObject k) (readArray k) s = Ok (True, s')" "wrote s (length t) f s'" "\<forall>u. payload (f u) = p"
    using scalar_read [OF s(1) _ s(2,3) assms] by blast
  have "value_equal x (Value p c a b)" if "payload x = p" for x
    using that assms(2) by (cases p) (simp_all add: value_equal_payload str_equal_eq scalar_text_def)
  then show "\<exists>f s'. readValue n s = Ok (True, s') \<and> wrote s (length t) f s' \<and> value_equal (f u) (Value p c a b)"
    using f n by auto
qed

lemma start_container_wrote:
  "\<exists>f. wrote s 1 f (start_container p (token t 1 s) (adv 1 s)) \<and> (\<forall>u. payload (f u) = p)"
  by (auto simp: wrote_def start_container_def intro!: exI [where x = "\<lambda>v. setOffsetStart (offset s (current s)) (set_payload p v)"])

lemma limit_wrote:
  assumes "wrote s n f t"
  shows "\<exists>g u. bind (limit_here (True, t)) with_result = Ok (Some True, u) \<and> wrote s n g u \<and> (\<forall>x. payload (g x) = payload (f x))"
proof -
  let ?u = "upd_current (setOffsetLimit (offset t (current t))) t"
  have "wrote t 0 (setOffsetLimit (offset t (current t))) ?u" by (simp add: wrote_def)
  from wrote_trans [OF assms this] show ?thesis by (auto simp: limit_here_def with_result_def)
qed

lemma read_container:
  assumes "reading s" "length (nodes s) \<le> stackLimit_g" "ahead s = c # r" "punct c = Some ty" "get_at (currentPath s) (root s) = Some u"
    "ty = tokenArrayBegin \<and> body = ra \<or> ty = tokenObjectBegin \<and> body = ro"
    "body (token ty 1 s) (adv 1 s) = Ok (True, t)" "wrote s n f t"
  shows "\<exists>g t. value_body ro ra s = Ok (True, t) \<and> wrote s n g t \<and> payload (g u) = payload (f u)"
proof -
  obtain g t' where g: "bind (limit_here (True, t)) with_result = Ok (Some True, t')" "wrote s n g t'" "\<forall>x. payload (g x) = payload (f x)"
    using limit_wrote [OF assms(8)] by blast
  have "value_switch ro ra (token ty 1 s) (adv 1 s) = Ok (Some True, t')"
    using assms(6,7) g(1) by (auto simp: value_switch_def)
  then have "value_body ro ra s = Ok (True, t')"
    using assms(1,2,6) wrote_simps(4) [OF g(2)] by (intro value_body_eq [OF read_punct [OF assms(3,4)]]) (auto simp: reading_def)
  with g(2,3) show ?thesis by blast
qed

lemma char_here: "ahead s = c # r \<Longrightarrow> current s \<noteq> end_pos s \<and> doc s ! current s = c"
  unfolding ahead_def end_pos_def by (metis drop_all hd_drop_conv_nth leI list.distinct(1) list.sel(1) order_refl)

text \<open>A list of pieces between brackets; an empty one may hold white space.\<close>

definition bracketed :: "char \<Rightarrow> string \<Rightarrow> string list \<Rightarrow> char \<Rightarrow> string" where
  "bracketed c ws xs d = c # (case xs of [] \<Rightarrow> ws | x # xs \<Rightarrow> x @ more_pieces xs) @ [d]"

lemma bracketed_starts [simp]: "c = CHR ''['' \<or> c = CHR ''{'' \<Longrightarrow> starts (bracketed c ws xs d)"
  by (auto simp: starts_def bracketed_def is_space_def)

lemma readArray_eq:
  assumes "ahead (start_container (PArray []) tk s) = ws @ c # r" "spaces ws" "\<not> is_space c"
  shows "readArray n tk s = (if c = CHR '']'' then bind (readToken (start_container (PArray []) tk s)) (\<lambda>(_, e, s). Ok (True, s))
    else readArray_loop n 0 (start_container (PArray []) tk s))"
proof -
  let ?s = "start_container (PArray []) tk s"
  have k: "skipSpaces ?s = adv (length ws) ?s" using skipSpaces_ahead [OF assms(1,2)] assms(3) by simp
  have "ahead (adv (length ws) ?s) = c # r" using assms(1) by (simp add: ahead_adv)
  from char_here [OF this] have "current (skipSpaces ?s) \<noteq> end_pos (skipSpaces ?s) \<and> doc (skipSpaces ?s) ! current (skipSpaces ?s) = c"
    unfolding k by simp
  then show ?thesis by (simp add: readToken_skipSpaces readArray_loop_skipSpaces)
qed

lemma array_content:
  assumes "reading s" "ahead s = bracketed (CHR ''['') ws xs (CHR '']'') @ r" "spaces ws" "list_all2 (element_piece read_ok) m xs"
    "index_keys 0 m" "length m < 2 ^ 31" "2 * length (bracketed (CHR ''['') ws xs (CHR '']'')) \<le> Suc n"
    "get_at (currentPath s) (root s) = Some u" "\<forall>e \<in> set m. length (nodes s) + nesting (snd e) \<le> stackLimit_g"
  shows "\<exists>f s' m'. readArray n (token tokenArrayBegin 1 s) (adv 1 s) = Ok (True, s') \<and>
    wrote s (length (bracketed (CHR ''['') ws xs (CHR '']''))) f s' \<and> payload (f u) = PArray m' \<and> map_equal m' m"
proof -
  let ?s = "start_container (PArray []) (token tokenArrayBegin 1 s) (adv 1 s)"
  obtain f0 where f0: "wrote s 1 f0 ?s" "payload (f0 u) = PArray []" using start_container_wrote by blast
  have h: "ahead ?s = (case xs of [] \<Rightarrow> ws | x # xs \<Rightarrow> x @ more_pieces xs) @ CHR '']'' # r"
    using wrote_simps(8) [OF f0(1)] assms(2) by (simp add: bracketed_def)
  show ?thesis
  proof (cases m)
    case Nil
    then have xs: "xs = []" using assms(4) by simp
    have h0: "ahead ?s = ws @ CHR '']'' # r" using h xs by simp
    note p = read_punct_spaced(1) [OF h0 assms(3), of tokenArrayEnd]
    have "readArray n (token tokenArrayBegin 1 s) (adv 1 s) = Ok (True, adv (length ws + 1) ?s)"
      using readArray_eq [OF h0 assms(3), of n] p by (simp add: is_space_def punct_def)
    moreover note wrote_trans [OF f0(1) wrote_adv [of ?s "length ws + 1"]]
    moreover have "map_equal [] m" using Nil by simp
    ultimately show ?thesis using f0(2) xs by (auto simp: bracketed_def)
  next
    case (Cons e m2)
    then obtain x xs2 where xs: "xs = x # xs2" "list_all2 (element_piece read_ok) (e # m2) (x # xs2)" "element_piece read_ok e x"
      using assms(4) by (auto simp: list_all2_Cons1)
    have h1: "ahead ?s = x @ more_pieces xs2 @ CHR '']'' # r" using h xs by simp
    obtain w t w' where t: "x = w @ t @ w'" "spaces w" "starts t" using xs(3) unfolding element_piece_def read_ok_def by (metis append_assoc)
    then obtain c r' where c: "ahead ?s = w @ c # r'" "\<not> is_space c" "c \<noteq> CHR '']''"
      using h1 by (cases t) (auto simp: starts_def)
    have "readArray n (token tokenArrayBegin 1 s) (adv 1 s) = readArray_loop n 0 ?s"
      using readArray_eq [OF c(1) t(2) c(2), of n] c(3) by simp
    moreover have "\<exists>f s' m''. readArray_loop n (int (length ([] :: ObjectValues))) ?s = Ok (True, s') \<and>
        wrote ?s (length (x @ more_pieces xs2) + 1) f s' \<and> payload (f (f0 u)) = PArray m'' \<and> map_equal m'' ([] @ e # m2)"
    proof (rule array_loop [OF xs(2)])
      show "get_at (currentPath ?s) (root ?s) = Some (f0 u)" using wrote_get [OF f0(1) assms(8)] .
      show "\<forall>e \<in> set (e # m2). length (nodes ?s) + nesting (snd e) \<le> stackLimit_g" using assms(9) Cons wrote_simps(3) [OF f0(1)] by simp
      show "reading ?s" using assms(1) wrote_simps(9) [OF f0(1)] by simp
    qed (use h1 f0(2) assms(5,6,7) Cons xs(1) in \<open>simp_all add: map_equal_list_all2 bracketed_def\<close>)
    ultimately obtain f s' m'' where f: "readArray n (token tokenArrayBegin 1 s) (adv 1 s) = Ok (True, s')"
      "wrote ?s (length (x @ more_pieces xs2) + 1) f s'" "payload (f (f0 u)) = PArray m''" "map_equal m'' m" using Cons by auto
    moreover have "length (bracketed (CHR ''['') ws xs (CHR '']'')) = 1 + (length (x @ more_pieces xs2) + 1)" by (simp add: bracketed_def xs(1))
    ultimately show ?thesis using wrote_trans [OF f0(1) f(2)] by auto
  qed
qed

lemma object_content:
  assumes "reading s" "ahead s = bracketed (CHR ''{'') ws xs (CHR ''}'') @ r" "spaces ws" "list_all2 (member_piece read_ok) m xs"
    "name_keys m" "2 * length (bracketed (CHR ''{'') ws xs (CHR ''}'')) \<le> Suc n"
    "get_at (currentPath s) (root s) = Some u" "\<forall>e \<in> set m. length (nodes s) + nesting (snd e) \<le> stackLimit_g"
  shows "\<exists>f s' m'. readObject n (token tokenObjectBegin 1 s) (adv 1 s) = Ok (True, s') \<and>
    wrote s (length (bracketed (CHR ''{'') ws xs (CHR ''}''))) f s' \<and> payload (f u) = PObject m' \<and> map_equal m' m"
proof -
  let ?s = "start_container (PObject []) (token tokenObjectBegin 1 s) (adv 1 s)"
  obtain f0 where f0: "wrote s 1 f0 ?s" "payload (f0 u) = PObject []" using start_container_wrote by blast
  have h: "ahead ?s = (case xs of [] \<Rightarrow> ws | x # xs \<Rightarrow> x @ more_pieces xs) @ CHR ''}'' # r"
    using wrote_simps(8) [OF f0(1)] assms(2) by (simp add: bracketed_def)
  show ?thesis
  proof (cases m)
    case Nil
    then have xs: "xs = []" using assms(4) by simp
    have h0: "ahead ?s = ws @ CHR ''}'' # r" using h xs by simp
    note p = read_punct_spaced(1) [OF h0 assms(3), of tokenObjectEnd]
    obtain k where "n = Suc k" using assms(6) by (cases n) (auto simp: bracketed_def)
    then have "readObject n (token tokenObjectBegin 1 s) (adv 1 s) = Ok (True, adv (length ws + 1) ?s)"
      using p by (simp add: object_body_def name_body_def punct_def)
    moreover note wrote_trans [OF f0(1) wrote_adv [of ?s "length ws + 1"]]
    moreover have "map_equal [] m" using Nil by simp
    ultimately show ?thesis using f0(2) xs by (auto simp: bracketed_def)
  next
    case (Cons e m2)
    then obtain x xs2 where xs: "xs = x # xs2" "list_all2 (member_piece read_ok) (e # m2) (x # xs2)"
      using assms(4) by (auto simp: list_all2_Cons1)
    have h1: "ahead ?s = x @ more_pieces xs2 @ CHR ''}'' # r" using h xs by simp
    have "\<exists>f s' m''. readObject_loop n [] ?s = Ok (True, s') \<and>
        wrote ?s (length (x @ more_pieces xs2) + 1) f s' \<and> payload (f (f0 u)) = PObject m'' \<and> map_equal m'' ([] @ e # m2)"
    proof (rule object_loop [OF xs(2)])
      show "get_at (currentPath ?s) (root ?s) = Some (f0 u)" using wrote_get [OF f0(1) assms(7)] .
      show "\<forall>e \<in> set (e # m2). length (nodes ?s) + nesting (snd e) \<le> stackLimit_g" using assms(8) Cons wrote_simps(3) [OF f0(1)] by simp
      show "reading ?s" using assms(1) wrote_simps(9) [OF f0(1)] by simp
    qed (use h1 f0(2) assms(5,6) Cons xs(1) in \<open>simp_all add: map_equal_list_all2 bracketed_def\<close>)
    then obtain f s' m'' where f: "readObject n (token tokenObjectBegin 1 s) (adv 1 s) = Ok (True, s')"
      "wrote ?s (length (x @ more_pieces xs2) + 1) f s'" "payload (f (f0 u)) = PObject m''" "map_equal m'' m" using Cons by auto
    moreover have "length (bracketed (CHR ''{'') ws xs (CHR ''}'')) = 1 + (length (x @ more_pieces xs2) + 1)" by (simp add: bracketed_def xs(1))
    ultimately show ?thesis using wrote_trans [OF f0(1) f(2)] by auto
  qed
qed

text \<open>Both containers: the opening bracket is read by \<open>readValue\<close>, the rest by \<open>body\<close>.\<close>

lemma read_ok_container:
  assumes "c = CHR ''['' \<and> ty = tokenArrayBegin \<or> c = CHR ''{'' \<and> ty = tokenObjectBegin"
    "\<And>n s r u. reading s \<Longrightarrow> ahead s = bracketed c ws xs d @ r \<Longrightarrow> 2 * length (bracketed c ws xs d) \<le> Suc n \<Longrightarrow>
       length (nodes s) + nesting v \<le> Suc stackLimit_g \<Longrightarrow> get_at (currentPath s) (root s) = Some u \<Longrightarrow>
       \<exists>f s'. (if c = CHR ''['' then readArray else readObject) n (token ty 1 s) (adv 1 s) = Ok (True, s') \<and>
         wrote s (length (bracketed c ws xs d)) f s' \<and> payload_equal (payload (f u)) (payload v)"
  shows "read_ok v (bracketed c ws xs d)"
  unfolding read_ok_def
proof (intro conjI allI impI)
  let ?t = "bracketed c ws xs d"
  have "starts ?t" using assms(1) by auto
  then show "\<exists>ws t'. ?t = ws @ t' \<and> spaces ws \<and> starts t'" by (metis append_Nil spaces_simps(1))
  fix n s r u
  assume s: "reading s" "ahead s = ?t @ r" "2 * length ?t \<le> n" "length (nodes s) + nesting v \<le> Suc stackLimit_g"
    "get_at (currentPath s) (root s) = Some u"
  obtain k where n: "n = Suc k" using s(3) by (cases n) (auto simp: bracketed_def)
  obtain f s' where f: "(if c = CHR ''['' then readArray else readObject) k (token ty 1 s) (adv 1 s) = Ok (True, s')"
    "wrote s (length ?t) f s'" "payload_equal (payload (f u)) (payload v)"
    using assms(2) [OF s(1,2) s(3) [unfolded n] s(4,5)] by blast
  have "1 \<le> nesting v" by (cases v) (simp add: nesting_payload.simps split: Payload.split)
  then have nodes: "length (nodes s) \<le> stackLimit_g" using s(4) by simp
  have h: "ahead s = c # tl (ahead s)" using s(2) by (simp add: bracketed_def)
  have b: "\<exists>g t'. value_body (readObject k) (readArray k) s = Ok (True, t') \<and> wrote s (length ?t) g t' \<and> payload (g u) = payload (f u)"
  proof (cases "c = CHR ''[''")
    case True
    then show ?thesis using f(1) assms(1)
      by (intro read_container [where body = "readArray k" and ty = ty, OF s(1) nodes h _ s(5) _ _ f(2)]) (auto simp: punct_def)
  next
    case False
    then show ?thesis using f(1) assms(1)
      by (intro read_container [where body = "readObject k" and ty = ty, OF s(1) nodes h _ s(5) _ _ f(2)]) (auto simp: punct_def)
  qed
  then show "\<exists>f s'. readValue n s = Ok (True, s') \<and> wrote s (length ?t) f s' \<and> value_equal (f u) v"
    using f(3) unfolding n value_equal_payload by (metis readValue.simps(2))
qed

lemma read_ok_array:
  assumes "spaces ws" "list_all2 (element_piece read_ok) m xs" "index_keys 0 m" "length m < 2 ^ 31"
  shows "read_ok (Value (PArray m) c a b) (bracketed (CHR ''['') ws xs (CHR '']''))"
proof (rule read_ok_container)
  fix n s r u
  assume s: "reading s" "ahead s = bracketed (CHR ''['') ws xs (CHR '']'') @ r" "2 * length (bracketed (CHR ''['') ws xs (CHR '']'')) \<le> Suc n"
    "length (nodes s) + nesting (Value (PArray m) c a b) \<le> Suc stackLimit_g" "get_at (currentPath s) (root s) = Some u"
  have "\<forall>e \<in> set m. length (nodes s) + nesting (snd e) \<le> stackLimit_g"
    using s(4) nesting_all_ge by (fastforce simp: nesting_payload.simps)
  from array_content [OF s(1,2) assms s(3,5) this] map_equal_length
  show "\<exists>f s'. (if CHR ''['' = CHR ''['' then readArray else readObject) n (token tokenArrayBegin 1 s) (adv 1 s) = Ok (True, s') \<and>
      wrote s (length (bracketed (CHR ''['') ws xs (CHR '']''))) f s' \<and> payload_equal (payload (f u)) (payload (Value (PArray m) c a b))"
    by fastforce
qed simp

lemma read_ok_object:
  assumes "spaces ws" "list_all2 (member_piece read_ok) m xs" "name_keys m"
  shows "read_ok (Value (PObject m) c a b) (bracketed (CHR ''{'') ws xs (CHR ''}''))"
proof (rule read_ok_container)
  fix n s r u
  assume s: "reading s" "ahead s = bracketed (CHR ''{'') ws xs (CHR ''}'') @ r" "2 * length (bracketed (CHR ''{'') ws xs (CHR ''}'')) \<le> Suc n"
    "length (nodes s) + nesting (Value (PObject m) c a b) \<le> Suc stackLimit_g" "get_at (currentPath s) (root s) = Some u"
  have "\<forall>e \<in> set m. length (nodes s) + nesting (snd e) \<le> stackLimit_g"
    using s(4) nesting_all_ge by (fastforce simp: nesting_payload.simps)
  from object_content [OF s(1,2) assms s(3,5) this] map_equal_length
  show "\<exists>f s'. (if CHR ''{'' = CHR ''['' then readArray else readObject) n (token tokenObjectBegin 1 s) (adv 1 s) = Ok (True, s') \<and>
      wrote s (length (bracketed (CHR ''{'') ws xs (CHR ''}''))) f s' \<and> payload_equal (payload (f u)) (payload (Value (PObject m) c a b))"
    by fastforce
qed simp

section \<open>Layouts\<close>

text \<open>
  \<open>layout v t\<close>: the text \<open>t\<close> is JSON for \<open>v\<close>, with any white space in front of its tokens and with its strings quoted in
  any way the decoder resolves.
\<close>

lemma piece_mono [mono]:
  "(\<And>v t. P v t \<longrightarrow> Q v t) \<Longrightarrow> element_piece P e x \<longrightarrow> element_piece Q e x"
  "(\<And>v t. P v t \<longrightarrow> Q v t) \<Longrightarrow> member_piece P e x \<longrightarrow> member_piece Q e x"
  unfolding element_piece_def member_piece_def by blast+

inductive layout :: "Value \<Rightarrow> string \<Rightarrow> bool" where
  layout_scalar: "spaces ws \<Longrightarrow> scalar_text p t \<Longrightarrow> layout (Value p c a b) (ws @ t)"
| layout_array: "spaces ws \<Longrightarrow> spaces ws' \<Longrightarrow> list_all2 (element_piece layout) m xs \<Longrightarrow>
    layout (Value (PArray m) c a b) (ws @ bracketed (CHR ''['') ws' xs (CHR '']''))"
| layout_object: "spaces ws \<Longrightarrow> spaces ws' \<Longrightarrow> list_all2 (member_piece layout) m xs \<Longrightarrow>
    layout (Value (PObject m) c a b) (ws @ bracketed (CHR ''{'') ws' xs (CHR ''}''))"

lemma list_all2_piece:
  assumes "list_all2 P m xs" "\<And>e x. e \<in> set m \<Longrightarrow> P e x \<Longrightarrow> Q e x"
  shows "list_all2 Q m xs"
  using assms by (induction m xs rule: list_induct2') auto

lemma layout_read: "layout v t \<Longrightarrow> plain v \<Longrightarrow> read_ok v t"
proof (induction rule: layout.induct)
  case (layout_scalar ws p t c a b)
  then show ?case using read_ok_scalar scalar_starts by (intro read_ok_spaced) simp_all
next
  case (layout_array ws ws' m xs c a b)
  have "list_all2 (element_piece read_ok) m xs"
    by (rule list_all2_piece [OF layout_array(3)])
      (use layout_array(4) in \<open>auto simp: element_piece_def plain_payload.simps plain_all_iff\<close>)
  moreover have "index_keys 0 m" "length m < 2 ^ 31" using layout_array(4) by (simp_all add: plain_payload.simps index_keys_def)
  ultimately show ?case using layout_array(1,2) by (intro read_ok_spaced read_ok_array) simp_all
next
  case (layout_object ws ws' m xs c a b)
  have "\<forall>e \<in> set m. plain (snd e)" using layout_object(4) by (simp add: plain_payload.simps plain_all_iff)
  then have "list_all2 (member_piece read_ok) m xs"
    by (intro list_all2_piece [OF layout_object(3)]) (unfold member_piece_def, blast)
  moreover have "name_keys m" using layout_object(4) by (auto simp: plain_payload.simps name_keys_def)
  ultimately show ?case using layout_object(1,2) by (intro read_ok_spaced read_ok_object) simp_all
qed

lemma skip_to_end:
  assumes "spaces (ahead s)" "current s \<le> length (doc s)"
  shows "\<exists>tk s'. skipCommentTokens s = Ok (tk, s') \<and> root s' = root s \<and> errors s' = errors s \<and> features s' = features s \<and>
    collectComments s' = collectComments s"
proof -
  have "takeWhile is_space (ahead s) = ahead s" using assms(1) by (simp add: spaces_def list_all_iff)
  moreover have "length (doc s) = current s + length (ahead s)" using assms(2) by (simp add: ahead_def)
  ultimately have "skip_from is_space (doc s) (current s) = length (doc s)" unfolding skip_from_def ahead_def [symmetric] by (simp only:)
  then have "getNextChar (skipSpaces s) = (NUL, skipSpaces s)" by (simp add: getNextChar_def skipSpaces_def end_pos_def)
  then have "readToken s = tok tokenEndOfStream (current (skipSpaces s)) True (skipSpaces s)"
    by (simp add: readToken_def Let_def is_digit_def less_eq_char_def)
  then have "skipCommentTokens s = Ok (\<lparr>t_type = tokenEndOfStream, t_start = current (skipSpaces s), t_end = current (skipSpaces s)\<rparr>, skipSpaces s)"
    by (intro skipCommentTokens_eq) (simp_all add: tok_def)
  then show ?thesis by (auto simp: skipSpaces_def)
qed

lemma parse_layout:
  assumes "layout v t" "plain v" "nesting v \<le> stackLimit_g" "spaces ws" "length (t @ ws) \<le> 2147483642" "\<not> strictRoot (features rd)"
  shows "\<exists>s. parse (t @ ws) u False rd = Ok (True, s) \<and> good s \<and> value_equal (root s) v"
proof -
  let ?d = "t @ ws"
  let ?s = "init_parse ?d u False rd"
  have s: "reading ?s" "ahead ?s = t @ ws" "get_at (currentPath ?s) (root ?s) = Some u" "length (nodes ?s) = 1"
    using assms(5) by (simp_all add: reading_def init_parse_def ahead_def currentPath_def)
  have l: "stops ws" "2 * length t \<le> parse_fuel ?d" "length (nodes ?s) + nesting v \<le> Suc stackLimit_g"
    using assms(3,4) s(4) stops_spaces [of ws "[]"] by (simp_all add: parse_fuel_def)
  obtain f s1 where t: "readValue (parse_fuel ?d) ?s = Ok (True, s1)" "wrote ?s (length t) f s1" "value_equal (f u) v"
    using layout_read [OF assms(1,2)] s(1,2) l s(3) unfolding read_ok_def by blast
  have at: "ahead s1 = ws" using wrote_simps(8) [OF t(2)] s(2) by simp
  have ct: "current s1 \<le> length (doc s1)" using wrote_simps(1,2) [OF t(2)] by (simp add: init_parse_def)
  obtain tk s' where s': "skipCommentTokens s1 = Ok (tk, s')" "root s' = root s1" "errors s' = errors s1" "features s' = features s1"
    "collectComments s' = collectComments s1" using skip_to_end [of s1] at ct assms(4) by auto
  have "root s1 = f u" using wrote_simps(7) [OF t(2)] by (simp add: init_parse_def currentPath_def)
  moreover have "errors s1 = []" using t(2) by (simp add: wrote_def upd_current_def adv_def init_parse_def)
  moreover have "collectComments s1 = False" "features s1 = features rd" using wrote_simps(4,5) [OF t(2)] by (simp_all add: init_parse_def)
  ultimately show ?thesis using t s' assms(6) by (simp add: parse_def parse_loop_def good_def)
qed

end
