(* ===== verification/Json_Roundtrip.thy ===== *)
theory Json_Roundtrip
  imports Json_Layout
begin

text \<open>
  \<open>Json::Reader\<close> reads back what \<open>Json::FastWriter\<close> wrote: the text of the writer is a layout of the value.
\<close>

section \<open>The text of the writer\<close>

lemma map_find_split: "\<forall>x \<in> set m1. fst x \<noteq> fst e \<Longrightarrow> map_find (fst e) (m1 @ e # m2) = Some (snd e)"
  by (induction m1) (cases e; auto)+

lemma index_keys_fresh:
  assumes "index_keys 0 m" "length m < 2 ^ 32"
  shows "\<forall>x \<in> set m. fst x \<noteq> CZIndex (idx (length m))"
proof
  fix x assume "x \<in> set m"
  then have "fst x \<in> set (map fst m)" by simp
  then have "fst x \<in> set (map (CZIndex \<circ> idx) [0..<length m])" using assms(1) unfolding index_keys_def by (simp only: add_0)
  then obtain i where "i < length m" "fst x = CZIndex (idx i)" by auto
  then show "fst x \<noteq> CZIndex (idx (length m))" using assms(2) by (metis czstring.inject(1) less_irrefl less_trans unat_idx)
qed

lemma write_element:
  assumes "index_keys 0 (m1 @ e # m2)" "length (m1 @ e # m2) < 2 ^ 32"
  shows "write_elements w (m1 @ e # m2) (map idx [length m1..<length (m1 @ e # m2)]) =
    (if m1 \<noteq> [] then '','' else []) @ writeValue w (snd e) @
    write_elements w (m1 @ e # m2) (map idx [Suc (length m1)..<length (m1 @ e # m2)])"
proof -
  have k: "fst e = CZIndex (idx (length m1))" "index_keys 0 m1" using index_keys_split [OF assms(1)] by simp_all
  then have "map_find (CZIndex (idx (length m1))) (m1 @ e # m2) = Some (snd e)"
    using map_find_split [of m1 e m2] index_keys_fresh [OF k(2)] assms(2) by simp
  moreover have "idx (length m1) > 0 \<longleftrightarrow> m1 \<noteq> []" using assms(2) by (simp add: word_less_nat_alt unat_idx)
  ultimately show ?thesis by (simp add: upt_conv_Cons del: upt_Suc)
qed

lemma written_elements:
  "index_keys 0 (m1 @ m2) \<Longrightarrow> length (m1 @ m2) < 2 ^ 32 \<Longrightarrow> m1 \<noteq> [] \<Longrightarrow>
     write_elements w (m1 @ m2) (map idx [length m1..<length (m1 @ m2)]) = more_pieces (map (\<lambda>e. writeValue w (snd e)) m2)"
proof (induction m2 arbitrary: m1)
  case (Cons e m2)
  have "write_elements w ((m1 @ [e]) @ m2) (map idx [length (m1 @ [e])..<length ((m1 @ [e]) @ m2)]) = more_pieces (map (\<lambda>e. writeValue w (snd e)) m2)"
    using Cons.prems by (intro Cons.IH) simp_all
  then show ?case using write_element [OF Cons.prems(1,2)] Cons.prems(3) by (simp add: more_pieces_def comp_def del: upt_Suc)
qed (simp add: more_pieces_def)

lemma array_size:
  assumes "index_keys 0 m"
  shows "value_size (Value (PArray m) c a b) = idx (length m)"
proof (cases "m = []")
  case False
  have "last (map fst m) = last (map (CZIndex \<circ> idx) [0..<length m])" using assms by (simp add: index_keys_def)
  then have "fst (last m) = CZIndex (idx (length m - 1))" using False by (simp add: last_map)
  then show ?thesis using False by (simp add: value_size_def idx_Suc)
qed (simp add: value_size_def idx_def)

lemma written_array:
  assumes "index_keys 0 m" "length m < 2 ^ 31"
  shows "writeValue w (Value (PArray m) c a b) =
    bracketed (CHR ''['') [] (map (\<lambda>e. writeValue w (snd e)) m) (CHR '']'')"
proof (cases m)
  case (Cons e m2)
  have r: "index_range 0 (value_size (Value (PArray m) c a b)) = map idx [0..<length m]"
    using array_size [OF assms(1)] assms(2) by (simp add: index_range_def unat_idx)
  have "write_elements w m (map idx [0..<length m]) = writeValue w (snd e) @ more_pieces (map (\<lambda>e. writeValue w (snd e)) m2)"
    using write_element [of "[]" e m2 w] written_elements [of "[e]" m2 w] assms Cons by (simp del: upt_Suc)
  then show ?thesis unfolding writeValue.simps Payload.case r using Cons by (simp add: bracketed_def)
qed (simp add: value_size_def index_range_def bracketed_def writeValue.simps)

definition member_text :: "FastWriter \<Rightarrow> czstring \<times> Value \<Rightarrow> string" where
  "member_text w e = valueToQuotedStringN (cz_name (fst e)) False @ CHR '':'' # writeValue w (snd e)"

lemma written_members:
  "name_keys (m1 @ m2) \<Longrightarrow> compact_json w \<Longrightarrow> write_members w (m1 @ m2) first (map (cz_name \<circ> fst) m2) =
     (case m2 of [] \<Rightarrow> [] | e # m3 \<Rightarrow> (if first then [] else '','') @ member_text w e @ more_pieces (map (member_text w) m3))"
proof (induction m2 arbitrary: m1 first)
  case (Cons e m2)
  obtain k where k: "fst e = CZStr k" "length k < 2 ^ 30" using Cons.prems(1) by (auto simp: name_keys_def)
  have "\<forall>x \<in> set m1. fst x \<noteq> fst e" using Cons.prems(1) by (auto simp: name_keys_def sorted_map_append)
  then have "map_find (CZString (cz_name (fst e))) (m1 @ e # m2) = Some (snd e)"
    using map_find_split [of m1 e m2] k by (simp add: CZString_short)
  moreover have "write_members w ((m1 @ [e]) @ m2) False (map (cz_name \<circ> fst) m2) = more_pieces (map (member_text w) m2)"
    by (subst Cons.IH) (use Cons.prems in \<open>simp_all add: more_pieces_def split: list.split\<close>)
  ultimately show ?case using Cons.prems(2) by (simp add: member_text_def compact_json_def comp_def)
qed simp

lemma written_object:
  assumes "name_keys m" "compact_json w"
  shows "writeValue w (Value (PObject m) c a b) =
    bracketed (CHR ''{'') [] (map (member_text w) m) (CHR ''}'')"
  using written_members [of "[]" m w True] assms by (simp add: bracketed_def writeValue.simps split: list.splits)

lemma element_piece_self: "P (snd e) t \<Longrightarrow> element_piece P e t"
  unfolding element_piece_def by (metis append_Nil2 spaces_simps(1))

lemma fast_layout:
  assumes "plain v" "compact_json w"
  shows "layout v (writeValue w v)"
  using assms(1)
proof (induction "size v" arbitrary: v rule: less_induct)
  case less
  obtain p c a b where v: "v = Value p c a b" by (cases v)
  have pl: "plain_payload p" using less.prems v by simp
  have children: "layout (snd e) (writeValue w (snd e))" if "p = PArray m \<or> p = PObject m" "e \<in> set m" for e m
  proof (rule less.hyps)
    show "plain (snd e)" using pl that by (auto simp: plain_payload.simps plain_all_iff)
    show "size (snd e) < size v" using size_element [OF that(2)] that(1) v by auto
  qed
  show ?case
  proof (cases "\<exists>m. p = PArray m \<or> p = PObject m")
    case True
    then obtain m where m: "p = PArray m \<or> p = PObject m" by blast
    then show ?thesis
    proof
      assume p: "p = PArray m"
      have "list_all2 (element_piece layout) m (map (\<lambda>e. writeValue w (snd e)) m)"
        using children [OF m] element_piece_self by (auto simp: list_all2_map2 intro!: list.rel_refl_strong)
      moreover have "index_keys 0 m" "length m < 2 ^ 31" using pl p by (simp_all add: plain_payload.simps index_keys_def)
      ultimately show ?thesis using layout_array [of "[]" "[]"] written_array v p by simp
    next
      assume p: "p = PObject m"
      have k: "name_keys m" "\<forall>e \<in> set m. utf8 (cz_name (fst e))" using pl p by (auto simp: plain_payload.simps name_keys_def)
      have "member_piece layout e (member_text w e)" if "e \<in> set m" for e
        unfolding member_piece_def member_text_def
        using children [OF m that] quoted_string_text k(2) that by (intro exI [where x = "[]"] exI conjI) auto
      then have "list_all2 (member_piece layout) m (map (member_text w) m)"
        by (auto simp: list_all2_map2 intro!: list.rel_refl_strong)
      then show ?thesis using layout_object [of "[]" "[]"] written_object [OF k(1) assms(2)] v p by simp
    qed
  next
    case False
    have "scalar_text p (writeValue w v)"
      using False pl assms(2) quoted_string_text
      by (cases p) (auto simp: scalar_text_def v writeValue.simps write_null_def compact_json_def plain_payload.simps)
    then show ?thesis using layout_scalar [of "[]"] v by simp
  qed
qed

lemma compact_default: "compact_json FastWriter_default"
  by (simp add: compact_json_def FastWriter_default_def)

lemma parse_written:
  assumes "plain v" "compact_json w" "nesting v \<le> stackLimit_g" "length (FastWriter_write w v) \<le> 2147483642" "\<not> strictRoot (features rd)"
  shows "\<exists>s. parse (FastWriter_write w v) u False rd = Ok (True, s) \<and> good s \<and> value_equal (root s) v"
proof -
  let ?ws = "if omitEndingLineFeed w then [] else [CHR 0x0A]"
  have "spaces ?ws" by (simp add: is_space_def)
  with parse_layout [OF fast_layout [OF assms(1,2)] assms(1,3) this, of rd u] assms(4,5)
  show ?thesis by (simp add: FastWriter_write_def split: if_splits)
qed

section \<open>Written documents as C strings\<close>

lemma printable_dec: "list_all printable (dec n)"
  using dec_all_digits [of n] by (auto simp: list_all_iff is_digit_def less_eq_char_def printable_def)

lemma found_plain: "\<forall>e \<in> set m. plain (snd e) \<Longrightarrow> map_find k m = Some x \<Longrightarrow> plain x"
  using map_find_Some_in by fastforce

lemma printable_written:
  "plain v \<Longrightarrow> list_all printable (writeValue w v)"
  "\<forall>e \<in> set m. plain (snd e) \<Longrightarrow> list_all printable (write_elements w m is)"
  "\<forall>e \<in> set m. plain (snd e) \<Longrightarrow> list_all printable (write_members w m b names)"
proof (induction w v and w m "is" and w m b names rule: writeValue_write_elements_write_members.induct)
  case (1 w p c a b)
  have s: "list_all printable (write_null w)" "list_all printable (valueToString_bool x)" for x
    by (simp_all add: write_null_def valueToString_bool_def)
  show ?case using 1 s printable_quoted printable_dec
    by (cases p) (auto simp: writeValue.simps plain_payload.simps plain_all_iff sint_text valueToString_LargestUInt_def uintToString_dec)
next
  case (3 w m index "is")
  then show ?case by (auto simp: write_null_def split: option.split dest: found_plain)
next
  case (5 w m first name names)
  then show ?case using printable_quoted by (auto simp: write_null_def split: option.split dest: found_plain)
qed simp_all

lemma written_cstr:
  assumes "plain v"
  shows "cstr (FastWriter_write w v) = FastWriter_write w v"
proof (rule cstr_id)
  show "NUL \<notin> set (FastWriter_write w v)"
    using printable_written(1) [OF assms, of w] by (auto simp: FastWriter_write_def list_all_iff printable_def)
qed

section \<open>The round trip\<close>

text \<open>
  C6. \<open>Json::Reader::parse\<close> accepts every document \<open>Json::FastWriter::write\<close> produces for a value without reals (integers
  typed as the parser types them, UTF-8 strings, arrays without gaps, fewer nested levels than the stack limit) and
  builds a value equal to it, whatever the escapes in its strings and names.
\<close>

theorem parse_reads_written_value:
  assumes "plain v" "compact_json w" "nesting v \<le> stackLimit_g" "length (FastWriter_write w v) \<le> 2147483642" "\<not> strictRoot (features rd)"
  shows "\<exists>s. parse (FastWriter_write w v) u False rd = Ok (True, s) \<and> good s \<and> value_equal (root s) v"
  using assms by (rule parse_written)

text \<open>A document with a name that sorts, an escaped line feed and a nested array.\<close>

definition demo_document :: Value where
  "demo_document = initBasic (PObject
     [(CZStr ''city'', initBasic (PString (''San'' @ [CHR 0x0A] @ ''Juan''))),
      (CZStr ''data'', initBasic (PArray [(CZIndex 0, initBasic (PInt (- 5))), (CZIndex 1, initBasic PNull), (CZIndex 2, initBasic (PBool True))]))])"

lemma demo_document_ok:
  "plain demo_document" "nesting demo_document = 3"
  "length (FastWriter_write FastWriter_default demo_document) = 43"
  subgoal
  proof -
    have "[0..<3] = [0, 1, 2 :: nat]" by (simp add: upt_rec)
    moreover have "utf8 ''city''" "utf8 ''data''" "utf8 (''San'' @ [CHR 0x0A] @ ''Juan'')" by (simp_all add: utf8_ascii)
    moreover have "sorted_map [(CZStr ''city'', a), (CZStr ''data'', b :: Value)]" for a b by (simp add: sorted_map_def)
    ultimately show ?thesis by (simp add: demo_document_def initBasic_def plain_payload.simps idx_def)
  qed
  subgoal by (simp add: demo_document_def initBasic_def nesting_payload.simps)
  subgoal by code_simp
  done

theorem parse_reads_written_value_witness:
  "\<exists>s. parse (FastWriter_write FastWriter_default demo_document) nullSingleton False (new_reader Features_all) = Ok (True, s) \<and>
    good s \<and> value_equal (root s) demo_document"
  by (rule parse_reads_written_value)
    (simp_all add: demo_document_ok compact_default stackLimit_g_def new_reader_def Features_all_def)

end
