(* ===== verification/Firebase_Store.thy ===== *)
theory Firebase_Store
  imports Firebase_Props Json_Roundtrip
begin

text \<open>
  The database behind the HTTP client, seen as a store of documents: what a \<open>PUT\<close> of \<open>RTDB::putData\<close> leaves there
  and what a \<open>GET\<close> of \<open>RTDB::getData\<close> brings back.
\<close>

text \<open>
  Hypotheses on the code outside the repository. \<open>records_request\<close>: the setters of the HTTP client fill in the next
  request (URL, method, body) and change no document. \<open>keeps_documents\<close>: in addition a \<open>PUT\<close> answered with 200 stores its
  body under the URL, and a \<open>GET\<close> of a stored document is answered with its text, in any chunks.
\<close>

definition records_request :: "'w http_api \<Rightarrow> nat \<Rightarrow> ('w \<Rightarrow> string \<times> http_method \<times> string) \<Rightarrow> ('w \<Rightarrow> string \<rightharpoonup> string) \<Rightarrow> bool" where
  "records_request api h req docs \<longleftrightarrow>
    (\<forall>u w. req (http_set_url api h u w) = (u, snd (req w)) \<and> docs (http_set_url api h u w) = docs w) \<and>
    (\<forall>m w. req (http_set_method api h m w) = (fst (req w), m, snd (snd (req w))) \<and> docs (http_set_method api h m w) = docs w) \<and>
    (\<forall>d w. req (http_set_post_field api h d w) = (fst (req w), fst (snd (req w)), d) \<and> docs (http_set_post_field api h d w) = docs w) \<and>
    (\<forall>k x w. req (http_set_header api h k x w) = req w \<and> docs (http_set_header api h k x w) = docs w) \<and>
    (\<forall>w. docs (http_close api h w) = docs w)"

definition keeps_documents :: "'w http_api \<Rightarrow> nat \<Rightarrow> ('w \<Rightarrow> string \<times> http_method \<times> string) \<Rightarrow> ('w \<Rightarrow> string \<rightharpoonup> string) \<Rightarrow> bool" where
  "keeps_documents api h req docs \<longleftrightarrow> records_request api h req docs \<and>
    (\<forall>w u d. req w = (u, METHOD_PUT, d) \<longrightarrow> (\<exists>es w'. replies api h w es w' \<and> docs w' = (docs w)(u \<mapsto> d))) \<and>
    (\<forall>w u d body. req w = (u, METHOD_GET, d) \<and> docs w u = Some body \<longrightarrow>
       (\<exists>es w'. replies api h w es w' \<and> docs w' = docs w \<and> concat (concat (map data_of es)) = body))"

text \<open>A server of this kind: the world is the pending request and the documents.\<close>

definition demo_store :: "((string \<times> http_method \<times> string) \<times> (string \<rightharpoonup> string)) http_api" where
  "demo_store = \<lparr>http_client_init = \<lambda>u w. (Some 1, w), http_set_url = \<lambda>h u (r, d). ((u, snd r), d),
     http_set_method = \<lambda>h m (r, d). ((fst r, m, snd (snd r)), d), http_set_post_field = \<lambda>h b (r, d). ((fst r, fst (snd r), b), d),
     http_set_header = \<lambda>h k v w. w, http_set_timeout_ms = \<lambda>h t w. w,
     http_perform = \<lambda>h (r, d). (case r of
        (u, METHOD_PUT, b) \<Rightarrow> ((ESP_OK, [ON_CONNECTED, ON_DATA b, ON_FINISH]), r, d(u \<mapsto> b))
      | (u, _, b) \<Rightarrow> ((ESP_OK, [ON_CONNECTED, ON_DATA (case d u of None \<Rightarrow> ''null'' | Some b \<Rightarrow> b), ON_FINISH]), r, d)),
     http_get_status_code = \<lambda>h w. 200, http_close = \<lambda>h w. w, http_cleanup = \<lambda>h w. w, get_time = \<lambda>w. (1000, w)\<rparr>"

lemma demo_store_keeps: "keeps_documents demo_store 1 fst snd"
  by (auto simp: keeps_documents_def records_request_def replies_def demo_store_def mid_reply_def intro!: exI [where x = "[ON_DATA _]"] split: prod.splits)

lemma request_recorded:
  assumes "records_request api h req docs"
  shows "req (prepare_body api h m d (http_set_method api h m (http_set_url api h u w))) = (u, m, if has_body m then d else [])"
    "docs (prepare_body api h m d (http_set_method api h m (http_set_url api h u w))) = docs w"
    "docs (http_set_header api h k x w) = docs w" "docs (http_close api h w) = docs w"
  using assms by (simp_all add: records_request_def prepare_body_def)

lemma keeps_put: "keeps_documents api h req docs \<Longrightarrow> req w = (u, METHOD_PUT, d) \<Longrightarrow> \<exists>es w'. replies api h w es w' \<and> docs w' = (docs w)(u \<mapsto> d)"
  by (simp add: keeps_documents_def)

lemma keeps_get:
  "keeps_documents api h req docs \<Longrightarrow> req w = (u, METHOD_GET, d) \<Longrightarrow> docs w u = Some body \<Longrightarrow>
     \<exists>es w'. replies api h w es w' \<and> docs w' = docs w \<and> concat (concat (map data_of es)) = body"
  by (simp add: keeps_documents_def)

lemma put_stores:
  assumes "keeps_documents api h req docs" "app_ok a" "client_handler a" "client a = Some h"
  shows "\<exists>a' w'. putData api base path d (a, w) = Ok (ESP_OK, a', w') \<and> app_ready a' \<and> client_handler a' \<and> client a' = Some h \<and>
    auth_token a' = auth_token a \<and> docs w' = (docs w)(cstr (data_url base path a) \<mapsto> d)"
proof -
  let ?u = "data_url base path a" and ?w = "http_set_header api h ''content-type'' ''application/json'' w"
  let ?r = "prepare_body api h METHOD_PUT d (http_set_method api h METHOD_PUT (http_set_url api h (cstr ?u) ?w))"
  have k: "records_request api h req docs" using assms(1) by (simp add: keeps_documents_def)
  have r: "req ?r = (cstr ?u, METHOD_PUT, d)" "docs ?r = docs w" by (simp_all add: request_recorded [OF k] has_body_def)
  obtain es w' where p: "replies api h ?r es w'" "docs w' = (docs w)(cstr ?u \<mapsto> d)"
    using keeps_put [OF assms(1), OF r(1)] unfolding r(2) by blast
  obtain buf where buf: "performRequest api ?u METHOD_PUT d (a, ?w) = Ok ((ESP_OK, 200), a\<lparr>recv_state := (buf, 0)\<rparr>, http_close api h w')"
    "app_ready (a\<lparr>recv_state := (buf, 0)\<rparr>)" using performRequest_once [OF assms(2-4) p(1)] by blast
  have "putData api base path d (a, w) = Ok (ESP_OK, a\<lparr>recv_state := (replicate HTTP_RECV_BUFFER_SIZE NUL, 0)\<rparr>, http_close api h w')"
    using buf(1) clear_ready [of "a\<lparr>recv_state := (buf, 0)\<rparr>"] buf(2) assms(4)
    by (simp add: putData_def write_data_def content_json_def setHeader_def is_200_def io_return_def app_ready_def app_live_def data_url_def)
  then show ?thesis using assms(3,4) cleared_ready [of a] p(2) request_recorded(4) [OF k, of w'] by simp
qed

lemma get_returns:
  assumes "keeps_documents api h req docs" "app_ok a" "client_handler a" "client a = Some h" "docs w (cstr (data_url base path a)) = Some body"
  shows "\<exists>a' w'. getData api base path (a, w) = bind (parse_reply (cstr (take (HTTP_RECV_BUFFER_SIZE - 1) body))) (\<lambda>v. Ok (v, a', w')) \<and>
    app_ready a' \<and> docs w' = docs w"
proof -
  let ?u = "data_url base path a" and ?w = "http_set_header api h ''content-type'' ''application/json'' w"
  let ?r = "prepare_body api h METHOD_GET [] (http_set_method api h METHOD_GET (http_set_url api h (cstr ?u) ?w))"
  have k: "records_request api h req docs" using assms(1) by (simp add: keeps_documents_def)
  have r: "req ?r = (cstr ?u, METHOD_GET, [])" "docs ?r = docs w" by (simp_all add: request_recorded [OF k] has_body_def)
  obtain es w' where p: "replies api h ?r es w'" "docs w' = docs w" "concat (concat (map data_of es)) = body"
    using keeps_get [OF assms(1), OF r(1), unfolded r(2), OF assms(5)] by blast
  obtain buf where buf: "performRequest api ?u METHOD_GET [] (a, ?w) = Ok ((ESP_OK, 200), a\<lparr>recv_state := (buf, 0)\<rparr>, http_close api h w')"
    "app_ready (a\<lparr>recv_state := (buf, 0)\<rparr>)" "cstr buf = reply_of es" using performRequest_once [OF assms(2-4) p(1)] by blast
  let ?p = "parse_reply (cstr (take (HTTP_RECV_BUFFER_SIZE - 1) body))" and ?a = "a\<lparr>recv_state := (replicate HTTP_RECV_BUFFER_SIZE NUL, 0)\<rparr>"
  have t: "parse_response (a\<lparr>recv_state := (buf, 0)\<rparr>, http_close api h w') =
      bind ?p (\<lambda>data. Ok (data, a\<lparr>recv_state := (buf, 0)\<rparr>, http_close api h w'))"
    using response_ready [OF buf(2), of "http_close api h w'"] buf(3) p(3) by (simp add: parse_response_def io_bind_def io_return_def reply_of_def)
  have "getData api base path (a, w) = bind ?p (\<lambda>v. Ok (v, ?a, http_close api h w'))"
    using buf(1) clear_ready [of "a\<lparr>recv_state := (buf, 0)\<rparr>"] buf(2) assms(4) t
    by (cases ?p) (simp_all add: getData_def content_json_def setHeader_def is_200_def io_return_def app_ready_def app_live_def)
  then show ?thesis using assms(4) cleared_ready [of a] p(2) request_recorded(4) [OF k, of w'] by auto
qed

end
