(* ===== verification/Json_Styled.thy ===== *)
theory Json_Styled
  imports Json_Writer Json_Reader
begin

text \<open>
  The writers with indentation (\<open>src/components/jsoncpp/json_writer.cpp\<close>): \<open>Json::StyledWriter\<close>,
  \<open>Json::StyledStreamWriter\<close> and the \<open>BuiltStyledStreamWriter\<close> of \<open>Json::StreamWriterBuilder\<close>. The three classes have the
  same control structure (\<open>writeValue\<close>, \<open>writeArrayValue\<close>, \<open>isMultilineArray\<close>) over different primitives, so it is written
  once, over a record of the primitives, and instantiated three times.
\<close>

section \<open>State\<close>

text \<open>
  The data members of the three classes; \<open>indented\<close> exists in the stream writers only. \<open>misuse\<close> records an access of
  \<open>childValues_\<close> outside its range or a failed \<open>assert\<close>; the code has undefined behaviour from there on.
\<close>

record styler =
  document :: string
  indentString :: string
  childValues :: "string list"
  addChildValues :: bool
  indented :: bool
  misuse :: bool

definition new_styler :: "bool \<Rightarrow> styler" where
  "new_styler i = \<lparr>document = [], indentString = [], childValues = [], addChildValues = False, indented = i, misuse = False\<rparr>"

definition emit :: "string \<Rightarrow> styler \<Rightarrow> styler" where
  "emit x s = s\<lparr>document := document s @ x\<rparr>"

definition require :: "bool \<Rightarrow> styler \<Rightarrow> styler" where
  "require c s = s\<lparr>misuse := misuse s \<or> \<not> c\<rparr>"

definition pushValue :: "string \<Rightarrow> styler \<Rightarrow> styler" where
  "pushValue x s = (if addChildValues s then s\<lparr>childValues := childValues s @ [x]\<rparr> else emit x s)"

definition child_text :: "u32 \<Rightarrow> styler \<Rightarrow> string" where
  "child_text i s = (if unat i < length (childValues s) then childValues s ! unat i else [])"

definition in_children :: "u32 \<Rightarrow> styler \<Rightarrow> styler" where
  "in_children i s = require (unat i < length (childValues s)) s"

definition indent :: "string \<Rightarrow> styler \<Rightarrow> styler" where
  "indent unit s = s\<lparr>indentString := indentString s @ unit\<rparr>"

definition unindent :: "string \<Rightarrow> styler \<Rightarrow> styler" where
  "unindent unit s = require (length unit \<le> length (indentString s))
     (s\<lparr>indentString := take (length (indentString s) - length unit) (indentString s)\<rparr>)"

definition rightMargin :: u32 where "rightMargin = 74"

definition hasCommentForValue :: "Value \<Rightarrow> bool" where
  "hasCommentForValue v \<longleftrightarrow> hasComment commentBefore v \<or> hasComment commentAfterOnSameLine v \<or> hasComment commentAfter v"

text \<open>The loop that copies a comment; \<open>f\<close> is what happens before a line of it that starts with a slash.\<close>

fun comment_chars :: "(styler \<Rightarrow> styler) \<Rightarrow> string \<Rightarrow> styler \<Rightarrow> styler" where
  "comment_chars f [] s = s"
| "comment_chars f (c # cs) s = comment_chars f cs
    (if c = CHR 0x0A \<and> cs \<noteq> [] \<and> hd cs = CHR ''/'' then f (emit [c] s) else emit [c] s)"

section \<open>The common structure\<close>

record style =
  null_symbol :: string
  real_text :: "double \<Rightarrow> string"
  quote_value :: "string \<Rightarrow> string"
  quote_name :: "string \<Rightarrow> string"
  colon_symbol :: string
  indent_unit :: string
  always_multiline :: bool
  write_with_indent :: "string \<Rightarrow> styler \<Rightarrow> styler"
  open_child :: "styler \<Rightarrow> styler"
  close_child :: "styler \<Rightarrow> styler"
  comment_before :: "Value \<Rightarrow> styler \<Rightarrow> styler"
  comment_after :: "Value \<Rightarrow> styler \<Rightarrow> styler"
  line_open :: string
  line_separator :: string
  line_close :: string

text \<open>\<open>value[key]\<close> on a const value.\<close>

definition child_of :: "ObjectValues \<Rightarrow> czstring \<Rightarrow> Value" where
  "child_of m k = (case map_find k m of None \<Rightarrow> nullSingleton | Some x \<Rightarrow> x)"

definition filled_container :: "Value \<Rightarrow> bool" where
  "filled_container v \<longleftrightarrow> (isArray v \<or> isObject v) \<and> \<not> value_empty v"

text \<open>The single-line form of an array, from the texts of its elements.\<close>

definition line_text :: "style \<Rightarrow> u32 \<Rightarrow> styler \<Rightarrow> string" where
  "line_text z len s = line_open z @
     concat (map (\<lambda>i. (if i > 0 then line_separator z else []) @ child_text i s) (index_range 0 len)) @ line_close z"

definition write_line :: "style \<Rightarrow> u32 \<Rightarrow> styler \<Rightarrow> styler" where
  "write_line z len s = emit (line_text z len s) (require (length (childValues s) = unat len) s)"

function styled_value :: "style \<Rightarrow> Value \<Rightarrow> styler \<Rightarrow> styler"
  and styled_multiline :: "style \<Rightarrow> u32 \<Rightarrow> ObjectValues \<Rightarrow> styler \<Rightarrow> bool \<times> styler"
  and styled_collect :: "style \<Rightarrow> ObjectValues \<Rightarrow> u32 list \<Rightarrow> bool \<Rightarrow> u32 \<Rightarrow> styler \<Rightarrow> bool \<times> u32 \<times> styler"
  and styled_elements :: "style \<Rightarrow> ObjectValues \<Rightarrow> bool \<Rightarrow> u32 list \<Rightarrow> styler \<Rightarrow> styler"
  and styled_members :: "style \<Rightarrow> ObjectValues \<Rightarrow> string list \<Rightarrow> styler \<Rightarrow> styler" where
  "styled_value z (Value p c a b) s = (case p of
     PNull \<Rightarrow> pushValue (null_symbol z) s
   | PInt i \<Rightarrow> pushValue (valueToString_LargestInt i) s
   | PUInt u \<Rightarrow> pushValue (valueToString_LargestUInt u) s
   | PReal d \<Rightarrow> pushValue (real_text z d) s
   | PString x \<Rightarrow> pushValue (quote_value z x) s
   | PBool x \<Rightarrow> pushValue (valueToString_bool x) s
   | PArray m \<Rightarrow>
       (let len = value_size (Value p c a b) in
        if len = 0 then pushValue ''[]'' s
        else let (isMultiLine, s) = styled_multiline z len m s in
          if isMultiLine then
            let s = indent (indent_unit z) (write_with_indent z ''['' s);
                s = styled_elements z m (childValues s \<noteq> []) (index_range 0 len) s
            in write_with_indent z '']'' (unindent (indent_unit z) s)
          else write_line z len s)
   | PObject m \<Rightarrow>
       (if m = [] then pushValue ''{}'' s
        else
          let s = indent (indent_unit z) (write_with_indent z ''{'' s);
              s = styled_members z m (map (cz_name \<circ> fst) m) s
          in write_with_indent z ''}'' (unindent (indent_unit z) s)))"
| "styled_multiline z len m s =
    (if always_multiline z then (True, s)
     else
       let s = s\<lparr>childValues := []\<rparr>;
           isMultiLine = (len * 3 \<ge> rightMargin \<or> (\<exists>i \<in> set (index_range 0 len). filled_container (child_of m (CZIndex i))))
       in if isMultiLine then (True, s)
          else
            let (isMultiLine, lineLength, s) =
                  styled_collect z m (index_range 0 len) False (4 + (len - 1) * 2) (s\<lparr>addChildValues := True\<rparr>)
            in (isMultiLine \<or> lineLength \<ge> rightMargin, s\<lparr>addChildValues := False\<rparr>))"
| "styled_collect z m [] isMultiLine lineLength s = (isMultiLine, lineLength, s)"
| "styled_collect z m (index # is) isMultiLine lineLength s =
    (let isMultiLine = (isMultiLine \<or> hasCommentForValue (child_of m (CZIndex index)));
         s = (case map_find (CZIndex index) m of None \<Rightarrow> pushValue (null_symbol z) s | Some x \<Rightarrow> styled_value z x s)
     in styled_collect z m is isMultiLine (lineLength + word_of_nat (length (child_text index s))) (in_children index s))"
| "styled_elements z m hasChildValue [] s = s"
| "styled_elements z m hasChildValue (index # is) s =
    (let childValue = child_of m (CZIndex index);
         s = comment_before z childValue s;
         s = (if hasChildValue then write_with_indent z (child_text index s) (in_children index s)
              else close_child z (case map_find (CZIndex index) m of
                 None \<Rightarrow> pushValue (null_symbol z) (open_child z s) | Some x \<Rightarrow> styled_value z x (open_child z s)))
     in if is = [] then comment_after z childValue s
        else styled_elements z m hasChildValue is (comment_after z childValue (emit '','' s)))"
| "styled_members z m [] s = s"
| "styled_members z m (name # names) s =
    (let childValue = child_of m (CZString name);
         s = emit (colon_symbol z) (write_with_indent z (quote_name z name) (comment_before z childValue s));
         s = (case map_find (CZString name) m of None \<Rightarrow> pushValue (null_symbol z) s | Some x \<Rightarrow> styled_value z x s)
     in if names = [] then comment_after z childValue s
        else styled_members z m names (comment_after z childValue (emit '','' s)))"
  by pat_completeness auto
termination
proof (relation "measures [case_sum (case_sum (\<lambda>(_, v, _). size v) (\<lambda>(_, _, m, _). map_size m))
     (case_sum (\<lambda>(_, m, _). map_size m) (case_sum (\<lambda>(_, m, _). map_size m) (\<lambda>(_, m, _). map_size m))),
   case_sum (case_sum (\<lambda>_. 0) (\<lambda>(_, n, _). Suc (Suc (unat n))))
     (case_sum (\<lambda>(_, _, is, _). Suc (length is)) (case_sum (\<lambda>(_, _, _, is, _). Suc (length is)) (\<lambda>(_, _, ns, _). Suc (length ns))))]")
qed (auto dest: map_find_size simp: index_range_def)

section \<open>\<open>StyledWriter\<close>\<close>

definition sw_writeIndent :: "styler \<Rightarrow> styler" where
  "sw_writeIndent s =
    (if document s \<noteq> [] then
       (if last (document s) = CHR '' '' then s
        else emit ((if last (document s) \<noteq> CHR 0x0A then [CHR 0x0A] else []) @ indentString s) s)
     else emit (indentString s) s)"

definition sw_writeWithIndent :: "string \<Rightarrow> styler \<Rightarrow> styler" where
  "sw_writeWithIndent x s = emit x (sw_writeIndent s)"

definition sw_writeCommentBeforeValue :: "Value \<Rightarrow> styler \<Rightarrow> styler" where
  "sw_writeCommentBeforeValue v s =
    (if \<not> hasComment commentBefore v then s
     else emit [CHR 0x0A] (comment_chars sw_writeIndent (getComment commentBefore v) (sw_writeIndent (emit [CHR 0x0A] s))))"

definition sw_writeCommentAfterValueOnSameLine :: "Value \<Rightarrow> styler \<Rightarrow> styler" where
  "sw_writeCommentAfterValueOnSameLine v s =
    (let s = (if hasComment commentAfterOnSameLine v then emit ('' '' @ getComment commentAfterOnSameLine v) s else s) in
     if hasComment commentAfter v then emit ([CHR 0x0A] @ getComment commentAfter v @ [CHR 0x0A]) s else s)"

definition sw_style :: style where
  "sw_style = \<lparr>null_symbol = ''null'', real_text = \<lambda>d. valueToString_double d False defaultRealPrecision significantDigits,
     quote_value = \<lambda>x. valueToQuotedStringN x False, quote_name = valueToQuotedString, colon_symbol = '' : '',
     indent_unit = replicate 3 (CHR '' ''), always_multiline = False, write_with_indent = sw_writeWithIndent,
     open_child = sw_writeIndent, close_child = \<lambda>s. s, comment_before = sw_writeCommentBeforeValue,
     comment_after = sw_writeCommentAfterValueOnSameLine, line_open = ''[ '', line_separator = '', '', line_close = '' ]''\<rparr>"

definition sw_writeValue :: "Value \<Rightarrow> styler \<Rightarrow> styler" where
  "sw_writeValue = styled_value sw_style"

definition StyledWriter_run :: "Value \<Rightarrow> styler" where
  "StyledWriter_run v = emit [CHR 0x0A] (sw_writeCommentAfterValueOnSameLine v
     (sw_writeValue v (sw_writeCommentBeforeValue v (new_styler False))))"

definition StyledWriter_write :: "Value \<Rightarrow> string" where
  "StyledWriter_write v = document (StyledWriter_run v)"

section \<open>\<open>StyledStreamWriter\<close>\<close>

text \<open>The text a call sends to the stream is appended to \<open>document\<close>.\<close>

definition ssw_writeIndent :: "styler \<Rightarrow> styler" where
  "ssw_writeIndent s = emit ([CHR 0x0A] @ indentString s) s"

definition ssw_writeWithIndent :: "string \<Rightarrow> styler \<Rightarrow> styler" where
  "ssw_writeWithIndent x s = (emit x (if \<not> indented s then ssw_writeIndent s else s))\<lparr>indented := False\<rparr>"

definition ssw_writeCommentBeforeValue :: "Value \<Rightarrow> styler \<Rightarrow> styler" where
  "ssw_writeCommentBeforeValue v s =
    (if \<not> hasComment commentBefore v then s
     else (comment_chars (\<lambda>s. emit (indentString s) s) (getComment commentBefore v)
       (if \<not> indented s then ssw_writeIndent s else s))\<lparr>indented := False\<rparr>)"

definition ssw_writeCommentAfterValueOnSameLine :: "Value \<Rightarrow> styler \<Rightarrow> styler" where
  "ssw_writeCommentAfterValueOnSameLine v s =
    (let s = (if hasComment commentAfterOnSameLine v then emit ('' '' @ getComment commentAfterOnSameLine v) s else s);
         s = (if hasComment commentAfter v then emit (getComment commentAfter v) (ssw_writeIndent s) else s)
     in s\<lparr>indented := False\<rparr>)"

definition ssw_style :: "string \<Rightarrow> style" where
  "ssw_style indentation = \<lparr>null_symbol = ''null'', real_text = \<lambda>d. valueToString_double d False defaultRealPrecision significantDigits,
     quote_value = \<lambda>x. valueToQuotedStringN x False, quote_name = valueToQuotedString, colon_symbol = '' : '',
     indent_unit = indentation, always_multiline = False, write_with_indent = ssw_writeWithIndent,
     open_child = \<lambda>s. (if \<not> indented s then ssw_writeIndent s else s)\<lparr>indented := True\<rparr>,
     close_child = \<lambda>s. s\<lparr>indented := False\<rparr>, comment_before = ssw_writeCommentBeforeValue,
     comment_after = ssw_writeCommentAfterValueOnSameLine, line_open = ''[ '', line_separator = '', '', line_close = '' ]''\<rparr>"

definition ssw_writeValue :: "string \<Rightarrow> Value \<Rightarrow> styler \<Rightarrow> styler" where
  "ssw_writeValue indentation = styled_value (ssw_style indentation)"

definition StyledStreamWriter_run :: "string \<Rightarrow> Value \<Rightarrow> styler" where
  "StyledStreamWriter_run indentation v =
    (let s = ssw_writeCommentBeforeValue v (new_styler True);
         s = (if \<not> indented s then ssw_writeIndent s else s)
     in emit [CHR 0x0A] (ssw_writeCommentAfterValueOnSameLine v (ssw_writeValue indentation v (s\<lparr>indented := True\<rparr>))))"

definition StyledStreamWriter_write :: "string \<Rightarrow> Value \<Rightarrow> string" where
  "StyledStreamWriter_write indentation v = document (StyledStreamWriter_run indentation v)"

section \<open>\<open>BuiltStyledStreamWriter\<close>\<close>

datatype CommentStyle = CommentNone | CommentMost | CommentAll

record BuiltStyledStreamWriter =
  b_indentation :: string
  b_cs :: CommentStyle
  b_colonSymbol :: string
  b_nullSymbol :: string
  b_endingLineFeedSymbol :: string
  b_useSpecialFloats :: bool
  b_emitUTF8 :: bool
  b_precision :: nat
  b_precisionType :: PrecisionType

definition bsw_writeIndent :: "BuiltStyledStreamWriter \<Rightarrow> styler \<Rightarrow> styler" where
  "bsw_writeIndent w s = (if b_indentation w \<noteq> [] then emit ([CHR 0x0A] @ indentString s) s else s)"

definition bsw_writeWithIndent :: "BuiltStyledStreamWriter \<Rightarrow> string \<Rightarrow> styler \<Rightarrow> styler" where
  "bsw_writeWithIndent w x s = (emit x (if \<not> indented s then bsw_writeIndent w s else s))\<lparr>indented := False\<rparr>"

definition bsw_writeCommentBeforeValue :: "BuiltStyledStreamWriter \<Rightarrow> Value \<Rightarrow> styler \<Rightarrow> styler" where
  "bsw_writeCommentBeforeValue w v s =
    (if b_cs w = CommentNone \<or> \<not> hasComment commentBefore v then s
     else (comment_chars (\<lambda>s. emit (indentString s) s) (getComment commentBefore v)
       (if \<not> indented s then bsw_writeIndent w s else s))\<lparr>indented := False\<rparr>)"

definition bsw_writeCommentAfterValueOnSameLine :: "BuiltStyledStreamWriter \<Rightarrow> Value \<Rightarrow> styler \<Rightarrow> styler" where
  "bsw_writeCommentAfterValueOnSameLine w v s =
    (if b_cs w = CommentNone then s
     else let s = (if hasComment commentAfterOnSameLine v then emit ('' '' @ getComment commentAfterOnSameLine v) s else s)
       in if hasComment commentAfter v then emit (getComment commentAfter v) (bsw_writeIndent w s) else s)"

definition bsw_style :: "BuiltStyledStreamWriter \<Rightarrow> style" where
  "bsw_style w = \<lparr>null_symbol = b_nullSymbol w,
     real_text = \<lambda>d. valueToString_double d (b_useSpecialFloats w) (b_precision w) (b_precisionType w),
     quote_value = \<lambda>x. valueToQuotedStringN x (b_emitUTF8 w), quote_name = \<lambda>x. valueToQuotedStringN x (b_emitUTF8 w),
     colon_symbol = b_colonSymbol w, indent_unit = b_indentation w, always_multiline = (b_cs w = CommentAll),
     write_with_indent = bsw_writeWithIndent w,
     open_child = \<lambda>s. (if \<not> indented s then bsw_writeIndent w s else s)\<lparr>indented := True\<rparr>,
     close_child = \<lambda>s. s\<lparr>indented := False\<rparr>, comment_before = bsw_writeCommentBeforeValue w,
     comment_after = bsw_writeCommentAfterValueOnSameLine w, line_open = (if b_indentation w \<noteq> [] then ''[ '' else ''[''),
     line_separator = (if b_indentation w \<noteq> [] then '', '' else '',''), line_close = (if b_indentation w \<noteq> [] then '' ]'' else '']'')\<rparr>"

definition bsw_writeValue :: "BuiltStyledStreamWriter \<Rightarrow> Value \<Rightarrow> styler \<Rightarrow> styler" where
  "bsw_writeValue w = styled_value (bsw_style w)"

definition BuiltStyledStreamWriter_run :: "BuiltStyledStreamWriter \<Rightarrow> Value \<Rightarrow> styler" where
  "BuiltStyledStreamWriter_run w v =
    (let s = bsw_writeCommentBeforeValue w v (new_styler True);
         s = (if \<not> indented s then bsw_writeIndent w s else s)
     in emit (b_endingLineFeedSymbol w)
          (bsw_writeCommentAfterValueOnSameLine w v (bsw_writeValue w v (s\<lparr>indented := True\<rparr>))))"

definition BuiltStyledStreamWriter_write :: "BuiltStyledStreamWriter \<Rightarrow> Value \<Rightarrow> string" where
  "BuiltStyledStreamWriter_write w v = document (BuiltStyledStreamWriter_run w v)"

section \<open>\<open>StreamWriterBuilder\<close>\<close>

definition setting_string :: "Value \<Rightarrow> string \<Rightarrow> string res" where
  "setting_string settings k = bind (lift (member_get k settings)) (\<lambda>v. lift (asString v))"

definition setting_bool :: "Value \<Rightarrow> string \<Rightarrow> bool res" where
  "setting_bool settings k = bind (lift (member_get k settings)) (\<lambda>v. lift (asBool v))"

definition setting_uint :: "Value \<Rightarrow> string \<Rightarrow> int res" where
  "setting_uint settings k = bind (lift (member_get k settings)) (\<lambda>v. lift (asUInt v))"

definition comment_style_of :: "string \<Rightarrow> CommentStyle res" where
  "comment_style_of cs_str = (if cs_str = ''All'' then Ok CommentAll else if cs_str = ''None'' then Ok CommentNone
     else Abort (RuntimeError (''commentStyle must be '' @ quoted ''All'' @ '' or '' @ quoted ''None'')))"

definition precision_type_of :: "string \<Rightarrow> PrecisionType res" where
  "precision_type_of pt_str = (if pt_str = ''significant'' then Ok significantDigits
     else if pt_str = ''decimal'' then Ok decimalPlaces
     else Abort (RuntimeError (''precisionType must be '' @ quoted ''significant'' @ '' or '' @ quoted ''decimal'')))"

definition newStreamWriter :: "Value \<Rightarrow> BuiltStyledStreamWriter res" where
  "newStreamWriter settings =
    bind (setting_string settings ''indentation'') (\<lambda>indentation.
    bind (setting_string settings ''commentStyle'') (\<lambda>cs_str.
    bind (setting_string settings ''precisionType'') (\<lambda>pt_str.
    bind (setting_bool settings ''enableYAMLCompatibility'') (\<lambda>eyc.
    bind (setting_bool settings ''dropNullPlaceholders'') (\<lambda>dnp.
    bind (setting_bool settings ''useSpecialFloats'') (\<lambda>usf.
    bind (setting_bool settings ''emitUTF8'') (\<lambda>emitUTF8.
    bind (setting_uint settings ''precision'') (\<lambda>pre.
    bind (comment_style_of cs_str) (\<lambda>cs.
    bind (precision_type_of pt_str) (\<lambda>precisionType.
    Ok \<lparr>b_indentation = indentation, b_cs = cs,
      b_colonSymbol = (if eyc then '': '' else if indentation = [] then '':'' else '' : ''),
      b_nullSymbol = (if dnp then [] else ''null''), b_endingLineFeedSymbol = [], b_useSpecialFloats = usf,
      b_emitUTF8 = emitUTF8, b_precision = nat (min pre 17), b_precisionType = precisionType\<rparr>))))))))))"

definition valid_keys :: "string list" where
  "valid_keys = [''indentation'', ''commentStyle'', ''enableYAMLCompatibility'', ''dropNullPlaceholders'',
     ''useSpecialFloats'', ''emitUTF8'', ''precision'', ''precisionType'']"

text \<open>\<open>validate\<close>: \<open>None\<close> is a null pointer \<open>invalid\<close>; \<open>CharReaderBuilder\<close> has the same loop with its own keys.\<close>

fun validate_loop :: "string list \<Rightarrow> ObjectValues \<Rightarrow> Value option \<Rightarrow> (bool \<times> Value option) res" where
  "validate_loop keys [] invalid = Ok (case invalid of None \<Rightarrow> True | Some v \<Rightarrow> value_empty v, invalid)"
| "validate_loop keys ((k, x) # m) invalid =
    (if cz_name k \<in> set keys then validate_loop keys m invalid
     else (case invalid of None \<Rightarrow> Ok (False, None)
       | Some v \<Rightarrow> bind (lift (member_put (cz_name k) x v)) (\<lambda>v. validate_loop keys m (Some v))))"

definition validate :: "Value \<Rightarrow> Value option \<Rightarrow> (bool \<times> Value option) res" where
  "validate settings invalid = validate_loop valid_keys (map_of_value settings) invalid"

fun put_all :: "(string \<times> Value) list \<Rightarrow> Value \<Rightarrow> Value res" where
  "put_all [] v = Ok v"
| "put_all ((k, x) # kvs) v = bind (lift (member_put k x v)) (\<lambda>v. put_all kvs v)"

definition setDefaults :: "Value \<Rightarrow> Value res" where
  "setDefaults settings = put_all
     [(''commentStyle'', initBasic (PString ''All'')), (''indentation'', initBasic (PString [CHR 0x09])),
      (''enableYAMLCompatibility'', Value_of_bool False), (''dropNullPlaceholders'', Value_of_bool False),
      (''useSpecialFloats'', Value_of_bool False), (''emitUTF8'', Value_of_bool False),
      (''precision'', Value_of_Int 17), (''precisionType'', initBasic (PString ''significant''))] settings"

definition writeString :: "Value \<Rightarrow> Value \<Rightarrow> string res" where
  "writeString settings v = bind (newStreamWriter settings) (\<lambda>w. Ok (BuiltStyledStreamWriter_write w v))"

definition toStyledString :: "Value \<Rightarrow> string res" where
  "toStyledString v = bind (setDefaults nullSingleton) (\<lambda>builder. bind (writeString builder v) (\<lambda>out.
     Ok ((if hasComment commentBefore v then [CHR 0x0A] else []) @ out @ [CHR 0x0A])))"

definition toStream :: "Value \<Rightarrow> string res" where
  "toStream v = bind (setDefaults nullSingleton) (\<lambda>settings. writeString settings v)"

end
