(* ===== verification/Json_Styled_Props.thy ===== *)
theory Json_Styled_Props
  imports Json_Styled
begin

text \<open>
  The styled writers never leave \<open>childValues_\<close> and their assertions hold. The argument is made once, in the locale
  \<open>document_style\<close>, from what the three writers have in common: their primitives only append text.
\<close>

section \<open>Values that are written as one text\<close>

text \<open>Objects with fewer than $2^{32}$ members, at every depth: \<open>size()\<close> does not wrap to 0.\<close>

fun small :: "Value \<Rightarrow> bool" and small_payload :: "Payload \<Rightarrow> bool" and small_all :: "ObjectValues \<Rightarrow> bool" where
  "small (Value p _ _ _) = small_payload p"
| "small_payload p = (case p of PArray m \<Rightarrow> small_all m | PObject m \<Rightarrow> length m < 2 ^ 32 \<and> small_all m | _ \<Rightarrow> True)"
| "small_all [] = True"
| "small_all ((k, v) # m) = (small v \<and> small_all m)"

declare small_payload.simps [simp del] styled_value.simps [simp del] styled_multiline.simps [simp del]

lemma small_all_iff: "small_all m \<longleftrightarrow> (\<forall>e \<in> set m. small (snd e))"
  by (induction m) auto

lemma small_found: "small_all m \<Longrightarrow> map_find k m = Some x \<Longrightarrow> small x"
  using map_find_Some_in by (fastforce simp: small_all_iff)

definition flat_text :: "style \<Rightarrow> Value \<Rightarrow> string" where
  "flat_text z v = (case payload v of
     PNull \<Rightarrow> null_symbol z | PInt i \<Rightarrow> valueToString_LargestInt i | PUInt u \<Rightarrow> valueToString_LargestUInt u
   | PReal d \<Rightarrow> real_text z d | PString x \<Rightarrow> quote_value z x | PBool x \<Rightarrow> valueToString_bool x
   | PArray m \<Rightarrow> ''[]'' | PObject m \<Rightarrow> ''{}'')"

lemma u32_bound: "unat (w :: u32) < 2 ^ 32"
proof -
  have "unat w < 2 ^ LENGTH(32)" by (rule unsigned_less)
  then show ?thesis by simp
qed

lemma styled_flat:
  assumes "small v" "\<not> filled_container v"
  shows "styled_value z v s = pushValue (flat_text z v) s"
proof -
  obtain p c a b where v: "v = Value p c a b" by (cases v)
  have "m = []" if "p = PObject m" for m
  proof -
    have "word_of_nat (length m) = (0 :: u32)" "length m < 2 ^ 32"
      using assms that by (simp_all add: v filled_container_def isArray_def isObject_def type_of_def value_empty_def isNull_def value_size_def small_payload.simps)
    then show "m = []" by (metis length_0_conv unat_0 unat_idx idx_def)
  qed
  moreover have "value_size v = 0" if "p = PArray m" for m
    using assms(2) that by (simp add: v filled_container_def isArray_def isObject_def type_of_def value_empty_def)
  ultimately show ?thesis by (cases p) (auto simp: v flat_text_def styled_value.simps)
qed

definition child_line :: "style \<Rightarrow> ObjectValues \<Rightarrow> u32 \<Rightarrow> string" where
  "child_line z m i = flat_text z (child_of m (CZIndex i))"

lemma flat_null [simp]: "flat_text z nullSingleton = null_symbol z" "\<not> filled_container nullSingleton"
  by (simp_all add: flat_text_def nullSingleton_def Value_of_type_def initBasic_def filled_container_def isArray_def isObject_def type_of_def)

lemma small_child: "small_all m \<Longrightarrow> small (child_of m k)"
  by (auto simp: child_of_def small_found nullSingleton_def Value_of_type_def initBasic_def small_payload.simps split: option.split)

lemma styled_child:
  "(case map_find k m of None \<Rightarrow> pushValue (null_symbol z) s | Some x \<Rightarrow> styled_value z x s) = styled_value z (child_of m k) s"
  by (auto simp: child_of_def nullSingleton_def Value_of_type_def initBasic_def styled_value.simps split: option.split)

lemma collect_texts:
  "small_all m \<Longrightarrow> \<forall>i \<in> set is. \<not> filled_container (child_of m (CZIndex i)) \<Longrightarrow> map unat is = [k..<k + length is] \<Longrightarrow>
   addChildValues s \<Longrightarrow> length (childValues s) = k \<Longrightarrow>
   \<exists>b l. styled_collect z m is c a s = (b, l, s\<lparr>childValues := childValues s @ map (child_line z m) is\<rparr>)"
proof (induction "is" arbitrary: k c a s)
  case (Cons i "is")
  have k: "unat i = k" "map unat is = [Suc k..<Suc k + length is]" using Cons.prems(3) by (simp_all add: upt_conv_Cons del: upt_Suc)
  let ?s = "s\<lparr>childValues := childValues s @ [child_line z m i]\<rparr>"
  have p: "styled_value z (child_of m (CZIndex i)) s = ?s"
    using styled_flat [OF small_child [OF Cons.prems(1)]] Cons.prems(2,4) by (simp add: pushValue_def child_line_def)
  have q: "in_children i ?s = ?s" using Cons.prems(5) k(1) by (simp add: in_children_def require_def)
  show ?case
    using Cons.IH [OF Cons.prems(1) _ k(2), of ?s] Cons.prems by (simp add: styled_child p q Let_def)
qed simp

lemma styler_same: "\<not> addChildValues s \<Longrightarrow> s\<lparr>childValues := cs, addChildValues := False\<rparr> = s\<lparr>childValues := cs\<rparr>"
  by (cases s) simp

lemma unat_idx_lt: "i < unat (len :: u32) \<Longrightarrow> unat (idx i) = i"
  using u32_bound [of len] by (simp add: unat_idx)

lemma unat_in_range: "i \<in> set (index_range 0 len) \<Longrightarrow> unat i < unat len"
  by (auto simp: index_range_def unat_idx_lt)

lemma multiline_cases:
  assumes "small_all m" "\<not> addChildValues s"
  shows "\<exists>b cs. styled_multiline z len m s = (b, s\<lparr>childValues := cs\<rparr>) \<and>
    (if always_multiline z then b \<and> cs = childValues s
     else b \<and> cs = [] \<or> cs = map (child_line z m) (index_range 0 len) \<and> (\<forall>i \<in> set (index_range 0 len). \<not> filled_container (child_of m (CZIndex i))))"
proof -
  let ?s = "s\<lparr>childValues := [], addChildValues := True\<rparr>"
  show ?thesis
  proof (cases "always_multiline z \<or> len * 3 \<ge> rightMargin \<or> (\<exists>i \<in> set (index_range 0 len). filled_container (child_of m (CZIndex i)))")
    case True
    then show ?thesis by (auto simp: styled_multiline.simps Let_def)
  next
    case False
    have "\<exists>b l. styled_collect z m (index_range 0 len) False (4 + (len - 1) * 2) ?s =
        (b, l, ?s\<lparr>childValues := childValues ?s @ map (child_line z m) (index_range 0 len)\<rparr>)"
      using False assms(1) by (intro collect_texts) (auto simp: index_range_def unat_idx_lt intro!: map_idI)
    then obtain b l where "styled_collect z m (index_range 0 len) False (4 + (len - 1) * 2) ?s =
        (b, l, ?s\<lparr>childValues := map (child_line z m) (index_range 0 len)\<rparr>)" by auto
    then show ?thesis using False assms(2) styler_same by (auto simp: styled_multiline.simps Let_def)
  qed
qed


section \<open>What a writer keeps\<close>

text \<open>
  \<open>steady s s'\<close>: only text was appended and \<open>indented\<close> changed; \<open>kept z s s'\<close>: the same, but the texts collected for an
  array may have changed.
\<close>

definition steady :: "styler \<Rightarrow> styler \<Rightarrow> bool" where
  "steady s s' \<longleftrightarrow> (\<exists>x. document s' = document s @ x) \<and> indentString s' = indentString s \<and> childValues s' = childValues s \<and>
     addChildValues s' = addChildValues s \<and> misuse s' = misuse s"

definition kept :: "style \<Rightarrow> styler \<Rightarrow> styler \<Rightarrow> bool" where
  "kept z s s' \<longleftrightarrow> (\<exists>x. document s' = document s @ x) \<and> indentString s' = indentString s \<and> addChildValues s' = addChildValues s \<and>
     misuse s' = misuse s \<and> (always_multiline z \<longrightarrow> childValues s = [] \<longrightarrow> childValues s' = [])"

definition ready :: "style \<Rightarrow> styler \<Rightarrow> bool" where
  "ready z s \<longleftrightarrow> \<not> addChildValues s \<and> (always_multiline z \<longrightarrow> childValues s = [])"

lemma steady_refl [simp]: "steady s s"
  by (simp add: steady_def)

lemma steady_trans [trans]: "steady s t \<Longrightarrow> steady t u \<Longrightarrow> steady s u"
  by (auto simp: steady_def)

lemma steady_kept: "steady s t \<Longrightarrow> kept z s t"
  by (simp add: steady_def kept_def)

lemma kept_trans [trans]: "kept z s t \<Longrightarrow> kept z t u \<Longrightarrow> kept z s u"
  by (auto simp: kept_def)

lemma kept_ready: "kept z s t \<Longrightarrow> ready z s \<Longrightarrow> ready z t"
  by (simp add: kept_def ready_def)

lemma steady_emit [simp]: "steady s (emit x s)"
  by (simp add: steady_def emit_def)

lemma steady_indented [simp]: "steady s (t\<lparr>indented := i\<rparr>) \<longleftrightarrow> steady s t"
  by (simp add: steady_def)

lemma steady_emit_iff: "steady s t \<Longrightarrow> steady s (emit x t)"
  using steady_trans steady_emit by blast

lemma push_ready: "ready z s \<Longrightarrow> steady s (pushValue x s)"
  by (simp add: ready_def pushValue_def)

lemma kept_collected: "kept z s (s\<lparr>childValues := cs\<rparr>) \<longleftrightarrow> (always_multiline z \<longrightarrow> childValues s = [] \<longrightarrow> cs = [])"
  by (auto simp: kept_def)

lemma kept_indented:
  assumes "kept z (indent u s) t"
  shows "kept z s (unindent u t)"
  using assms by (auto simp: kept_def indent_def unindent_def require_def)

lemma ready_indent [simp]: "ready z (indent u s) \<longleftrightarrow> ready z s"
  by (simp add: ready_def indent_def)

lemma childValues_indent [simp]: "childValues (indent u s) = childValues s"
  by (simp add: indent_def)

lemma in_children_ok [simp]: "unat i < length (childValues s) \<Longrightarrow> in_children i s = s"
  by (simp add: in_children_def require_def)

definition styled_array :: "style \<Rightarrow> u32 \<Rightarrow> ObjectValues \<Rightarrow> styler \<Rightarrow> styler" where
  "styled_array z len m s =
    (let (isMultiLine, s) = styled_multiline z len m s in
      if isMultiLine then
        let s = indent (indent_unit z) (write_with_indent z ''['' s);
            s = styled_elements z m (childValues s \<noteq> []) (index_range 0 len) s
        in write_with_indent z '']'' (unindent (indent_unit z) s)
      else write_line z len s)"

lemma styled_array_eq: "styled_value z (Value (PArray m) c a b) s =
    (if value_size (Value (PArray m) c a b) = 0 then pushValue ''[]'' s else styled_array z (value_size (Value (PArray m) c a b)) m s)"
  by (simp only: styled_value.simps Payload.case Let_def styled_array_def)

text \<open>One turn of the loop over the elements and of the loop over the members, up to the comma.\<close>

definition element_step :: "style \<Rightarrow> ObjectValues \<Rightarrow> bool \<Rightarrow> u32 \<Rightarrow> styler \<Rightarrow> styler" where
  "element_step z m b i s = (let v = child_of m (CZIndex i); s = comment_before z v s in
     if b then write_with_indent z (child_text i s) (in_children i s) else close_child z (styled_value z v (open_child z s)))"

definition member_start :: "style \<Rightarrow> ObjectValues \<Rightarrow> string \<Rightarrow> styler \<Rightarrow> styler" where
  "member_start z m n s = emit (colon_symbol z) (write_with_indent z (quote_name z n) (comment_before z (child_of m (CZString n)) s))"

definition member_step :: "style \<Rightarrow> ObjectValues \<Rightarrow> string \<Rightarrow> styler \<Rightarrow> styler" where
  "member_step z m n s = styled_value z (child_of m (CZString n)) (member_start z m n s)"

lemma styled_elements_step: "styled_elements z m b (i # is) s =
    (if is = [] then comment_after z (child_of m (CZIndex i)) (element_step z m b i s)
     else styled_elements z m b is (comment_after z (child_of m (CZIndex i)) (emit '','' (element_step z m b i s))))"
  by (simp only: styled_elements.simps styled_child Let_def element_step_def)

lemma styled_members_step: "styled_members z m (n # names) s =
    (if names = [] then comment_after z (child_of m (CZString n)) (member_step z m n s)
     else styled_members z m names (comment_after z (child_of m (CZString n)) (emit '','' (member_step z m n s))))"
  by (simp only: styled_members.simps styled_child Let_def member_step_def member_start_def)

text \<open>What the common structure relies on: the primitives of a writer only append text.\<close>

locale document_style =
  fixes z :: style
  assumes steady_with_indent: "steady s (write_with_indent z x s)"
    and steady_open: "steady s (open_child z s)"
    and steady_close: "steady s (close_child z s)"
    and steady_before: "steady s (comment_before z v s)"
    and steady_after: "steady s (comment_after z v s)"
begin

lemmas kept_primitives = steady_with_indent [THEN steady_kept] steady_open [THEN steady_kept] steady_close [THEN steady_kept]
  steady_before [THEN steady_kept] steady_after [THEN steady_kept] steady_emit [THEN steady_kept]

lemma kept_bracketed:
  assumes "ready z s" "\<And>t. kept z s (write_with_indent z x s) \<Longrightarrow> ready z t \<Longrightarrow> childValues t = childValues s \<Longrightarrow> kept z t (f t)"
  shows "kept z s (write_with_indent z y (unindent (indent_unit z) (f (indent (indent_unit z) (write_with_indent z x s)))))"
proof -
  have "childValues (write_with_indent z x s) = childValues s" using steady_with_indent by (simp add: steady_def)
  moreover have k: "kept z s (write_with_indent z x s)" by (rule kept_primitives)
  ultimately have "kept z (write_with_indent z x s) (unindent (indent_unit z) (f (indent (indent_unit z) (write_with_indent z x s))))"
    using assms(2) kept_ready [OF k assms(1)] by (intro kept_indented) simp
  with k kept_primitives(1) kept_trans show ?thesis by blast
qed

lemma kept_array:
  assumes "small_all m" "ready z s"
    "\<And>b t. ready z t \<Longrightarrow> (b \<Longrightarrow> \<forall>i \<in> set (index_range 0 len). unat i < length (childValues t)) \<Longrightarrow>
       kept z t (styled_elements z m b (index_range 0 len) t)"
  shows "kept z s (styled_array z len m s)"
proof -
  obtain b cs where m: "styled_multiline z len m s = (b, s\<lparr>childValues := cs\<rparr>)"
    "if always_multiline z then b \<and> cs = childValues s
     else b \<and> cs = [] \<or> cs = map (child_line z m) (index_range 0 len)"
    using multiline_cases [OF assms(1), of s z len] assms(2) by (auto simp: ready_def split: if_splits)
  let ?s = "s\<lparr>childValues := cs\<rparr>"
  have k: "kept z s ?s" using m(2) assms(2) by (auto simp: kept_collected ready_def)
  have l: "cs \<noteq> [] \<Longrightarrow> length cs = unat len" using m(2) assms(2) by (auto simp: index_range_def ready_def split: if_splits)
  have r: "\<forall>i \<in> set (index_range 0 len). unat i < unat len"
    by (simp add: unat_in_range)
  show ?thesis
  proof (cases b)
    case True
    have "kept z ?s (write_with_indent z '']'' (unindent (indent_unit z)
      ((\<lambda>s. styled_elements z m (childValues s \<noteq> []) (index_range 0 len) s) (indent (indent_unit z) (write_with_indent z ''['' ?s)))))"
      using kept_ready [OF k assms(2)] l r by (intro kept_bracketed) (auto intro!: assms(3))
    then show ?thesis using True m(1) kept_trans [OF k] by (simp add: Let_def styled_array_def)
  next
    case False
    then have "length cs = unat len" using m(2) by (auto simp: index_range_def split: if_splits)
    then have "kept z ?s (write_line z len ?s)" by (simp add: write_line_def require_def kept_def emit_def)
    then show ?thesis using False m(1) kept_trans [OF k] by (simp add: styled_array_def)
  qed
qed

lemma element_step_kept:
  assumes "\<And>t. ready z t \<Longrightarrow> kept z t (styled_value z (child_of m (CZIndex i)) t)" "ready z s" "b \<Longrightarrow> unat i < length (childValues s)"
  shows "kept z s (element_step z m b i s)" "b \<Longrightarrow> childValues (element_step z m b i s) = childValues s"
proof -
  let ?v = "child_of m (CZIndex i)"
  let ?s = "comment_before z ?v s"
  have s: "steady s ?s" by (rule steady_before)
  then have c: "childValues ?s = childValues s" by (simp add: steady_def)
  have i: "in_children i ?s = ?s" if b using assms(3) [OF that] by (simp add: c)
  have "ready z (open_child z ?s)" using kept_ready assms(2) steady_kept [OF s] kept_primitives(2) by blast
  then have "kept z ?s (close_child z (styled_value z ?v (open_child z ?s)))"
    using assms(1) kept_primitives(2,3) kept_trans by meson
  then show "kept z s (element_step z m b i s)"
    using i kept_primitives(1) by (auto simp: element_step_def Let_def intro!: kept_trans [OF steady_kept [OF s]])
  show "childValues (element_step z m b i s) = childValues s" if b
    using steady_with_indent i that c by (simp add: element_step_def Let_def steady_def)
qed

lemma comma_steady: "steady t (comment_after z v (emit x t))"
  using steady_after steady_emit steady_trans by blast

lemma elements_kept:
  assumes "\<And>k t. ready z t \<Longrightarrow> kept z t (styled_value z (child_of m k) t)"
  shows "ready z s \<Longrightarrow> (b \<Longrightarrow> \<forall>i \<in> set is. unat i < length (childValues s)) \<Longrightarrow> kept z s (styled_elements z m b is s)"
proof (induction "is" arbitrary: s)
  case (Cons i "is")
  let ?t = "element_step z m b i s"
  let ?u = "comment_after z (child_of m (CZIndex i)) (emit '','' ?t)"
  have k: "kept z s ?t" "b \<Longrightarrow> childValues ?t = childValues s" using element_step_kept [OF assms Cons.prems(1)] Cons.prems(2) by simp_all
  then have u: "kept z s ?u" "b \<Longrightarrow> childValues ?u = childValues s"
    using comma_steady [of ?t] steady_kept kept_trans by (blast, simp add: steady_def)
  then have "kept z ?u (styled_elements z m b is ?u)"
    using Cons.prems kept_ready by (intro Cons.IH) auto
  then show ?case unfolding styled_elements_step using u(1) k(1) kept_primitives(5) kept_trans by presburger
qed (simp add: kept_def)

lemma member_step_kept:
  assumes "\<And>t. ready z t \<Longrightarrow> kept z t (styled_value z (child_of m (CZString n)) t)" "ready z s"
  shows "kept z s (member_start z m n s)" "kept z s (member_step z m n s)"
proof -
  show s: "kept z s (member_start z m n s)" unfolding member_start_def using kept_primitives(1,4,6) kept_trans by meson
  then show "kept z s (member_step z m n s)" unfolding member_step_def using assms kept_ready kept_trans by blast
qed

lemma members_kept:
  assumes "\<And>k t. ready z t \<Longrightarrow> kept z t (styled_value z (child_of m k) t)"
  shows "ready z s \<Longrightarrow> kept z s (styled_members z m names s)"
proof (induction names arbitrary: s)
  case (Cons n names)
  let ?t = "member_step z m n s"
  let ?u = "comment_after z (child_of m (CZString n)) (emit '','' ?t)"
  have t: "kept z s ?t" by (rule member_step_kept(2) [OF assms Cons.prems])
  then have u: "kept z s ?u" using comma_steady [of ?t] steady_kept kept_trans by blast
  then have "kept z s (styled_members z m names ?u)" using Cons kept_ready kept_trans by blast
  then show ?case unfolding styled_members_step using t kept_primitives(5) kept_trans by presburger
qed (simp add: kept_def)

lemma styled_kept: "small v \<Longrightarrow> ready z s \<Longrightarrow> kept z s (styled_value z v s)"
proof (induction "size v" arbitrary: v s rule: less_induct)
  case less
  obtain p c a b where v: "v = Value p c a b" by (cases v)
  have child: "kept z t (styled_value z (child_of m k) t)" if "p = PArray m \<or> p = PObject m" "ready z t" for m k t
  proof (cases "map_find k m")
    case None
    then show ?thesis using that(2) push_ready steady_kept
      by (simp add: child_of_def nullSingleton_def Value_of_type_def initBasic_def styled_value.simps)
  next
    case (Some x)
    have "small_all m" using less.prems(1) that(1) by (auto simp: v small_payload.simps)
    moreover have "size x < size v" using map_find_size [OF Some] that(1) v by auto
    ultimately show ?thesis using less.hyps that(2) small_found [OF _ Some] by (simp add: child_of_def Some)
  qed
  have push: "kept z s (pushValue x s)" for x using push_ready [OF less.prems(2)] steady_kept by blast
  show ?case
  proof (cases p)
    case (PArray m)
    have "small_all m" using less.prems(1) PArray by (simp add: v small_payload.simps)
    then have "kept z s (styled_array z (value_size v) m s)"
      using child PArray by (intro kept_array [OF _ less.prems(2)] elements_kept) simp_all
    then show ?thesis using push by (simp add: v PArray styled_array_eq)
  next
    case (PObject m)
    have "kept z s (write_with_indent z ''}'' (unindent (indent_unit z)
      ((\<lambda>s. styled_members z m (map (cz_name \<circ> fst) m) s) (indent (indent_unit z) (write_with_indent z ''{'' s)))))"
      using child PObject by (intro kept_bracketed [OF less.prems(2)] members_kept) simp_all
    with PObject show ?thesis by (simp add: v styled_value.simps push Let_def)
  qed (use push in \<open>simp_all add: v styled_value.simps\<close>)
qed

end


section \<open>The three writers\<close>

lemma steady_comment_chars: "(\<And>s. steady s (f s)) \<Longrightarrow> steady s (comment_chars f cs s)"
proof (induction cs arbitrary: s)
  case (Cons c cs)
  have "steady s (if c = CHR 0x0A \<and> cs \<noteq> [] \<and> hd cs = CHR ''/'' then f (emit [c] s) else emit [c] s)"
    using steady_trans [OF steady_emit Cons.prems] by simp
  moreover note Cons.IH [OF Cons.prems]
  ultimately show ?case unfolding comment_chars.simps using steady_trans by blast
qed simp

lemma sw_steady: "steady s (sw_writeIndent s)" "steady s (sw_writeWithIndent x s)"
  "steady s (sw_writeCommentBeforeValue v s)" "steady s (sw_writeCommentAfterValueOnSameLine v s)"
proof -
  show i: "steady s (sw_writeIndent s)" for s by (simp add: sw_writeIndent_def)
  show "steady s (sw_writeWithIndent x s)" unfolding sw_writeWithIndent_def using i steady_emit_iff by blast
  have "steady s (comment_chars sw_writeIndent cs (sw_writeIndent (emit x s)))" for cs x
    using steady_emit i steady_comment_chars [of sw_writeIndent, OF i] steady_trans by meson
  then show "steady s (sw_writeCommentBeforeValue v s)" by (simp add: sw_writeCommentBeforeValue_def steady_emit_iff)
  show "steady s (sw_writeCommentAfterValueOnSameLine v s)" by (simp add: sw_writeCommentAfterValueOnSameLine_def steady_emit_iff Let_def)
qed

interpretation sw: document_style sw_style
  by unfold_locales (simp_all add: sw_style_def sw_steady)

lemma steady_opened: "steady s (f s) \<Longrightarrow> steady s (if i then f s else s)"
  by simp

lemma ssw_steady: "steady s (ssw_writeIndent s)" "steady s (ssw_writeWithIndent x s)"
  "steady s (ssw_writeCommentBeforeValue v s)" "steady s (ssw_writeCommentAfterValueOnSameLine v s)"
proof -
  show i: "steady s (ssw_writeIndent s)" for s by (simp add: ssw_writeIndent_def)
  show "steady s (ssw_writeWithIndent x s)" using i by (simp add: ssw_writeWithIndent_def steady_emit_iff)
  have "steady s (comment_chars (\<lambda>s. emit (indentString s) s) cs (if \<not> indented s then ssw_writeIndent s else s))" for cs
    using steady_trans [OF steady_opened [of s ssw_writeIndent, OF i] steady_comment_chars] by simp
  then show "steady s (ssw_writeCommentBeforeValue v s)" by (simp add: ssw_writeCommentBeforeValue_def)
  show "steady s (ssw_writeCommentAfterValueOnSameLine v s)"
    by (simp add: ssw_writeCommentAfterValueOnSameLine_def ssw_writeIndent_def steady_emit_iff Let_def)
qed

interpretation ssw: document_style "ssw_style ind"
  by unfold_locales (simp_all add: ssw_style_def ssw_steady)

lemma bsw_steady: "steady s (bsw_writeIndent w s)" "steady s (bsw_writeWithIndent w x s)"
  "steady s (bsw_writeCommentBeforeValue w v s)" "steady s (bsw_writeCommentAfterValueOnSameLine w v s)"
proof -
  show i: "steady s (bsw_writeIndent w s)" for s by (simp add: bsw_writeIndent_def)
  show "steady s (bsw_writeWithIndent w x s)" using i by (simp add: bsw_writeWithIndent_def steady_emit_iff)
  have "steady s (comment_chars (\<lambda>s. emit (indentString s) s) cs (if \<not> indented s then bsw_writeIndent w s else s))" for cs
    using steady_trans [OF steady_opened [of s "bsw_writeIndent w", OF i] steady_comment_chars] by simp
  then show "steady s (bsw_writeCommentBeforeValue w v s)" by (simp add: bsw_writeCommentBeforeValue_def)
  show "steady s (bsw_writeCommentAfterValueOnSameLine w v s)"
    by (simp add: bsw_writeCommentAfterValueOnSameLine_def bsw_writeIndent_def steady_emit_iff Let_def)
qed

interpretation bsw: document_style "bsw_style w"
  by unfold_locales (simp_all add: bsw_style_def bsw_steady)

lemma ready_new: "steady (new_styler i) s \<Longrightarrow> ready z s"
  by (simp add: steady_def ready_def new_styler_def)

lemma kept_no_misuse: "steady (new_styler i) s \<Longrightarrow> kept z s t \<Longrightarrow> steady t u \<Longrightarrow> \<not> misuse u"
  by (simp add: steady_def kept_def new_styler_def)

lemma steady_begin: "steady s t \<Longrightarrow> steady t (f t) \<Longrightarrow> steady s ((if \<not> indented t then f t else t)\<lparr>indented := True\<rparr>)"
  using steady_trans by auto

text \<open>
  C38. None of the three styled writers reads \<open>childValues_\<close> outside its range or fails an \<open>assert\<close>, for any value (with any
  comments) whose objects have fewer than $2^{32}$ members.
\<close>

theorem styled_writers_stay_in_childValues:
  assumes "small v"
  shows "\<not> misuse (StyledWriter_run v) \<and> \<not> misuse (StyledStreamWriter_run ind v) \<and> \<not> misuse (BuiltStyledStreamWriter_run w v)"
proof (intro conjI)
  show "\<not> misuse (StyledWriter_run v)"
    using kept_no_misuse [OF sw_steady(3) sw.styled_kept [OF assms ready_new [OF sw_steady(3)]] steady_emit_iff [OF sw_steady(4)]]
    by (simp add: StyledWriter_run_def sw_writeValue_def)
  note s = steady_begin [where f = ssw_writeIndent, OF ssw_steady(3) ssw_steady(1), of "new_styler True" v]
  show "\<not> misuse (StyledStreamWriter_run ind v)"
    using kept_no_misuse [OF s ssw.styled_kept [OF assms ready_new [OF s]] steady_emit_iff [OF ssw_steady(4)]]
    by (simp add: StyledStreamWriter_run_def ssw_writeValue_def Let_def)
  note b = steady_begin [where f = "bsw_writeIndent w", OF bsw_steady(3) bsw_steady(1), of "new_styler True" w v]
  show "\<not> misuse (BuiltStyledStreamWriter_run w v)"
    using kept_no_misuse [OF b bsw.styled_kept [OF assms ready_new [OF b]] steady_emit_iff [OF bsw_steady(4)]]
    by (simp add: BuiltStyledStreamWriter_run_def bsw_writeValue_def Let_def)
qed

definition demo_styled :: Value where
  "demo_styled = initBasic (PArray [(CZIndex 0, initBasic (PInt 5)), (CZIndex 2, initBasic (PArray [(CZIndex 0, initBasic (PString ''x''))]))])"

theorem styled_writers_stay_in_childValues_witness:
  "\<not> misuse (StyledWriter_run demo_styled) \<and> \<not> misuse (StyledStreamWriter_run [CHR 0x09] demo_styled) \<and>
   \<not> misuse (BuiltStyledStreamWriter_run \<lparr>b_indentation = [], b_cs = CommentNone, b_colonSymbol = '':'', b_nullSymbol = [],
     b_endingLineFeedSymbol = [], b_useSpecialFloats = False, b_emitUTF8 = True, b_precision = 17, b_precisionType = significantDigits\<rparr> demo_styled)"
  by (rule styled_writers_stay_in_childValues) (simp add: demo_styled_def initBasic_def small_payload.simps)

end
