(* ===== verification/Json_Styled_Layout.thy ===== *)
theory Json_Styled_Layout
  imports Json_Styled_Props Json_Roundtrip
begin

text \<open>
  What the styled writers write for a value without comments is a layout of it, so \<open>Json::Reader\<close> reads it back. The argument
  is made in the locale \<open>json_style\<close>, an extension of \<open>document_style\<close> by what makes a text JSON.
\<close>

section \<open>The written text is a layout of the value\<close>

lemma layout_spaced:
  assumes "layout v t" "spaces w"
  shows "layout v (w @ t)"
  using assms(1)
proof cases
  case (layout_scalar ws p t c a b)
  with assms(2) layout.layout_scalar [of "w @ ws" p t c a b] show ?thesis by simp
next
  case (layout_array ws ws' m xs c a b)
  with assms(2) layout.layout_array [of "w @ ws" ws' m xs c a b] show ?thesis by simp
next
  case (layout_object ws ws' m xs c a b)
  with assms(2) layout.layout_object [of "w @ ws" ws' m xs c a b] show ?thesis by simp
qed

lemma filled_cases:
  assumes "filled_container (Value p c a b)"
  shows "\<exists>m. (p = PArray m \<or> p = PObject m) \<and> m \<noteq> []"
proof -
  have "value_size (Value p c a b) \<noteq> 0" "isArray (Value p c a b) \<or> isObject (Value p c a b)"
    using assms by (auto simp: filled_container_def value_empty_def)
  then show ?thesis by (cases p) (auto simp: value_size_def isArray_def isObject_def type_of_def split: if_splits)
qed

text \<open>\<open>joined P m x\<close>: \<open>x\<close> consists of the pieces of the entries of \<open>m\<close> with commas between them.\<close>

definition joined :: "(czstring \<times> Value \<Rightarrow> string \<Rightarrow> bool) \<Rightarrow> ObjectValues \<Rightarrow> string \<Rightarrow> bool" where
  "joined P m x \<longleftrightarrow> (\<exists>y ys. list_all2 P m (y # ys) \<and> x = y @ more_pieces ys)"

lemma joined_one: "P e x \<Longrightarrow> joined P [e] x"
  unfolding joined_def by (intro exI [where x = x] exI [where x = "[]"]) (simp add: more_pieces_def)

lemma joined_Cons: "P e x \<Longrightarrow> joined P m y \<Longrightarrow> joined P (e # m) (x @ '','' @ y)"
proof -
  assume "P e x" "joined P m y"
  then obtain z zs where "list_all2 P (e # m) (x # z # zs)" "y = z @ more_pieces zs" unfolding joined_def by auto
  then show ?thesis unfolding joined_def by (intro exI conjI) (assumption, simp add: more_pieces_def)
qed

lemma joined_last:
  assumes "\<And>e x. P e x \<Longrightarrow> P e (x @ w)" "joined P m x"
  shows "joined P m (x @ w)"
proof -
  obtain y ys where y: "list_all2 P m (y # ys)" "x = y @ more_pieces ys" using assms(2) unfolding joined_def by blast
  show ?thesis
  proof (cases ys rule: rev_cases)
    case Nil
    then have "list_all2 P m [y @ w]" using y(1) assms(1) by (auto simp: list_all2_Cons2)
    then show ?thesis using y(2) Nil unfolding joined_def by (intro exI conjI) (assumption, simp add: more_pieces_def)
  next
    case (snoc zs z)
    then have "list_all2 P m ((y # zs) @ [z])" using y(1) by simp
    then obtain m1 e where "m = m1 @ [e]" "list_all2 P m1 (y # zs)" "P e z" unfolding list_all2_append2 by (auto simp: list_all2_Cons2)
    then have "list_all2 P m (y # zs @ [z @ w])" using assms(1) list_all2_appendI [of P m1 "y # zs" "[e]" "[z @ w]"] by simp
    then show ?thesis using y(2) snoc unfolding joined_def by (intro exI conjI) (assumption, simp add: more_pieces_def)
  qed
qed

lemma element_piece_tail: "spaces w \<Longrightarrow> element_piece P e x \<Longrightarrow> element_piece P e (x @ w)"
  unfolding element_piece_def by (metis append_assoc spaces_simps(3))

lemma member_piece_tail: "spaces w \<Longrightarrow> member_piece P e x \<Longrightarrow> member_piece P e (x @ w)"
proof -
  assume w: "spaces w" "member_piece P e x"
  then obtain w1 t w2 t' w3 where x: "spaces w1" "string_text (cz_name (fst e)) t" "spaces w2" "P (snd e) t'" "spaces w3"
    "x = w1 @ t @ w2 @ CHR '':'' # t' @ w3" unfolding member_piece_def by auto
  then have "x @ w = w1 @ t @ w2 @ CHR '':'' # t' @ w3 @ w" "spaces (w3 @ w)" using w(1) by simp_all
  with x show ?thesis unfolding member_piece_def by blast
qed

lemma layout_joined:
  assumes "spaces w" "spaces w'"
  shows "joined (element_piece layout) m x \<Longrightarrow> layout (Value (PArray m) c a b) (w @ ''['' @ x @ w' @ '']'')"
    "joined (member_piece layout) m x \<Longrightarrow> layout (Value (PObject m) c a b) (w @ ''{'' @ x @ w' @ ''}'')"
proof -
  assume "joined (element_piece layout) m x"
  from joined_last [OF element_piece_tail [OF assms(2)] this]
  obtain y ys where "list_all2 (element_piece layout) m (y # ys)" "x @ w' = y @ more_pieces ys" unfolding joined_def by blast
  from layout_array [OF assms(1), of "[]", OF _ this(1), of c a b] this(2)
  show "layout (Value (PArray m) c a b) (w @ ''['' @ x @ w' @ '']'')" by (simp add: bracketed_def) (metis append_assoc)
next
  assume "joined (member_piece layout) m x"
  from joined_last [OF member_piece_tail [OF assms(2)] this]
  obtain y ys where "list_all2 (member_piece layout) m (y # ys)" "x @ w' = y @ more_pieces ys" unfolding joined_def by blast
  from layout_object [OF assms(1), of "[]", OF _ this(1), of c a b] this(2)
  show "layout (Value (PObject m) c a b) (w @ ''{'' @ x @ w' @ ''}'')" by (simp add: bracketed_def) (metis append_assoc)
qed

text \<open>The elements of an array on one line.\<close>

lemma joined_line:
  "list_all2 (\<lambda>e t. layout (snd e) t) es ts \<Longrightarrow> es \<noteq> [] \<Longrightarrow> spaces w \<Longrightarrow> spaces w' \<Longrightarrow>
    joined (element_piece layout) es (w @ hd ts @ concat (map (\<lambda>t. '','' @ w' @ t) (tl ts)))"
proof (induction es arbitrary: ts w)
  case (Cons e es)
  then obtain t ts' where t: "ts = t # ts'" "layout (snd e) t" "list_all2 (\<lambda>e t. layout (snd e) t) es ts'" by (auto simp: list_all2_Cons1)
  have p: "element_piece layout e (w @ t)" using layout_spaced [OF t(2) Cons.prems(3)] by (rule element_piece_self)
  show ?case
  proof (cases es)
    case Nil
    then show ?thesis using p t joined_one by auto
  next
    case (Cons e' es')
    then obtain t' ts'' where t': "ts' = t' # ts''" using t(3) by (auto simp: list_all2_Cons1)
    have "joined (element_piece layout) es (w' @ hd ts' @ concat (map (\<lambda>t. '','' @ w' @ t) (tl ts')))"
      using Cons.IH [OF t(3) _ Cons.prems(4,4)] Cons by simp
    from joined_Cons [of "element_piece layout", OF p this] show ?thesis by (simp add: t(1) t')
  qed
qed simp

lemma separated_texts:
  "0 < k \<Longrightarrow> k \<le> length ts \<Longrightarrow> length ts < 2 ^ 32 \<Longrightarrow>
    concat (map (\<lambda>i. (if i > 0 then sep else []) @ ts ! unat i) (map idx [k..<length ts])) = concat (map (\<lambda>t. sep @ t) (drop k ts))"
proof (induction "length ts - k" arbitrary: k)
  case (Suc n)
  have "k < length ts" using Suc by simp
  moreover have "0 < idx k" "unat (idx k) = k" using Suc.prems \<open>k < length ts\<close> by (simp_all add: word_less_nat_alt unat_idx)
  moreover note Suc.hyps(1) [of "Suc k"]
  ultimately show ?case using Suc by (simp add: upt_conv_Cons Cons_nth_drop_Suc [symmetric] del: upt_Suc)
qed simp

lemma line_texts:
  assumes "ts \<noteq> []" "length ts < 2 ^ 32"
  shows "concat (map (\<lambda>i. (if i > 0 then sep else []) @ ts ! unat i) (map idx [0..<length ts])) = hd ts @ concat (map (\<lambda>t. sep @ t) (tl ts))"
proof -
  have "idx 0 = 0" by (simp add: idx_def)
  moreover have "1 \<le> length ts" using assms(1) by (cases ts) simp_all
  ultimately show ?thesis using separated_texts [of 1 ts sep] assms
    by (simp add: upt_conv_Cons hd_conv_nth drop_Suc del: upt_Suc)
qed

text \<open>Values without comments and with names that are C strings, at every depth.\<close>

fun bare :: "Value \<Rightarrow> bool" and bare_payload :: "Payload \<Rightarrow> bool" and bare_all :: "ObjectValues \<Rightarrow> bool" where
  "bare (Value p c _ _) = (c = None \<and> bare_payload p)"
| "bare_payload p = (case p of PArray m \<Rightarrow> bare_all m | PObject m \<Rightarrow> bare_all m \<and> (\<forall>e \<in> set m. NUL \<notin> set (cz_name (fst e))) | _ \<Rightarrow> True)"
| "bare_all [] = True"
| "bare_all ((k, v) # m) = (bare v \<and> bare_all m)"

declare bare_payload.simps [simp del]

lemma bare_all_iff: "bare_all m \<longleftrightarrow> (\<forall>e \<in> set m. bare (snd e))"
  by (induction m) auto

lemma bare_no_comment: "bare v \<Longrightarrow> \<not> hasComment p v"
  by (cases v) (simp add: hasComment_def Comments_has_def)

lemma element_found:
  assumes "index_keys 0 m" "length m < 2 ^ 31"
  shows "list_all2 (\<lambda>i e. child_of m (CZIndex i) = snd e) (map idx [0..<length m]) m"
proof (rule list_all2_all_nthI)
  fix k assume "k < length (map idx [0..<length m])"
  then have k: "k < length m" by simp
  then have m: "m = take k m @ m ! k # drop (Suc k) m" by (rule id_take_nth_drop)
  then have "index_keys 0 (take k m) \<and> fst (m ! k) = CZIndex (idx (length (take k m)))" using assms(1) index_keys_split by metis
  moreover have "\<forall>x \<in> set (take k m). fst x \<noteq> CZIndex (idx (length (take k m)))"
    using calculation assms(2) by (intro index_keys_fresh) auto
  ultimately have "map_find (CZIndex (idx k)) m = Some (snd (m ! k))" using map_find_split [of "take k m" "m ! k"] k m by (metis length_take min.absorb2 nat_less_le)
  then show "child_of m (CZIndex (map idx [0..<length m] ! k)) = snd (m ! k)" using k by (simp add: child_of_def)
qed simp

lemma member_found:
  assumes "name_keys m"
  shows "list_all2 (\<lambda>n e. child_of m (CZString n) = snd e \<and> n = cz_name (fst e)) (map (cz_name \<circ> fst) m) m"
proof -
  have "child_of m (CZString (cz_name (fst e))) = snd e" if "e \<in> set m" for e
  proof -
    have "sorted_map m" "\<exists>k. fst e = CZStr k \<and> length k < 2 ^ 30" using assms that by (simp_all add: name_keys_def)
    then obtain k where k: "sorted_map m" "fst e = CZStr k" "length k < 2 ^ 30" by blast
    from map_find_in_iff [OF k(1), of "fst e" "snd e"] have "map_find (fst e) m = Some (snd e)" using that by simp
    then show ?thesis using k by (simp add: child_of_def CZString_short)
  qed
  then show ?thesis by (simp add: list_all2_map1 list.rel_refl_strong)
qed

text \<open>
  What makes a writer a JSON writer: its quoted texts stand for the strings, its separators are JSON up to white space, and
  what it writes around a value without comments is white space.
\<close>

locale json_style = document_style +
  assumes null_json: "null_symbol z = ''null''"
    and value_json: "utf8 x \<Longrightarrow> string_text x (quote_value z x)"
    and name_json: "utf8 x \<Longrightarrow> NUL \<notin> set x \<Longrightarrow> string_text x (quote_name z x)"
    and colon_json: "\<exists>w w'. colon_symbol z = w @ '':'' @ w' \<and> spaces w \<and> spaces w'"
    and line_json: "\<exists>w w' w''. line_open z = ''['' @ w \<and> line_separator z = '','' @ w' \<and> line_close z = w'' @ '']'' \<and> spaces w \<and> spaces w' \<and> spaces w''"
    and unit_spaces: "spaces (indent_unit z)"
    and indent_spaces: "spaces (indentString s) \<Longrightarrow> \<exists>w. document (write_with_indent z x s) = document s @ w @ x \<and> spaces w"
    and open_spaces: "spaces (indentString s) \<Longrightarrow> \<exists>w. document (open_child z s) = document s @ w \<and> spaces w"
    and close_silent: "document (close_child z s) = document s"
    and before_silent: "\<not> hasComment commentBefore v \<Longrightarrow> comment_before z v s = s"
    and after_silent: "\<not> hasComment commentAfterOnSameLine v \<Longrightarrow> \<not> hasComment commentAfter v \<Longrightarrow> document (comment_after z v s) = document s"
begin

definition settled :: "styler \<Rightarrow> bool" where
  "settled s \<longleftrightarrow> ready z s \<and> spaces (indentString s)"

definition writes_layout :: "Value \<Rightarrow> bool" where
  "writes_layout v \<longleftrightarrow> (\<forall>s. settled s \<longrightarrow> (\<exists>x. document (styled_value z v s) = document s @ x \<and> layout v x))"

lemma settled_kept: "kept z s t \<Longrightarrow> settled s \<Longrightarrow> settled t"
  using kept_ready by (auto simp: settled_def kept_def)

lemma element_step_text:
  assumes "settled s" "bare (snd e)" "small (snd e)" "child_of m (CZIndex i) = snd e" "writes_layout (snd e)"
    "b \<Longrightarrow> unat i < length (childValues s) \<and> layout (snd e) (childValues s ! unat i)"
  shows "\<exists>x. document (element_step z m b i s) = document s @ x \<and> element_piece layout e x"
proof (cases b)
  case True
  obtain w where "document (write_with_indent z (child_text i s) s) = document s @ w @ child_text i s" "spaces w"
    using assms(1) indent_spaces unfolding settled_def by blast
  with True assms(4,6) bare_no_comment [OF assms(2)] show ?thesis
    by (auto simp: element_step_def before_silent child_text_def intro!: element_piece_self layout_spaced)
next
  case False
  obtain w where w: "document (open_child z s) = document s @ w" "spaces w"
    using assms(1) open_spaces unfolding settled_def by blast
  obtain x where "document (styled_value z (snd e) (open_child z s)) = document (open_child z s) @ x" "layout (snd e) x"
    using assms(5) settled_kept [OF kept_primitives(2) assms(1)] unfolding writes_layout_def by blast
  with w False assms(4) bare_no_comment [OF assms(2)] show ?thesis
    by (auto simp: element_step_def before_silent close_silent Let_def intro!: element_piece_self layout_spaced)
qed

lemma elements_text:
  assumes "\<forall>e \<in> set es. bare (snd e) \<and> small (snd e) \<and> writes_layout (snd e)"
  shows "list_all2 (\<lambda>i e. child_of m (CZIndex i) = snd e \<and> (b \<longrightarrow> unat i < length cs \<and> layout (snd e) (cs ! unat i))) is es \<Longrightarrow> es \<noteq> [] \<Longrightarrow>
    settled s \<Longrightarrow> (b \<Longrightarrow> childValues s = cs) \<Longrightarrow>
    \<exists>x. document (styled_elements z m b is s) = document s @ x \<and> joined (element_piece layout) es x"
  using assms
proof (induction es arbitrary: "is" s)
  case (Cons e es)
  then obtain i is' where i: "is = i # is'" "child_of m (CZIndex i) = snd e" "b \<Longrightarrow> unat i < length cs \<and> layout (snd e) (cs ! unat i)"
    "list_all2 (\<lambda>i e. child_of m (CZIndex i) = snd e \<and> (b \<longrightarrow> unat i < length cs \<and> layout (snd e) (cs ! unat i))) is' es"
    by (auto simp: list_all2_Cons2)
  let ?t = "element_step z m b i s" and ?v = "child_of m (CZIndex i)"
  let ?u = "comment_after z ?v (emit '','' ?t)"
  have r: "ready z s" using Cons.prems(3) by (simp add: settled_def)
  have k: "kept z s ?t" "b \<Longrightarrow> childValues ?t = childValues s"
    using element_step_kept [of m i s b] styled_kept r Cons.prems(4,5) i(2,3) by auto
  obtain x where x: "document ?t = document s @ x" "element_piece layout e x"
    using element_step_text [OF Cons.prems(3), of e m i b] Cons.prems(4,5) i(2,3) by auto
  have a: "document (comment_after z ?v t) = document t" for t
    using Cons.prems(5) i(2) after_silent bare_no_comment by simp
  show ?case
  proof (cases "es = []")
    case True
    then show ?thesis using i(1,4) x a joined_one by (auto simp: styled_elements_step simp del: styled_elements.simps)
  next
    case False
    have u: "steady ?t ?u" by (rule comma_steady)
    then have "settled ?u" "b \<Longrightarrow> childValues ?u = cs"
      using settled_kept [OF kept_trans [OF k(1) steady_kept [OF u]]] Cons.prems(3,4) k(2) by (simp_all add: steady_def)
    then have "\<exists>y. document (styled_elements z m b is' ?u) = document ?u @ y \<and> joined (element_piece layout) es y"
      using Cons.prems(5) by (intro Cons.IH [OF i(4) False]) simp_all
    then obtain y where y: "document (styled_elements z m b is' ?u) = document ?u @ y" "joined (element_piece layout) es y" by blast
    moreover have "is' \<noteq> []" using False i(4) by auto
    ultimately show ?thesis
      using i(1) x a joined_Cons [of "element_piece layout", OF x(2) y(2)]
      by (auto simp: styled_elements_step emit_def simp del: styled_elements.simps)
  qed
qed simp

lemma member_step_text:
  assumes "settled s" "bare (snd e)" "child_of m (CZString (cz_name (fst e))) = snd e" "writes_layout (snd e)"
    "utf8 (cz_name (fst e))" "NUL \<notin> set (cz_name (fst e))" "small (snd e)"
  shows "\<exists>x. document (member_step z m (cz_name (fst e)) s) = document s @ x \<and> member_piece layout e x"
proof -
  let ?n = "cz_name (fst e)"
  let ?s = "member_start z m ?n s"
  obtain w where w: "document (write_with_indent z (quote_name z ?n) s) = document s @ w @ quote_name z ?n" "spaces w"
    using assms(1) indent_spaces unfolding settled_def by blast
  obtain w1 w2 where c: "colon_symbol z = w1 @ '':'' @ w2" "spaces w1" "spaces w2" using colon_json by blast
  have s: "document ?s = document s @ w @ quote_name z ?n @ w1 @ '':'' @ w2"
    using w(1) c(1) assms(3) bare_no_comment [OF assms(2)] by (simp add: member_start_def before_silent emit_def)
  have "kept z s ?s" using member_step_kept(1) [of m ?n s] styled_kept assms(1,3,7) by (simp add: settled_def)
  then obtain x where x: "document (styled_value z (snd e) ?s) = document ?s @ x" "layout (snd e) x"
    using assms(1,4) settled_kept unfolding writes_layout_def by blast
  have "member_piece layout e (w @ quote_name z ?n @ w1 @ '':'' @ w2 @ x)"
    unfolding member_piece_def
    using w(2) c(2,3) name_json [OF assms(5,6)] layout_spaced [OF x(2) c(3)]
    by (intro exI [where x = w] exI [where x = "quote_name z ?n"] exI [where x = w1] exI [where x = "w2 @ x"] exI [where x = "[]"]) simp
  then show ?thesis using x(1) s assms(3) by (auto simp: member_step_def)
qed

lemma members_text:
  assumes "\<forall>e \<in> set es. bare (snd e) \<and> small (snd e) \<and> writes_layout (snd e) \<and> utf8 (cz_name (fst e)) \<and> NUL \<notin> set (cz_name (fst e))"
  shows "list_all2 (\<lambda>n e. child_of m (CZString n) = snd e \<and> n = cz_name (fst e)) ns es \<Longrightarrow> es \<noteq> [] \<Longrightarrow> settled s \<Longrightarrow>
    \<exists>x. document (styled_members z m ns s) = document s @ x \<and> joined (member_piece layout) es x"
  using assms
proof (induction es arbitrary: ns s)
  case (Cons e es)
  let ?n = "cz_name (fst e)"
  obtain ns' where n: "ns = ?n # ns'" "child_of m (CZString ?n) = snd e"
    "list_all2 (\<lambda>n e. child_of m (CZString n) = snd e \<and> n = cz_name (fst e)) ns' es"
    using Cons.prems(1) by (auto simp: list_all2_Cons2)
  let ?t = "member_step z m ?n s" and ?v = "child_of m (CZString ?n)"
  let ?u = "comment_after z ?v (emit '','' ?t)"
  have k: "kept z s ?t"
    using member_step_kept(2) [of m ?n s] styled_kept Cons.prems(3,4) n(2) by (simp add: settled_def)
  obtain x where x: "document ?t = document s @ x" "member_piece layout e x"
    using member_step_text [OF Cons.prems(3), of e m] Cons.prems(4) n(2) by auto
  have a: "document (comment_after z ?v t) = document t" for t
    using Cons.prems(4) n(2) after_silent bare_no_comment by simp
  show ?case
  proof (cases "es = []")
    case True
    then show ?thesis using n(1,3) x a joined_one by (auto simp: styled_members_step simp del: styled_members.simps)
  next
    case False
    have "settled ?u" using settled_kept [OF kept_trans [OF k steady_kept [OF comma_steady]]] Cons.prems(3) by simp
    then have "\<exists>y. document (styled_members z m ns' ?u) = document ?u @ y \<and> joined (member_piece layout) es y"
      using Cons.prems(4) by (intro Cons.IH [OF n(3) False]) simp_all
    then obtain y where y: "document (styled_members z m ns' ?u) = document ?u @ y" "joined (member_piece layout) es y" by blast
    moreover have "ns' \<noteq> []" using False n(3) by auto
    ultimately show ?thesis
      using n(1) x a joined_Cons [of "member_piece layout", OF x(2) y(2)]
      by (auto simp: styled_members_step emit_def simp del: styled_members.simps)
  qed
qed simp

lemma flat_layout:
  assumes "plain v" "small v" "\<not> filled_container v"
  shows "layout v (flat_text z v)"
proof -
  obtain p c a b where v: "v = Value p c a b" by (cases v)
  have "m = []" if "p = PArray m \<or> p = PObject m" for m
  proof (rule ccontr)
    assume "m \<noteq> []"
    have "length m < 2 ^ 32" "value_size v = idx (length m)"
      using assms(1,2) that array_size [of m c a b] by (auto simp: v plain_payload.simps small_payload.simps index_keys_def value_size_def idx_def)
    then have "value_size v \<noteq> 0" using \<open>m \<noteq> []\<close> unat_idx by (metis length_0_conv unat_0)
    then show False using assms(3) that by (auto simp: v filled_container_def isArray_def isObject_def type_of_def value_empty_def)
  qed
  then have "m = []" if "p = PArray m \<or> p = PObject m" for m using that by blast
  moreover have "layout (Value (PArray []) c a b) ''[]''" "layout (Value (PObject []) c a b) ''{}''"
    using layout_array [of "[]" "[]" "[]" "[]" c a b] layout_object [of "[]" "[]" "[]" "[]" c a b] by (simp_all add: bracketed_def)
  moreover have "layout v (flat_text z v)" if "scalar_text p (flat_text z v)"
    using layout_scalar [of "[]" p _ c a b] that v by simp
  ultimately show ?thesis using assms(1) value_json null_json
    by (cases p) (auto simp: v flat_text_def scalar_text_def plain_payload.simps)
qed

lemma line_layout:
  assumes "list_all2 (\<lambda>e t. layout (snd e) t) m (childValues s)" "m \<noteq> []" "length m < 2 ^ 31"
  shows "\<exists>x. document (write_line z (idx (length m)) s) = document s @ x \<and> layout (Value (PArray m) c a b) x"
proof -
  let ?cs = "childValues s"
  obtain w w' w'' where w: "line_open z = ''['' @ w" "line_separator z = '','' @ w'" "line_close z = w'' @ '']''" "spaces w" "spaces w'" "spaces w''"
    using line_json by blast
  have l: "length ?cs = length m" "unat (idx (length m)) = length m"
    using list_all2_lengthD [OF assms(1)] assms(3) by (simp_all add: unat_idx)
  have c: "?cs \<noteq> []" "length ?cs < 2 ^ 32" using l assms(2,3) by auto
  have r: "index_range 0 (idx (length m)) = map idx [0..<length ?cs]" by (simp add: index_range_def l)
  have "map (\<lambda>i. (if i > 0 then line_separator z else []) @ child_text i s) (map idx [0..<length ?cs]) =
      map (\<lambda>i. (if i > 0 then line_separator z else []) @ ?cs ! unat i) (map idx [0..<length ?cs])"
    using c(2) by (auto simp: child_text_def unat_idx)
  then have t: "line_text z (idx (length m)) s = line_open z @ (hd ?cs @ concat (map (\<lambda>t. line_separator z @ t) (tl ?cs))) @ line_close z"
    unfolding line_text_def r using line_texts [OF c, of "line_separator z"] by (simp only:)
  from layout_joined(1) [of "[]" w'', OF _ w(6) joined_line [OF assms(1,2) w(4,5)], of c a b] t w(1-3) l
  show ?thesis by (simp add: write_line_def emit_def require_def)
qed

lemma bracketed_text:
  assumes "settled s" "\<And>t. settled t \<Longrightarrow> childValues t = childValues s \<Longrightarrow> kept z t (f t) \<and> (\<exists>x. document (f t) = document t @ x \<and> Q x)"
  shows "\<exists>w x w'. document (write_with_indent z d (unindent (indent_unit z) (f (indent (indent_unit z) (write_with_indent z c s))))) =
    document s @ w @ c @ x @ w' @ d \<and> spaces w \<and> spaces w' \<and> Q x"
proof -
  let ?u = "indent_unit z"
  let ?s = "write_with_indent z c s"
  let ?t = "f (indent ?u ?s)"
  obtain w where w: "document ?s = document s @ w @ c" "spaces w" using assms(1) indent_spaces unfolding settled_def by blast
  have s: "settled ?s" "childValues ?s = childValues s"
    using settled_kept [OF kept_primitives(1) assms(1)] steady_with_indent by (simp_all add: steady_def)
  then have "settled (indent ?u ?s)" using unit_spaces by (simp add: settled_def) (simp add: indent_def)
  with assms(2) [of "indent ?u ?s"] s(2) obtain x where x: "kept z (indent ?u ?s) ?t" "document ?t = document (indent ?u ?s) @ x" "Q x" by auto
  have "settled (unindent ?u ?t)" using settled_kept [OF kept_indented [OF x(1)] s(1)] .
  then obtain w' where "document (write_with_indent z d (unindent ?u ?t)) = document (unindent ?u ?t) @ w' @ d" "spaces w'"
    using indent_spaces unfolding settled_def by blast
  moreover have "document (unindent ?u ?t) = document ?t" "document (indent ?u ?s) = document ?s"
    by (simp_all add: unindent_def require_def indent_def)
  ultimately show ?thesis using w x(2,3) by auto
qed

lemma array_layout:
  assumes "settled s" "plain (Value (PArray m) c a b)" "small_all m" "\<forall>e \<in> set m. bare (snd e) \<and> small (snd e) \<and> writes_layout (snd e)" "m \<noteq> []"
  shows "\<exists>x. document (styled_array z (idx (length m)) m s) = document s @ x \<and> layout (Value (PArray m) c a b) x"
proof -
  have m: "index_keys 0 m" "length m < 2 ^ 31" "\<forall>e \<in> set m. plain (snd e)"
    using assms(2) by (simp_all add: plain_payload.simps index_keys_def plain_all_iff)
  have r: "index_range 0 (idx (length m)) = map idx [0..<length m]" using m(2) by (simp add: index_range_def unat_idx)
  have found: "list_all2 (\<lambda>i e. child_of m (CZIndex i) = snd e) (map idx [0..<length m]) m" by (rule element_found [OF m(1,2)])
  obtain mb cs where mb: "styled_multiline z (idx (length m)) m s = (mb, s\<lparr>childValues := cs\<rparr>)"
    "if always_multiline z then mb \<and> cs = childValues s
     else mb \<and> cs = [] \<or> cs = map (child_line z m) (map idx [0..<length m]) \<and> (\<forall>i \<in> set (map idx [0..<length m]). \<not> filled_container (child_of m (CZIndex i)))"
    using multiline_cases [OF assms(3), of s z "idx (length m)"] assms(1) unfolding r settled_def ready_def by blast
  let ?s = "s\<lparr>childValues := cs\<rparr>"
  have k: "kept z s ?s" using mb(2) assms(1) by (auto simp: kept_collected settled_def ready_def)
  have s: "settled ?s" by (rule settled_kept [OF k assms(1)])
  have flat: "list_all2 (\<lambda>e t. layout (snd e) t) m cs" if "cs \<noteq> [] \<or> \<not> mb"
  proof -
    have cs: "cs = map (\<lambda>k. child_line z m (idx k)) [0..<length m]" "\<forall>k < length m. \<not> filled_container (child_of m (CZIndex (idx k)))"
      using that mb(2) assms(1) by (auto simp: settled_def ready_def split: if_splits)
    have "layout (snd (m ! k)) (child_line z m (idx k))" if "k < length m" for k
      using cs(2) that list_all2_nthD [OF found, of k] assms(4) m(3) flat_layout by (auto simp: child_line_def)
    then show ?thesis using cs(1) by (auto simp: list_all2_conv_all_nth)
  qed
  show ?thesis
  proof (cases mb)
    case True
    let ?f = "\<lambda>s. styled_elements z m (childValues s \<noteq> []) (map idx [0..<length m]) s"
    have "kept z t (?f t) \<and> (\<exists>x. document (?f t) = document t @ x \<and> joined (element_piece layout) m x)" if t: "settled t" "childValues t = childValues ?s" for t
    proof
      have cs: "childValues t = cs" "cs \<noteq> [] \<Longrightarrow> length cs = length m" using t(2) flat list_all2_lengthD by (simp, fastforce)
      have i: "\<forall>i \<in> set (map idx [0..<length m]). unat i < length m" using m(2) by (auto simp: unat_idx)
      show "kept z t (?f t)"
        using t(1) cs i by (intro elements_kept styled_kept small_child [OF assms(3)]) (auto simp: settled_def)
      have "list_all2 (\<lambda>i e. child_of m (CZIndex i) = snd e \<and> (childValues t \<noteq> [] \<longrightarrow> unat i < length cs \<and> layout (snd e) (cs ! unat i))) (map idx [0..<length m]) m"
        using found flat cs m(2) by (auto simp: list_all2_conv_all_nth unat_idx)
      from elements_text [OF assms(4) this assms(5) t(1)] cs(1)
      show "\<exists>x. document (?f t) = document t @ x \<and> joined (element_piece layout) m x" by simp
    qed
    from bracketed_text [OF s, of ?f "joined (element_piece layout) m" "'']''" "''[''", OF this]
    obtain w x w' where "document (write_with_indent z '']'' (unindent (indent_unit z) (?f (indent (indent_unit z) (write_with_indent z ''['' ?s))))) =
        document s @ w @ ''['' @ x @ w' @ '']''" "spaces w" "spaces w'" "joined (element_piece layout) m x" by auto
    with layout_joined(1) [of w w' m x c a b] show ?thesis using True mb(1) by (simp add: styled_array_def r Let_def)
  next
    case False
    then show ?thesis using line_layout [of m ?s c a b] flat assms(5) m(2) mb(1) by (simp add: styled_array_def)
  qed
qed

lemma object_layout:
  assumes "settled s" "plain (Value (PObject m) c a b)" "small_all m" "m \<noteq> []"
    "\<forall>e \<in> set m. bare (snd e) \<and> small (snd e) \<and> writes_layout (snd e) \<and> NUL \<notin> set (cz_name (fst e))"
  shows "\<exists>x. document (styled_value z (Value (PObject m) c a b) s) = document s @ x \<and> layout (Value (PObject m) c a b) x"
proof -
  have k: "name_keys m" "\<forall>e \<in> set m. utf8 (cz_name (fst e))" using assms(2) by (auto simp: plain_payload.simps name_keys_def)
  let ?f = "\<lambda>s. styled_members z m (map (cz_name \<circ> fst) m) s"
  have "kept z t (?f t) \<and> (\<exists>x. document (?f t) = document t @ x \<and> joined (member_piece layout) m x)" if t: "settled t" for t
  proof
    show "kept z t (?f t)" using t by (intro members_kept styled_kept small_child [OF assms(3)]) (auto simp: settled_def)
    show "\<exists>x. document (?f t) = document t @ x \<and> joined (member_piece layout) m x"
      using assms(5) k(2) by (intro members_text [OF _ member_found [OF k(1)] assms(4) t]) blast
  qed
  from bracketed_text [OF assms(1), of ?f "joined (member_piece layout) m" "''}''" "''{''", OF this]
  obtain w x w' where "document (write_with_indent z ''}'' (unindent (indent_unit z) (?f (indent (indent_unit z) (write_with_indent z ''{'' s))))) =
      document s @ w @ ''{'' @ x @ w' @ ''}''" "spaces w" "spaces w'" "joined (member_piece layout) m x" by auto
  with layout_joined(2) [of w w' m x c a b] assms(4) show ?thesis by (simp add: styled_value.simps Let_def)
qed

lemma styled_layout: "plain v \<Longrightarrow> bare v \<Longrightarrow> small v \<Longrightarrow> writes_layout v"
proof (induction "size v" arbitrary: v rule: less_induct)
  case less
  obtain p c a b where v: "v = Value p c a b" by (cases v)
  have children: "\<forall>e \<in> set m. bare (snd e) \<and> small (snd e) \<and> writes_layout (snd e)" "small_all m" if "p = PArray m \<or> p = PObject m" for m
  proof -
    show "small_all m" using less.prems(3) that by (auto simp: v small_payload.simps)
    then have "plain (snd e)" "bare (snd e)" "small (snd e)" "size (snd e) < size v" if "e \<in> set m" for e
      using less.prems(1,2) \<open>p = PArray m \<or> p = PObject m\<close> that size_element [OF that]
      by (auto simp: v plain_payload.simps plain_all_iff bare_payload.simps bare_all_iff small_all_iff)
    then show "\<forall>e \<in> set m. bare (snd e) \<and> small (snd e) \<and> writes_layout (snd e)" using less.hyps by blast
  qed
  show ?case
  proof (cases "filled_container v")
    case False
    then show ?thesis using styled_flat [OF less.prems(3)] flat_layout [OF less.prems(1,3)]
      by (auto simp: writes_layout_def settled_def ready_def pushValue_def emit_def)
  next
    case True
    then obtain m where m: "p = PArray m \<or> p = PObject m" "m \<noteq> []" using filled_cases v by blast
    show ?thesis unfolding writes_layout_def
    proof (intro allI impI)
      fix s assume s: "settled s"
      show "\<exists>x. document (styled_value z v s) = document s @ x \<and> layout v x"
      proof (cases p)
        case (PArray m')
        then have m': "m' = m" using m(1) by simp
        have "value_size v \<noteq> 0" using True by (auto simp: filled_container_def value_empty_def)
        moreover have "value_size v = idx (length m)" using array_size less.prems(1) by (simp add: v PArray m' plain_payload.simps index_keys_def)
        ultimately show ?thesis
          using array_layout [OF s, of m c a b] children [OF m(1)] less.prems(1) m(2) by (simp add: v PArray m' styled_array_eq)
      next
        case (PObject m')
        then have m': "m' = m" using m(1) by simp
        have "\<forall>e \<in> set m. NUL \<notin> set (cz_name (fst e))" using less.prems(2) by (simp add: v PObject m' bare_payload.simps)
        then show ?thesis
          using object_layout [OF s, of m c a b] children [OF m(1)] less.prems(1) m(2) by (simp add: v PObject m')
      qed (use m(1) in auto)
    qed
  qed
qed

end

section \<open>JSON writers\<close>

lemma spaces_constants [simp]: "spaces '' ''" "spaces [CHR 0x0A]" "spaces [CHR 0x09]" "spaces (replicate n (CHR '' ''))"
  by (simp_all add: is_space_def spaces_def list_all_iff)

lemma valueToQuotedString_text: "utf8 x \<Longrightarrow> NUL \<notin> set x \<Longrightarrow> string_text x (valueToQuotedString x)"
  by (simp add: valueToQuotedString_def cstr_id quoted_string_text)

lemma sw_indent_text: "spaces (indentString s) \<Longrightarrow> \<exists>w. document (sw_writeIndent s) = document s @ w \<and> spaces w"
  by (auto simp: sw_writeIndent_def emit_def is_space_def intro: exI [where x = "[]"])

lemma no_comments_silent:
  "\<not> hasComment commentBefore v \<Longrightarrow> sw_writeCommentBeforeValue v s = s"
  "\<not> hasComment commentBefore v \<Longrightarrow> ssw_writeCommentBeforeValue v s = s"
  "\<not> hasComment commentBefore v \<Longrightarrow> bsw_writeCommentBeforeValue w v s = s"
  "\<not> hasComment commentAfterOnSameLine v \<Longrightarrow> \<not> hasComment commentAfter v \<Longrightarrow> document (sw_writeCommentAfterValueOnSameLine v s) = document s"
  "\<not> hasComment commentAfterOnSameLine v \<Longrightarrow> \<not> hasComment commentAfter v \<Longrightarrow> document (ssw_writeCommentAfterValueOnSameLine v s) = document s"
  "\<not> hasComment commentAfterOnSameLine v \<Longrightarrow> \<not> hasComment commentAfter v \<Longrightarrow> document (bsw_writeCommentAfterValueOnSameLine w v s) = document s"
  by (simp_all add: sw_writeCommentBeforeValue_def ssw_writeCommentBeforeValue_def bsw_writeCommentBeforeValue_def
    sw_writeCommentAfterValueOnSameLine_def ssw_writeCommentAfterValueOnSameLine_def bsw_writeCommentAfterValueOnSameLine_def)

lemma json_parts:
  "\<exists>w w'. '' : '' = w @ '':'' @ w' \<and> spaces w \<and> spaces w'"
  "\<exists>w w' w''. ''[ '' = ''['' @ w \<and> '', '' = '','' @ w' \<and> '' ]'' = w'' @ '']'' \<and> spaces w \<and> spaces w' \<and> spaces w''"
  by (rule exI [where x = "'' ''"], rule exI [where x = "'' ''"], simp add: is_space_def)
    (rule exI [where x = "'' ''"], rule exI [where x = "'' ''"], rule exI [where x = "'' ''"], simp add: is_space_def)

interpretation sw_json: json_style sw_style
proof unfold_locales
  fix x and s :: styler assume "spaces (indentString s)"
  then show "\<exists>w. document (write_with_indent sw_style x s) = document s @ w @ x \<and> spaces w"
    "\<exists>w. document (open_child sw_style s) = document s @ w \<and> spaces w"
    using sw_indent_text by (auto simp: sw_style_def sw_writeWithIndent_def emit_def)
qed (use json_parts in \<open>simp_all add: sw_style_def quoted_string_text valueToQuotedString_text no_comments_silent\<close>)

lemma ssw_json:
  assumes "spaces ind"
  shows "json_style (ssw_style ind)"
proof unfold_locales
  fix x and s :: styler assume "spaces (indentString s)"
  then show "\<exists>w. document (write_with_indent (ssw_style ind) x s) = document s @ w @ x \<and> spaces w"
    "\<exists>w. document (open_child (ssw_style ind) s) = document s @ w \<and> spaces w"
    by (auto simp: ssw_style_def ssw_writeWithIndent_def ssw_writeIndent_def emit_def is_space_def)
qed (use json_parts assms in \<open>simp_all add: ssw_style_def quoted_string_text valueToQuotedString_text no_comments_silent\<close>)

text \<open>The settings of \<open>StreamWriterBuilder\<close> under which the text is JSON.\<close>

definition json_settings :: "BuiltStyledStreamWriter \<Rightarrow> bool" where
  "json_settings w \<longleftrightarrow> b_nullSymbol w = ''null'' \<and> b_colonSymbol w \<in> {'':'', '': '', '' : ''} \<and> list_all is_space (b_indentation w) \<and>
     list_all is_space (b_endingLineFeedSymbol w)"

lemma bsw_json:
  assumes "json_settings w"
  shows "json_style (bsw_style w)"
proof unfold_locales
  have c: "\<exists>w1 w2. x = w1 @ '':'' @ w2 \<and> spaces w1 \<and> spaces w2" if "x \<in> {'':'', '': '', '' : ''}" for x
    using that by (auto simp: is_space_def Cons_eq_append_conv)
  show "\<exists>wa w'. colon_symbol (bsw_style w) = wa @ '':'' @ w' \<and> spaces wa \<and> spaces w'"
    using c assms by (simp add: bsw_style_def json_settings_def)
  show "\<exists>wa w' w''. line_open (bsw_style w) = ''['' @ wa \<and> line_separator (bsw_style w) = '','' @ w' \<and>
      line_close (bsw_style w) = w'' @ '']'' \<and> spaces wa \<and> spaces w' \<and> spaces w''"
    using json_parts(2) by (auto simp: bsw_style_def)
  show "string_text x (quote_value (bsw_style w) x)" "string_text x (quote_name (bsw_style w) x)" if "utf8 x" for x
    using that quoted_string_text quoted_bytes_text by (cases "b_emitUTF8 w"; simp add: bsw_style_def)+
  fix x and s :: styler assume "spaces (indentString s)"
  then show "\<exists>wa. document (write_with_indent (bsw_style w) x s) = document s @ wa @ x \<and> spaces wa"
    "\<exists>wa. document (open_child (bsw_style w) s) = document s @ wa \<and> spaces wa"
    by (auto simp: bsw_style_def bsw_writeWithIndent_def bsw_writeIndent_def emit_def is_space_def)
qed (use assms in \<open>simp_all add: bsw_style_def json_settings_def spaces_def no_comments_silent\<close>)

lemma new_settled: "json_style z \<Longrightarrow> json_style.settled z (new_styler i)"
  by (simp add: json_style.settled_def new_styler_def ready_def)

lemma styled_text:
  assumes "json_style z" "plain v" "bare v" "small v"
  shows "\<exists>x. document (styled_value z v (new_styler i)) = x \<and> layout v x"
  using json_style.styled_layout [OF assms] new_settled [OF assms(1), of i]
  by (auto simp: json_style.writes_layout_def [OF assms(1)] new_styler_def)

lemma new_indented [simp]: "(new_styler True)\<lparr>indented := True\<rparr> = new_styler True" "indented (new_styler i) = i"
  by (simp_all add: new_styler_def)

lemma written_layouts:
  assumes "plain v" "bare v" "small v"
  shows "\<exists>x. StyledWriter_write v = x @ [CHR 0x0A] \<and> layout v x"
    "spaces ind \<Longrightarrow> \<exists>x. StyledStreamWriter_write ind v = x @ [CHR 0x0A] \<and> layout v x"
    "json_settings w \<Longrightarrow> \<exists>x. BuiltStyledStreamWriter_write w v = x @ b_endingLineFeedSymbol w \<and> layout v x"
proof -
  note q = no_comments_silent bare_no_comment [OF assms(2)]
  show "\<exists>x. StyledWriter_write v = x @ [CHR 0x0A] \<and> layout v x"
    using styled_text [OF sw_json.json_style_axioms assms, of False]
    by (simp add: StyledWriter_write_def StyledWriter_run_def sw_writeValue_def emit_def q)
  show "\<exists>x. StyledStreamWriter_write ind v = x @ [CHR 0x0A] \<and> layout v x" if "spaces ind"
    using styled_text [OF ssw_json [OF that] assms, of True]
    by (simp add: StyledStreamWriter_write_def StyledStreamWriter_run_def ssw_writeValue_def emit_def q Let_def)
  show "\<exists>x. BuiltStyledStreamWriter_write w v = x @ b_endingLineFeedSymbol w \<and> layout v x" if "json_settings w"
    using styled_text [OF bsw_json [OF that] assms, of True]
    by (simp add: BuiltStyledStreamWriter_write_def BuiltStyledStreamWriter_run_def bsw_writeValue_def emit_def q Let_def)
qed

section \<open>The round trips\<close>

text \<open>
  C37. \<open>Json::Reader\<close> reads back what \<open>StyledWriter\<close>, \<open>StyledStreamWriter\<close> and \<open>BuiltStyledStreamWriter\<close> write for a value without
  reals and comments, with integers typed as the parser types them, UTF-8 strings, arrays without gaps and member names
  without NUL (the first two writers cut a name there), nested within the limit. The indentation is any white space; for
  \<open>BuiltStyledStreamWriter\<close> the settings are such that the text is JSON (\<open>json_settings\<close>: the null symbol \<open>null\<close>, a colon with or without
  spaces, indentation and line feed of white space), whatever the lines the arrays are broken into and the handling of UTF-8.
\<close>

theorem parse_reads_styled_text:
  assumes "plain v" "bare v" "small v" "nesting v \<le> stackLimit_g" "\<not> strictRoot (features rd)" "spaces ind" "json_settings w"
    "t \<in> {StyledWriter_write v, StyledStreamWriter_write ind v, BuiltStyledStreamWriter_write w v}" "length t \<le> 2147483642"
  shows "\<exists>s. parse t u False rd = Ok (True, s) \<and> good s \<and> value_equal (root s) v"
proof -
  have "spaces (b_endingLineFeedSymbol w)" using assms(7) by (simp add: json_settings_def spaces_def)
  then obtain x ws where "t = x @ ws" "layout v x" "spaces ws"
    using written_layouts [OF assms(1-3)] assms(6-8) spaces_constants(2) by blast
  with parse_layout [OF _ assms(1,4) _ _ assms(5)] assms(9) show ?thesis by blast
qed

definition default_writer :: BuiltStyledStreamWriter where
  "default_writer = \<lparr>b_indentation = [CHR 0x09], b_cs = CommentAll, b_colonSymbol = '' : '', b_nullSymbol = ''null'', b_endingLineFeedSymbol = [],
     b_useSpecialFloats = False, b_emitUTF8 = False, b_precision = 17, b_precisionType = significantDigits\<rparr>"

definition demo_styled_object :: Value where
  "demo_styled_object = initBasic (PObject [(CZStr ''a'', initBasic (PBool True))])"

lemma demo_styled_object_ok:
  "plain demo_styled_object" "bare demo_styled_object" "small demo_styled_object" "nesting demo_styled_object = 2"
  by (simp_all add: demo_styled_object_def initBasic_def plain_payload.simps bare_payload.simps small_payload.simps
    nesting_payload.simps utf8_ascii sorted_map_Cons)

lemma demo_styled_text: "StyledWriter_write demo_styled_object = ''{'' @ [CHR 0x0A] @ ''   '' @ [dquote] @ ''a'' @ [dquote] @ '' : true'' @ [CHR 0x0A] @ ''}'' @ [CHR 0x0A]"
proof -
  have "valueToQuotedString ''a'' = [dquote] @ ''a'' @ [dquote]" by code_simp
  moreover have "valueToString_bool True = ''true''" by code_simp
  moreover have "CZString ''a'' = CZStr ''a''" by (simp add: CZString_short)
  ultimately show ?thesis
    by (simp add: StyledWriter_write_def StyledWriter_run_def sw_writeValue_def demo_styled_object_def initBasic_def styled_value.simps
      sw_style_def sw_writeWithIndent_def sw_writeIndent_def emit_def new_styler_def indent_def unindent_def require_def child_of_def
      sw_writeCommentBeforeValue_def sw_writeCommentAfterValueOnSameLine_def hasComment_def Comments_has_def pushValue_def Let_def replicate_Suc numeral_3_eq_3)
qed

theorem parse_reads_styled_text_witness:
  "\<exists>s. parse (StyledWriter_write demo_styled_object) nullSingleton False (new_reader Features_all) = Ok (True, s) \<and>
    good s \<and> value_equal (root s) demo_styled_object"
  by (rule parse_reads_styled_text [where ind = "[CHR 0x09]" and w = default_writer])
    (simp_all add: demo_styled_object_ok demo_styled_text json_settings_def default_writer_def stackLimit_g_def new_reader_def Features_all_def is_space_def)

section \<open>The default settings\<close>

lemma put_all_get:
  "wf_value v \<Longrightarrow> type_of v = nullValue \<or> type_of v = objectValue \<Longrightarrow> \<forall>(k, x) \<in> set kvs. length k < 2 ^ 30 \<and> wf_value x \<Longrightarrow>
    \<exists>v'. put_all kvs v = Ok v' \<and> (\<forall>k. length k < 2 ^ 30 \<longrightarrow>
      member_get k v' = (case map_of (rev kvs) k of Some x \<Rightarrow> Inr x | None \<Rightarrow> member_get k v))"
proof (induction kvs arbitrary: v)
  case (Cons kx kvs)
  obtain k x where kx: "kx = (k, x)" by (cases kx)
  obtain v1 where v1: "member_put k x v = Inr v1"
    using Cons.prems(2) by (auto simp: member_put_def resolveReference_def json_assert_def)
  have "wf_value v1" "type_of v1 = objectValue" using wf_member_put [OF Cons.prems(1) _ v1] Cons.prems(3) kx by auto
  then obtain v' where v': "put_all kvs v1 = Ok v'" "\<forall>k. length k < 2 ^ 30 \<longrightarrow>
      member_get k v' = (case map_of (rev kvs) k of Some x \<Rightarrow> Inr x | None \<Rightarrow> member_get k v1)"
    using Cons.IH [of v1] Cons.prems(3) by auto
  have g: "member_get k' v1 = (if k' = k then Inr x else member_get k' v)" if "length k' < 2 ^ 30" for k'
    using member_get_put [OF Cons.prems(1) v1, of k'] that Cons.prems(3) kx by (simp add: CZString_short)
  show ?case
    using v' v1 g by (auto simp: kx lift_def map_add_def split: option.splits)
qed simp

lemma default_settings: "\<exists>v. setDefaults nullSingleton = Ok v \<and> newStreamWriter v = Ok default_writer"
proof -
  define kvs where "kvs = [(''commentStyle'', initBasic (PString ''All'')), (''indentation'', initBasic (PString [CHR 0x09])),
      (''enableYAMLCompatibility'', Value_of_bool False), (''dropNullPlaceholders'', Value_of_bool False),
      (''useSpecialFloats'', Value_of_bool False), (''emitUTF8'', Value_of_bool False),
      (''precision'', Value_of_Int 17), (''precisionType'', initBasic (PString ''significant''))]"
  have "\<forall>(k, x) \<in> set kvs. length k < 2 ^ 30 \<and> wf_value x"
    by (simp add: kvs_def initBasic_def Value_of_bool_def Value_of_Int_def wf_iff)
  then obtain v where v: "put_all kvs nullSingleton = Ok v" "\<forall>k. length k < 2 ^ 30 \<longrightarrow>
      member_get k v = (case map_of (rev kvs) k of Some x \<Rightarrow> Inr x | None \<Rightarrow> member_get k nullSingleton)"
    using put_all_get [of nullSingleton kvs] by (auto simp: nullSingleton_def Value_of_type_def initBasic_def wf_iff type_of_def)
  have k: "member_get ''commentStyle'' v = Inr (initBasic (PString ''All''))" "member_get ''indentation'' v = Inr (initBasic (PString [CHR 0x09]))"
    "member_get ''enableYAMLCompatibility'' v = Inr (Value_of_bool False)" "member_get ''dropNullPlaceholders'' v = Inr (Value_of_bool False)"
    "member_get ''useSpecialFloats'' v = Inr (Value_of_bool False)" "member_get ''emitUTF8'' v = Inr (Value_of_bool False)"
    "member_get ''precision'' v = Inr (Value_of_Int 17)" "member_get ''precisionType'' v = Inr (initBasic (PString ''significant''))"
    using v(2) by (simp_all add: kvs_def)
  have a: "asString (initBasic (PString x)) = Inr x" "asBool (Value_of_bool b) = Inr b" "asUInt (Value_of_Int 17) = Inr 17" for x b
    by (simp_all add: asString_def asBool_def asUInt_def initBasic_def Value_of_bool_def Value_of_Int_def isUInt_def json_assert_def int_limits)
  have "newStreamWriter v = Ok default_writer"
    by (simp add: newStreamWriter_def setting_string_def setting_bool_def setting_uint_def k a lift_def comment_style_of_def precision_type_of_def default_writer_def)
  moreover have "setDefaults nullSingleton = Ok v" using v(1) by (simp add: setDefaults_def kvs_def)
  ultimately show ?thesis by blast
qed

text \<open>
  \<open>Value::toStyledString\<close> returns a text that \<open>Json::Reader\<close> reads back, for a value without reals and comments:
  the default settings stored by \<open>setDefaults\<close> are the ones \<open>newStreamWriter\<close> accepts, and they make the text JSON.
\<close>

theorem toStyledString_is_read_back:
  assumes "plain v" "bare v" "small v" "nesting v \<le> stackLimit_g" "length (BuiltStyledStreamWriter_write default_writer v) < 2147483642"
  shows "\<exists>t s. toStyledString v = Ok t \<and> parse t u False (new_reader Features_all) = Ok (True, s) \<and> good s \<and> value_equal (root s) v"
proof -
  obtain b where b: "setDefaults nullSingleton = Ok b" "newStreamWriter b = Ok default_writer" using default_settings by blast
  obtain x where x: "BuiltStyledStreamWriter_write default_writer v = x" "layout v x"
    using written_layouts(3) [OF assms(1-3), of default_writer] by (auto simp: json_settings_def default_writer_def is_space_def)
  have "toStyledString v = Ok (x @ [CHR 0x0A])"
    using b x(1) bare_no_comment [OF assms(2)] by (simp add: toStyledString_def writeString_def)
  moreover have "\<exists>s. parse (x @ [CHR 0x0A]) u False (new_reader Features_all) = Ok (True, s) \<and> good s \<and> value_equal (root s) v"
    using assms(5) x(1) by (intro parse_layout [OF x(2) assms(1,4)]) (simp_all add: new_reader_def Features_all_def is_space_def)
  ultimately show ?thesis by blast
qed

lemma demo_default_text: "BuiltStyledStreamWriter_write default_writer demo_styled_object =
    ''{'' @ [CHR 0x0A, CHR 0x09] @ [dquote] @ ''a'' @ [dquote] @ '' : true'' @ [CHR 0x0A] @ ''}''"
proof -
  have "valueToQuotedStringN ''a'' False = [dquote] @ ''a'' @ [dquote]" by code_simp
  moreover have "valueToString_bool True = ''true''" by code_simp
  moreover have "CZString ''a'' = CZStr ''a''" by (simp add: CZString_short)
  ultimately show ?thesis
    by (simp add: BuiltStyledStreamWriter_write_def BuiltStyledStreamWriter_run_def bsw_writeValue_def default_writer_def demo_styled_object_def
      initBasic_def styled_value.simps bsw_style_def bsw_writeWithIndent_def bsw_writeIndent_def emit_def new_styler_def indent_def unindent_def
      require_def child_of_def bsw_writeCommentBeforeValue_def bsw_writeCommentAfterValueOnSameLine_def hasComment_def Comments_has_def
      pushValue_def Let_def)
qed

theorem toStyledString_is_read_back_witness:
  "\<exists>t s. toStyledString demo_styled_object = Ok t \<and> parse t nullSingleton False (new_reader Features_all) = Ok (True, s) \<and>
    good s \<and> value_equal (root s) demo_styled_object"
  by (rule toStyledString_is_read_back) (simp_all add: demo_styled_object_ok demo_default_text stackLimit_g_def)

text \<open>\<open>validate\<close> without an output parameter tells whether every key is known.\<close>

lemma validate_loop_known: "validate_loop keys m None = Ok (\<forall>e \<in> set m. cz_name (fst e) \<in> set keys, None)"
  by (induction m) (auto split: if_splits)

lemma validate_known_keys:
  "validate settings None = Ok (\<forall>e \<in> set (map_of_value settings). cz_name (fst e) \<in> set valid_keys, None)"
  by (simp add: validate_def validate_loop_known)

end
