(* ===== verification/Our_Reader.thy ===== *)
theory Our_Reader
  imports Json_Reader
begin

text \<open>
  The second parser of the library, \<open>Json::OurReader\<close> (\<open>src/components/jsoncpp/json_reader.cpp\<close>, second half), which
  \<open>CharReaderBuilder\<close> builds: a copy of \<open>Reader\<close> with more options. What the two classes have in common literally (the
  scanner's characters, strings, errors and offsets) is shared; what reads tokens is defined again, as in the source.
\<close>

section \<open>State\<close>

record OurFeatures = Features +
  allowTrailingCommas :: bool
  allowSingleQuotes :: bool
  failIfExtra :: bool
  rejectDupKeys :: bool
  allowSpecialFloats :: bool
  skip_bom :: bool
  stackLimit :: nat

definition OurFeatures_all :: OurFeatures where
  "OurFeatures_all = \<lparr>allowComments = False, strictRoot = False, allowDroppedNullPlaceholders = False, allowNumericKeys = False,
     allowTrailingCommas = False, allowSingleQuotes = False, failIfExtra = False, rejectDupKeys = False,
     allowSpecialFloats = False, skip_bom = False, stackLimit = 0\<rparr>"

record OurReader = "OurFeatures Scanner" +
  lastValueHasAComment :: bool

type_synonym our_parser = "OurReader \<Rightarrow> (bool \<times> OurReader) res"

section \<open>Tokens\<close>

text \<open>The result, whether the loop consumed a line feed, and the state.\<close>

definition our_readCStyleComment :: "OurReader \<Rightarrow> bool \<times> bool \<times> OurReader" where
  "our_readCStyleComment s =
    (let newline = (CHR 0x0A \<in> set (slice (current s) (c_comment (doc s) (current s)) (doc s)));
         (ok, s) = readCStyleComment s
     in (ok, newline, s))"

definition our_readComment :: our_parser where
  "our_readComment s =
    (let commentBegin = current s - 1; (c, s) = getNextChar s;
         (successful, cStyleWithEmbeddedNewline, s) =
           (if c = CHR ''*'' then our_readCStyleComment s
            else if c = CHR ''/'' then (let (ok, s) = readCppStyleComment s in (ok, False, s)) else (False, False, s)) in
     if \<not> successful then Ok (False, s)
     else if collectComments s then
       (let sameLine = (\<not> lastValueHasAComment s \<and>
              (case lastValueEnd s of None \<Rightarrow> False | Some e \<Rightarrow> \<not> containsNewLine (doc s) e commentBegin) \<and>
              (c = CHR ''/'' \<or> \<not> cStyleWithEmbeddedNewline));
            s = (if sameLine then s\<lparr>lastValueHasAComment := True\<rparr> else s)
        in bind (addComment commentBegin (current s) (if sameLine then commentAfterOnSameLine else commentBefore) s)
             (\<lambda>s. Ok (True, s)))
     else Ok (True, s))"

definition our_readNumber :: "bool \<Rightarrow> OurReader \<Rightarrow> bool \<times> OurReader" where
  "our_readNumber checkInf s =
    (if checkInf \<and> current s \<noteq> end_pos s \<and> doc s ! current s = CHR ''I'' then (False, s\<lparr>current := current s + 1\<rparr>)
     else (True, readNumber s))"

abbreviation squote :: char where "squote \<equiv> CHR 0x27"

fun single_scan :: "string \<Rightarrow> bool \<times> string" where
  "single_scan [] = (False, [])"
| "single_scan (c # cs) =
    (if c = bslash then (case cs of [] \<Rightarrow> (False, []) | _ # cs' \<Rightarrow> single_scan cs')
     else if c = squote then (True, cs) else single_scan cs)"

definition readStringSingleQuote :: "OurReader \<Rightarrow> bool \<times> OurReader" where
  "readStringSingleQuote s =
    (let (ok, rest) = single_scan (drop (current s) (doc s)) in (ok, s\<lparr>current := end_pos s - length rest\<rparr>))"

text \<open>\<open>ok = features_.allowSpecialFloats_ && match(pattern)\<close>.\<close>

definition special_match :: "string \<Rightarrow> OurReader \<Rightarrow> bool \<times> OurReader" where
  "special_match pattern s = (if allowSpecialFloats (features s) then match pattern s else (False, s))"

definition signed_token :: "TokenType \<Rightarrow> nat \<Rightarrow> OurReader \<Rightarrow> (bool \<times> Token \<times> OurReader) res" where
  "signed_token infinity start s =
    (let (number, s) = our_readNumber True s in
     if number then tok tokenNumber start True s
     else (let (ok, s) = special_match ''nfinity'' s in tok infinity start ok s))"

definition our_readToken :: "OurReader \<Rightarrow> (bool \<times> Token \<times> OurReader) res" where
  "our_readToken s =
    (let s = skipSpaces s; start = current s; (c, s) = getNextChar s in
     if c = CHR ''{'' then tok tokenObjectBegin start True s
     else if c = CHR ''}'' then tok tokenObjectEnd start True s
     else if c = CHR ''['' then tok tokenArrayBegin start True s
     else if c = CHR '']'' then tok tokenArrayEnd start True s
     else if c = dquote then (let (ok, s) = readString s in tok tokenString start ok s)
     else if c = squote then
       (if allowSingleQuotes (features s) then (let (ok, s) = readStringSingleQuote s in tok tokenString start ok s)
        else tok tokenError start False s)
     else if c = CHR ''/'' then bind (our_readComment s) (\<lambda>(ok, s). tok tokenComment start ok s)
     else if is_digit c then (let (_, s) = our_readNumber False s in tok tokenNumber start True s)
     else if c = CHR ''-'' then signed_token tokenNegInf start s
     else if c = CHR ''+'' then signed_token tokenPosInf start s
     else if c = CHR ''t'' then (let (ok, s) = match ''rue'' s in tok tokenTrue start ok s)
     else if c = CHR ''f'' then (let (ok, s) = match ''alse'' s in tok tokenFalse start ok s)
     else if c = CHR ''n'' then (let (ok, s) = match ''ull'' s in tok tokenNull start ok s)
     else if c = CHR ''N'' then (let (ok, s) = special_match ''aN'' s in tok tokenNaN start ok s)
     else if c = CHR ''I'' then (let (ok, s) = special_match ''nfinity'' s in tok tokenPosInf start ok s)
     else if c = CHR '','' then tok tokenArraySeparator start True s
     else if c = CHR '':'' then tok tokenMemberSeparator start True s
     else if c = NUL then tok tokenEndOfStream start True s
     else tok tokenError start False s)"

section \<open>The scanner moves forward inside the document\<close>

lemma moved_our_readCStyleComment: "in_doc s \<Longrightarrow> our_readCStyleComment s = (ok, nl, s') \<Longrightarrow> moved s s'"
  using moved_readCStyleComment by (fastforce simp: our_readCStyleComment_def split: prod.splits)

lemma moved_our_readComment: "in_doc s \<Longrightarrow> our_readComment s = Ok (ok, s') \<Longrightarrow> moved s s'"
proof -
  assume a: "in_doc s" "our_readComment s = Ok (ok, s')"
  obtain c t where t: "getNextChar s = (c, t)" by force
  define r where "r = (if c = CHR ''*'' then our_readCStyleComment t
      else if c = CHR ''/'' then (let (ok, s) = readCppStyleComment t in (ok, False, s)) else (False, False, t))"
  obtain ok' nl u where u: "r = (ok', nl, u)" by (cases r)
  have st: "moved s t" using moved_getNextChar [OF a(1) t] by simp
  moreover have tu: "moved t u"
    using u moved_in_doc [OF st] unfolding r_def
    by (auto split: if_splits prod.splits intro: moved_our_readCStyleComment moved_readCppStyleComment moved_refl)
  moreover have "moved u s'"
  proof -
    have f: "moved u (if b' then u\<lparr>lastValueHasAComment := True\<rparr> else u)" "collectComments (if b' then u\<lparr>lastValueHasAComment := True\<rparr> else u) = collectComments u" for b'
      using moved_in_doc [OF tu] by (simp_all add: moved_def in_doc_def end_pos_def)
    have "s' = u \<or> collectComments u \<and> (\<exists>a b p b'. addComment a b p (if b' then u\<lparr>lastValueHasAComment := True\<rparr> else u) = Ok s')"
      using a(2) t u unfolding our_readComment_def Let_def r_def by (auto split: if_splits)
    then consider "s' = u" | a b p b' where "collectComments u" "addComment a b p (if b' then u\<lparr>lastValueHasAComment := True\<rparr> else u) = Ok s'"
      by blast
    then show ?thesis
      by cases (use moved_refl [OF moved_in_doc [OF tu]] moved_trans [OF f(1)] moved_addComment [OF moved_in_doc [OF f(1)]] f(2) in blast)+
  qed
  ultimately show ?thesis using moved_trans by blast
qed

lemma moved_our_readNumber: "in_doc s \<Longrightarrow> our_readNumber b s = (ok, s') \<Longrightarrow> moved s s'"
  using moved_readNumber [of s]
  by (auto simp: our_readNumber_def in_doc_def end_pos_def split: if_splits intro!: moved_set)

lemma single_scan_length: "length (snd (single_scan cs)) \<le> length cs"
proof (induction cs rule: single_scan.induct)
  case (2 c cs)
  have "length (snd (single_scan cs')) \<le> length cs" if "c = bslash" "cs = c' # cs'" for c' cs'
    using 2(1) [OF that] that by simp
  moreover have "length (snd (single_scan cs)) \<le> length cs" if "c \<noteq> bslash" "c \<noteq> squote"
    using 2(2) [OF that] .
  ultimately show ?case
    by (simp add: single_scan.simps(2) [of c cs] le_SucI del: single_scan.simps split: list.splits)
qed simp

lemma moved_readStringSingleQuote: "in_doc s \<Longrightarrow> readStringSingleQuote s = (ok, s') \<Longrightarrow> moved s s'"
  using single_scan_length [of "drop (current s) (doc s)"]
  by (auto simp: readStringSingleQuote_def end_pos_def in_doc_def intro!: moved_set split: prod.splits)

lemma moved_special_match: "in_doc s \<Longrightarrow> special_match p s = (ok, s') \<Longrightarrow> moved s s'"
  using moved_match moved_refl by (fastforce simp: special_match_def split: if_splits)

lemma moved_signed_token: "in_doc s \<Longrightarrow> signed_token t a s = Ok (ok, tk, s') \<Longrightarrow> \<exists>t. tok t a ok s' = Ok (ok, tk, s') \<and> moved s s'"
proof -
  assume a: "in_doc s" "signed_token t a s = Ok (ok, tk, s')"
  obtain n u where u: "our_readNumber True s = (n, u)" by force
  obtain k w where w: "special_match ''nfinity'' u = (k, w)" by force
  have su: "moved s u" by (rule moved_our_readNumber [OF a(1) u])
  have "moved u w" by (rule moved_special_match [OF moved_in_doc [OF su] w])
  with su moved_trans have "moved s w" by blast
  with a(2) su show ?thesis by (auto simp: signed_token_def u w tok_Ok split: if_splits)
qed

lemma our_readToken_moved:
  assumes "in_doc s" "our_readToken s = Ok (ok, tk, s')"
  shows "moved s s' \<and> current s \<le> t_start tk \<and> t_start tk \<le> t_end tk \<and> t_end tk = current s' \<and>
    (t_type tk \<noteq> tokenEndOfStream \<longrightarrow> t_start tk < t_end tk) \<and> (\<not> ok \<longrightarrow> t_type tk = tokenError)"
proof -
  obtain c u where u: "getNextChar (skipSpaces s) = (c, u)" by force
  let ?a = "current (skipSpaces s)"
  have 1: "moved s (skipSpaces s)" by (rule moved_skipSpaces [OF assms(1)])
  have 2: "moved (skipSpaces s) u" "c \<noteq> NUL \<Longrightarrow> ?a < current u"
    using moved_getNextChar [OF moved_in_doc [OF 1] u] by auto
  have "\<exists>t. tok t ?a ok s' = Ok (ok, tk, s') \<and> moved u s' \<and> (c = NUL \<longrightarrow> t = tokenEndOfStream \<and> ok)"
  proof (cases "c = NUL")
    case True
    then have "our_readToken s = tok tokenEndOfStream ?a True u"
      by (simp add: our_readToken_def Let_def u is_digit_def less_eq_char_def)
    with assms(2) moved_refl [OF moved_in_doc [OF 2(1)]] show ?thesis by (auto simp: tok_Ok)
  next
    case False
    from assms(2) have "\<exists>t. tok t ?a ok s' = Ok (ok, tk, s') \<and> moved u s'"
      using moved_refl [OF moved_in_doc [OF 2(1)]] moved_in_doc [OF 2(1)]
      unfolding our_readToken_def Let_def u prod.case
      by (elim if_any [elim_format] disjE)
        (auto simp: tok_Ok split: prod.splits
          intro: moved_readString moved_readStringSingleQuote moved_our_readComment moved_our_readNumber moved_match moved_special_match
          dest: moved_signed_token [unfolded tok_Ok])
    with False show ?thesis by blast
  qed
  then obtain t where t: "tok t ?a ok s' = Ok (ok, tk, s')" "moved u s'"
    "c = NUL \<longrightarrow> t = tokenEndOfStream \<and> ok" by blast
  have "current u \<le> current s'" using t(2) by (simp add: moved_def)
  moreover have "current s \<le> ?a" "?a \<le> current u" using 1 2(1) by (simp_all add: moved_def)
  moreover have "moved s s'" using 1 2(1) t(2) moved_trans by blast
  ultimately show ?thesis using t 2(2) by (auto simp: tok_Ok)
qed

section \<open>Token loops\<close>

function our_skip_comments :: "bool \<Rightarrow> Token \<Rightarrow> OurReader \<Rightarrow> (bool \<times> Token \<times> OurReader) res" where
  "our_skip_comments ok tk s =
    (if \<not> (t_type tk = tokenComment \<and> ok) then Ok (ok, tk, s)
     else if \<not> in_doc s then Abort (Undefined ''read past end'')
     else bind (our_readToken s) (\<lambda>(ok, tk, s). our_skip_comments ok tk s))"
  by pat_completeness auto
termination
proof (relation "measure (\<lambda>(ok, tk, s). (if t_type tk = tokenComment then 1 else 0) + (length (doc s) - current s))")
  fix ok :: bool and tk :: Token and s r ok' p tk' s'
  assume a: "\<not> \<not> (t_type tk = tokenComment \<and> ok)" "\<not> \<not> in_doc s" "our_readToken s = Ok r" "(ok', p) = r" "(tk', s') = p"
  with our_readToken_moved [of s ok' tk' s'] have m: "moved s s'"
    "t_type tk' \<noteq> tokenEndOfStream \<longrightarrow> current s < current s'" by auto
  then show "((ok', tk', s'), ok, tk, s) \<in> measure (\<lambda>(ok, tk, s).
      (if t_type tk = tokenComment then 1 else 0) + (length (doc s) - current s))"
    using a(1) by (auto simp: moved_def in_doc_def end_pos_def)
qed simp

declare our_skip_comments.simps [simp del]

text \<open>Inside \<open>skipCommentTokens\<close> the result of \<open>readToken\<close> is not looked at; a failed token is never a comment.\<close>

definition our_skipCommentTokens :: "OurReader \<Rightarrow> (Token \<times> OurReader) res" where
  "our_skipCommentTokens s =
    bind (our_readToken s) (\<lambda>(ok, tk, s).
      if allowComments (features s) then bind (our_skip_comments True tk s) (\<lambda>(ok, tk, s). Ok (tk, s))
      else Ok (tk, s))"

function our_recover_loop :: "TokenType \<Rightarrow> nat \<Rightarrow> OurReader \<Rightarrow> OurReader res" where
  "our_recover_loop skipUntilToken errorCount s =
    (if \<not> in_doc s then Abort (Undefined ''read past end'')
     else bind (our_readToken s) (\<lambda>(ok, skip, s).
       if t_type skip = skipUntilToken \<or> t_type skip = tokenEndOfStream then Ok s
       else our_recover_loop skipUntilToken errorCount
         (if ok then s else s\<lparr>errors := take errorCount (errors s)\<rparr>)))"
  by pat_completeness auto
termination
proof (relation "measure (\<lambda>(_, _, s). length (doc s) - current s)")
  fix u n s r ok p skip s'
  assume a: "\<not> \<not> in_doc s" "our_readToken s = Ok r" "(ok, p) = r" "(skip, s') = p"
    "\<not> (t_type skip = u \<or> t_type skip = tokenEndOfStream)"
  with our_readToken_moved [of s ok skip s'] have "moved s s'" "current s < current s'" by auto
  then show "((u, n, if ok then s' else s'\<lparr>errors := take n (errors s')\<rparr>), u, n, s)
      \<in> measure (\<lambda>(_, _, s). length (doc s) - current s)"
    by (auto simp: moved_def in_doc_def end_pos_def)
qed simp

declare our_recover_loop.simps [simp del]

definition our_recoverFromError :: "TokenType \<Rightarrow> our_parser" where
  "our_recoverFromError skipUntilToken s =
    (let errorCount = length (errors s) in
     bind (our_recover_loop skipUntilToken errorCount s)
       (\<lambda>s. Ok (False, s\<lparr>errors := take errorCount (errors s)\<rparr>)))"

definition our_addErrorAndRecover :: "string \<Rightarrow> Token \<Rightarrow> TokenType \<Rightarrow> our_parser" where
  "our_addErrorAndRecover message token skipUntilToken s =
     our_recoverFromError skipUntilToken (addError message token None s)"

section \<open>Numbers\<close>

fun our_digits :: "u64 \<Rightarrow> u64 \<Rightarrow> u64 \<Rightarrow> string \<Rightarrow> u64 option" where
  "our_digits threshold max_last_digit value [] = Some value"
| "our_digits threshold max_last_digit value (c # rest) =
    (if \<not> is_digit c then None else
     let digit = word_of_nat (digit_val c) in
     if value \<ge> threshold \<and> (value > threshold \<or> rest \<noteq> [] \<or> digit > max_last_digit) then None
     else our_digits threshold max_last_digit (value * 10 + digit) rest)"

definition negative_threshold :: u64 where "negative_threshold = 922337203685477580"
definition negative_last_digit :: u64 where "negative_last_digit = 8"
definition positive_threshold :: u64 where "positive_threshold = maxLargestUInt div 10"
definition positive_last_digit :: u64 where "positive_last_digit = maxLargestUInt mod 10"

definition our_integer :: "string \<Rightarrow> Value option" where
  "our_integer text =
    (let isNegative = (text \<noteq> [] \<and> hd text = CHR ''-'');
         digits = (if isNegative then tl text else text);
         threshold = (if isNegative then negative_threshold else positive_threshold);
         max_last_digit = (if isNegative then negative_last_digit else positive_last_digit)
     in case our_digits threshold max_last_digit 0 digits of
          None \<Rightarrow> None
        | Some value \<Rightarrow> Some
           (if isNegative then Value_of_Int64 (- (value div 10) * 10 - value mod 10)
            else if value \<le> maxLargestInt then Value_of_Int64 value
            else Value_of_UInt64 value))"

text \<open>A token may start with a plus sign here, which \<open>is >> value\<close> accepts.\<close>

definition our_decodeDouble :: "string \<Rightarrow> double option" where
  "our_decodeDouble text =
    (if text \<noteq> [] \<and> hd text = CHR ''+'' then
       (if tl text \<noteq> [] \<and> hd (tl text) = CHR ''-'' then None else decodeDouble (tl text))
     else decodeDouble text)"

definition our_number_value :: "string \<Rightarrow> Value option" where
  "our_number_value text = (case our_integer text of
     Some v \<Rightarrow> Some v | None \<Rightarrow> map_option Value_of_double (our_decodeDouble text))"

definition our_decodeNumber :: "Token \<Rightarrow> OurReader \<Rightarrow> bool \<times> OurReader" where
  "our_decodeNumber tk s = (case our_number_value (token_text tk s) of
     None \<Rightarrow> (False, addError (not_a_number (token_text tk s)) tk None s)
   | Some decoded \<Rightarrow> (True, store_decoded tk decoded s))"

section \<open>Values, arrays, objects\<close>

definition our_mark_value :: "OurReader \<Rightarrow> OurReader" where
  "our_mark_value s =
    (if collectComments s
     then s\<lparr>lastValueEnd := Some (current s), lastValueHasAComment := False, lastValue := Some (currentPath s)\<rparr> else s)"

definition our_value_switch ::
  "(Token \<Rightarrow> our_parser) \<Rightarrow> (Token \<Rightarrow> our_parser) \<Rightarrow> Token \<Rightarrow> OurReader \<Rightarrow> (bool option \<times> OurReader) res" where
  "our_value_switch read_object read_array token s =
    (case t_type token of
       tokenObjectBegin \<Rightarrow> bind (bind (read_object token s) limit_here) with_result
     | tokenArrayBegin \<Rightarrow> bind (bind (read_array token s) limit_here) with_result
     | tokenNumber \<Rightarrow> with_result (our_decodeNumber token s)
     | tokenString \<Rightarrow> bind (decodeString token s) with_result
     | tokenTrue \<Rightarrow> with_result (True, store_literal (PBool True) token s)
     | tokenFalse \<Rightarrow> with_result (True, store_literal (PBool False) token s)
     | tokenNull \<Rightarrow> with_result (True, store_literal PNull token s)
     | tokenNaN \<Rightarrow> with_result (True, store_literal (PReal DNaN) token s)
     | tokenPosInf \<Rightarrow> with_result (True, store_literal (PReal (DInf False)) token s)
     | tokenNegInf \<Rightarrow> with_result (True, store_literal (PReal (DInf True)) token s)
     | t \<Rightarrow>
        if (t = tokenArraySeparator \<or> t = tokenObjectEnd \<or> t = tokenArrayEnd) \<and>
           allowDroppedNullPlaceholders (features s)
        then with_result (True, unread s) else value_expected token s)"

definition our_value_body :: "(Token \<Rightarrow> our_parser) \<Rightarrow> (Token \<Rightarrow> our_parser) \<Rightarrow> our_parser" where
  "our_value_body read_object read_array s =
    (if length (nodes s) > stackLimit (features s) then Abort (RuntimeError ''Exceeded stackLimit in readValue().'')
     else
     bind (our_skipCommentTokens s) (\<lambda>(token, s).
     bind (take_comments s) (\<lambda>s.
     bind (our_value_switch read_object read_array token s) (\<lambda>(r, s).
       case r of None \<Rightarrow> Ok (False, s) | Some successful \<Rightarrow> Ok (successful, our_mark_value s)))))"

definition our_comma_body :: "(string \<Rightarrow> our_parser) \<Rightarrow> string \<Rightarrow> our_parser" where
  "our_comma_body next name s =
    bind (our_readToken s) (\<lambda>(ok, comma, s).
    if \<not> ok \<or> t_type comma \<noteq> tokenObjectEnd \<and> t_type comma \<noteq> tokenArraySeparator \<and>
       t_type comma \<noteq> tokenComment then
      our_addErrorAndRecover (''Missing '' @ quoted '','' @ '' or '' @ quoted ''}'' @ '' in object declaration'')
        comma tokenObjectEnd s
    else
    bind (our_skip_comments True comma s) (\<lambda>(_, comma, s).
    if t_type comma = tokenObjectEnd then Ok (True, s) else next name s))"

definition our_child_body ::
  "(Value \<Rightarrow> Value outcome) \<Rightarrow> czstring \<Rightarrow> TokenType \<Rightarrow> our_parser \<Rightarrow> our_parser \<Rightarrow> our_parser" where
  "our_child_body create k skipUntilToken read_value after s =
    bind (upd_outcome (currentPath s) create s) (\<lambda>s.
    bind (read_value (push (currentPath s @ [k]) s)) (\<lambda>(ok, s).
    if \<not> ok then our_recoverFromError skipUntilToken (pop s) else after (pop s)))"

text \<open>\<open>features_.rejectDupKeys_ && currentValue().isMember(name)\<close>\<close>

definition duplicate_key :: "string \<Rightarrow> OurReader \<Rightarrow> bool res" where
  "duplicate_key name s =
    (if \<not> rejectDupKeys (features s) then Ok False
     else (case get_at (currentPath s) (root s) of
         None \<Rightarrow> Abort (Undefined ''dangling'') | Some v \<Rightarrow> lift (isMember name v)))"

definition our_member_body :: "our_parser \<Rightarrow> (string \<Rightarrow> our_parser) \<Rightarrow> Token \<Rightarrow> string \<Rightarrow> our_parser" where
  "our_member_body read_value next tokenName name s =
    (if length name \<ge> 2 ^ 30 then Abort (RuntimeError ''keylength >= 2^30'')
     else bind (duplicate_key name s) (\<lambda>dup.
     if dup then our_addErrorAndRecover (''Duplicate key: '' @ quoted name) tokenName tokenObjectEnd s
     else
     bind (our_readToken s) (\<lambda>(ok, colon, s).
     if \<not> ok \<or> t_type colon \<noteq> tokenMemberSeparator then
       our_addErrorAndRecover (''Missing '' @ quoted '':'' @ '' after object member name'') colon tokenObjectEnd s
     else our_child_body (resolveReference name) (CZString name) tokenObjectEnd read_value (our_comma_body next name) s)))"

definition our_name_body :: "our_parser \<Rightarrow> (string \<Rightarrow> our_parser) \<Rightarrow> string \<Rightarrow> bool \<Rightarrow> Token \<Rightarrow> our_parser" where
  "our_name_body read_value next name ok tokenName s =
    (if ok \<and> t_type tokenName = tokenObjectEnd \<and> (name = [] \<or> allowTrailingCommas (features s)) then Ok (True, s)
     else if ok \<and> t_type tokenName = tokenString then
       (case decodeString_value tokenName s of
          Inl s \<Rightarrow> our_recoverFromError tokenObjectEnd s
        | Inr name \<Rightarrow> our_member_body read_value next tokenName name s)
     else if ok \<and> t_type tokenName = tokenNumber \<and> allowNumericKeys (features s) then
       (case our_number_value (token_text tokenName s) of
          None \<Rightarrow> our_recoverFromError tokenObjectEnd
            (addError (not_a_number (token_text tokenName s)) tokenName None s)
        | Some numberName \<Rightarrow>
            bind (lift (asString numberName)) (\<lambda>name. our_member_body read_value next tokenName name s))
     else our_addErrorAndRecover (''Missing '' @ quoted ''}'' @ '' or object member name'') tokenName tokenObjectEnd s)"

definition our_object_body :: "our_parser \<Rightarrow> (string \<Rightarrow> our_parser) \<Rightarrow> string \<Rightarrow> our_parser" where
  "our_object_body read_value next name s =
    bind (our_readToken s) (\<lambda>(ok, tokenName, s).
    bind (our_skip_comments ok tokenName s) (\<lambda>(ok, tokenName, s). our_name_body read_value next name ok tokenName s))"

definition our_separator_body :: "(int \<Rightarrow> our_parser) \<Rightarrow> int \<Rightarrow> our_parser" where
  "our_separator_body next index s =
    bind (our_readToken s) (\<lambda>(ok, currentToken, s).
    bind (our_skip_comments ok currentToken s) (\<lambda>(ok, currentToken, s).
    if \<not> ok \<or> t_type currentToken \<noteq> tokenArraySeparator \<and> t_type currentToken \<noteq> tokenArrayEnd then
      our_addErrorAndRecover (''Missing '' @ quoted '','' @ '' or '' @ quoted '']'' @ '' in array declaration'')
        currentToken tokenArrayEnd s
    else if t_type currentToken = tokenArrayEnd then Ok (True, s)
    else next (index + 1) s))"

text \<open>The test for the closing bracket stands inside the loop: it also ends an array after a trailing comma.\<close>

definition our_array_body :: "our_parser \<Rightarrow> (int \<Rightarrow> our_parser) \<Rightarrow> int \<Rightarrow> our_parser" where
  "our_array_body read_value next index s =
    (let s = skipSpaces s in
     if current s \<noteq> end_pos s \<and> doc s ! current s = CHR '']'' \<and>
        (index = 0 \<or> allowTrailingCommas (features s) \<and> \<not> allowDroppedNullPlaceholders (features s)) then
       bind (our_readToken s) (\<lambda>(_, endArray, s). Ok (True, s))
     else our_child_body (index_ref_int index) (CZIndex (word_of_int index)) tokenArrayEnd read_value
       (our_separator_body next index) s)"

fun our_readValue :: "nat \<Rightarrow> our_parser"
  and our_readObject :: "nat \<Rightarrow> Token \<Rightarrow> our_parser"
  and our_readObject_loop :: "nat \<Rightarrow> string \<Rightarrow> our_parser"
  and our_readArray :: "nat \<Rightarrow> Token \<Rightarrow> our_parser"
  and our_readArray_loop :: "nat \<Rightarrow> int \<Rightarrow> our_parser" where
  "our_readValue 0 s = OutOfFuel"
| "our_readValue (Suc n) s = our_value_body (\<lambda>token s. our_readObject n token s) (\<lambda>token s. our_readArray n token s) s"

| "our_readObject n token s = our_readObject_loop n [] (start_container (PObject []) token s)"

| "our_readObject_loop 0 name s = OutOfFuel"
| "our_readObject_loop (Suc n) name s =
     our_object_body (\<lambda>s. our_readValue n s) (\<lambda>name s. our_readObject_loop n name s) name s"

| "our_readArray n token s = our_readArray_loop n 0 (start_container (PArray []) token s)"

| "our_readArray_loop 0 index s = OutOfFuel"
| "our_readArray_loop (Suc n) index s =
     our_array_body (\<lambda>s. our_readValue n s) (\<lambda>index s. our_readArray_loop n index s) index s"

section \<open>The parser\<close>

definition new_our_reader :: "OurFeatures \<Rightarrow> OurReader" where
  "new_our_reader f = \<lparr>doc = [], begin_pos = 0, current = 0, lastValueEnd = None, lastValue = None, commentsBefore = [],
     errors = [], nodes = [], root = nullSingleton, features = f, collectComments = False, lastValueHasAComment = False\<rparr>"

definition our_init_parse :: "string \<Rightarrow> Value \<Rightarrow> bool \<Rightarrow> OurReader \<Rightarrow> OurReader" where
  "our_init_parse d v collect s =
     s\<lparr>doc := d, begin_pos := 0, current := 0, lastValueEnd := None, lastValue := None, commentsBefore := [],
       errors := [], nodes := [[]], root := v, collectComments := collect \<and> allowComments (features s)\<rparr>"

definition byte_order_mark :: string where
  "byte_order_mark = [CHR 0xEF, CHR 0xBB, CHR 0xBF]"

definition skipBom :: "bool \<Rightarrow> OurReader \<Rightarrow> OurReader" where
  "skipBom skip s =
    (if skip \<and> take 3 (drop (begin_pos s) (doc s)) = byte_order_mark
     then s\<lparr>begin_pos := begin_pos s + 3, current := begin_pos s + 3\<rparr> else s)"

definition our_parse_loop :: "nat \<Rightarrow> string \<Rightarrow> Value \<Rightarrow> bool \<Rightarrow> our_parser" where
  "our_parse_loop fuel d v collect s =
    bind (our_readValue fuel (skipBom (skip_bom (features s)) (our_init_parse d v collect s))) (\<lambda>(successful, s).
    bind (our_skipCommentTokens s) (\<lambda>(token, s).
    if failIfExtra (features s) \<and> t_type token \<noteq> tokenEndOfStream then
      Ok (False, addError ''Extra non-whitespace after JSON value.'' token None s)
    else
    bind (if collectComments s \<and> commentsBefore s \<noteq> []
          then upd_outcome [] (setComment (commentsBefore s) commentAfter) s else Ok s) (\<lambda>s.
    if strictRoot (features s) \<and> \<not> isArray (root s) \<and> \<not> isObject (root s) then
      Ok (False, addError ''A valid JSON document must be either an array or an object value.''
        \<lparr>t_type = tokenError, t_start = 0, t_end = length d\<rparr> None s)
    else Ok (successful, s))))"

definition our_parse :: "string \<Rightarrow> Value \<Rightarrow> bool \<Rightarrow> our_parser" where
  "our_parse d v collect s = our_parse_loop (parse_fuel d) d v collect s"

end
