(* ===== verification/Our_Reader_Props.thy ===== *)
theory Our_Reader_Props
  imports Our_Reader Json_Reader_Props
begin

text \<open>
  \<open>OurReader\<close> ends on every document without reading outside it, whatever its options: the argument for \<open>Reader\<close>, made in the
  locale \<open>token_reader\<close>, on the tokens of \<open>OurReader\<close>.
\<close>

section \<open>Tokens\<close>

definition our_aborts :: "abort \<Rightarrow> bool" where
  "our_aborts e \<longleftrightarrow> e = stack_exceeded \<or> e = RuntimeError ''keylength >= 2^30''"

lemma comments_our_snd:
  "commentsBefore (snd (special_match p s)) = commentsBefore s" "commentsBefore (snd (our_readNumber b s)) = commentsBefore s"
  "commentsBefore (snd (readStringSingleQuote s)) = commentsBefore s"
  by (simp_all add: special_match_def our_readNumber_def readStringSingleQuote_def comments_snd case_prod_unfold Let_def)

lemma our_comment_moved:
  assumes "in_doc s" "getNextChar s = (c, t)"
    and "(if c = CHR ''*'' then our_readCStyleComment t
      else if c = CHR ''/'' then (let (ok, s) = readCppStyleComment t in (ok, False, s)) else (False, False, t)) = (ok, nl, u)"
  shows "moved s t" "moved t u" "commentsBefore u = commentsBefore s"
proof -
  show st: "moved s t" using moved_getNextChar [OF assms(1,2)] by simp
  show "moved t u" using assms(3) moved_in_doc [OF st]
    by (auto split: if_splits prod.splits intro: moved_our_readCStyleComment moved_readCppStyleComment moved_refl)
  show "commentsBefore u = commentsBefore s" using assms(3) comments_scan(1) [OF assms(2)]
    by (auto simp: our_readCStyleComment_def Let_def split: if_splits prod.splits dest: comments_scan)
qed

lemma safe_our_readComment:
  assumes s: "at_slash s"
  shows "safe E (\<lambda>(ok, s'). commented (commentsBefore s')) (our_readComment s)"
proof -
  obtain c t where t: "getNextChar s = (c, t)" by force
  define r where "r = (if c = CHR ''*'' then our_readCStyleComment t
      else if c = CHR ''/'' then (let (ok, s) = readCppStyleComment t in (ok, False, s)) else (False, False, t))"
  obtain ok nl u where u: "r = (ok, nl, u)" by (cases r)
  have d: "in_doc s" using s by (simp add: at_slash_def poised_def)
  note m = our_comment_moved [OF d t u [unfolded r_def]]
  have ru: "poised u" using poised_moved [OF _ moved_trans [OF m(1,2)]] s m(3) by (simp add: at_slash_def poised_comments)
  have ru': "poised (u\<lparr>lastValueHasAComment := True\<rparr>)" using ru by (simp add: poised_def noted_def in_doc_def end_pos_def)
  show ?thesis
  proof (cases "ok \<and> collectComments u")
    case True
    then have c: "c = CHR ''*'' \<or> c = CHR ''/''" using u by (auto simp: r_def split: if_splits)
    from comment_second_char [OF s t this] have t1: "current t = current s + 1" "doc s ! current s = c" "current s < length (doc s)" .
    have p: "0 < current s" "doc s ! (current s - 1) = CHR ''/''" using s by (auto simp: at_slash_def)
    have "doc s ! (current s - 1 + 1) \<noteq> CHR 0x0D" using c t1(2) p(1) by auto
    moreover have "current s - 1 + 2 \<le> current u" "current u \<le> length (doc s)" "doc u = doc s"
      using m(1,2) t1(1) p(1) by (auto simp: moved_def in_doc_def end_pos_def)
    ultimately have "safe E (\<lambda>s'. commented (commentsBefore s')) (addComment (current s - 1) (current u) pl u)"
      "safe E (\<lambda>s'. commented (commentsBefore s')) (addComment (current s - 1) (current u) pl (u\<lparr>lastValueHasAComment := True\<rparr>))"
      if "pl = commentAfterOnSameLine \<Longrightarrow> lastValueEnd u \<noteq> None" for pl
      using True p(2) that by (intro safe_addComment [OF ru] safe_addComment [OF ru']; simp)+
    then show ?thesis using True u unfolding our_readComment_def Let_def t prod.case r_def [unfolded Let_def, symmetric]
      by (auto intro!: safe_bind [where P = "\<lambda>s'. commented (commentsBefore s')"] split: option.split)
  next
    case False
    then show ?thesis using poised_comments [OF ru]
      unfolding our_readComment_def Let_def t prod.case r_def [unfolded Let_def, symmetric] u by auto
  qed
qed

lemma safe_our_readToken:
  assumes "poised s"
  shows "safe E (token_step s) (our_readToken s)"
proof (rule token_stepI [OF assms _ our_readToken_moved [OF poised_in_doc [OF assms]]])
  obtain c t where t: "getNextChar (skipSpaces s) = (c, t)" by force
  have s: "poised (skipSpaces s)"
    using poised_moved [OF assms moved_skipSpaces] assms by (simp add: poised_in_doc poised_comments)
  then have "commented (commentsBefore t)" using comments_scan(1) [OF t] assms by (simp add: poised_comments)
  moreover have r: "safe E (\<lambda>(ok, tk, s'). commented (commentsBefore s')) (bind (our_readComment t) (\<lambda>(ok, s). tok tokenComment a ok s))"
    if "c = CHR ''/''" for a
    using safe_our_readComment [OF at_slash_getNextChar [OF s, of t]] t that
    by (intro safe_bind [where P = "\<lambda>(ok, s'). commented (commentsBefore s')"]) (auto split: prod.splits)
  ultimately show "safe E (\<lambda>(ok, tk, s'). commented (commentsBefore s')) (our_readToken s)"
    unfolding our_readToken_def signed_token_def Let_def t prod.case
    by (simp add: r [unfolded case_prod_unfold] case_prod_unfold comments_snd comments_our_snd)
qed simp

interpretation our: token_reader our_readToken our_skip_comments our_recover_loop our_recoverFromError our_addErrorAndRecover
  our_skipCommentTokens "\<lambda>s. allowComments (features s)" our_mark_value our_aborts
proof
  fix s t :: OurReader and ok :: bool and tk :: Token and u :: TokenType and n :: nat
  show "our_skip_comments ok tk s = (if \<not> (t_type tk = tokenComment \<and> ok) then Ok (ok, tk, s)
      else if \<not> in_doc s then Abort (Undefined ''read past end'') else bind (our_readToken s) (\<lambda>(ok, tk, s). our_skip_comments ok tk s))"
    by (rule our_skip_comments.simps)
  show "our_recover_loop u n s = (if \<not> in_doc s then Abort (Undefined ''read past end'')
      else bind (our_readToken s) (\<lambda>(ok, skip, s). if t_type skip = u \<or> t_type skip = tokenEndOfStream then Ok s
        else our_recover_loop u n (if ok then s else s\<lparr>errors := take n (errors s)\<rparr>)))"
    by (rule our_recover_loop.simps)
  show "framed s t \<Longrightarrow> framed s (our_mark_value t) \<and> marked s (our_mark_value t)"
    by (erule framed_mark) (simp_all add: our_mark_value_def)
qed (simp_all add: safe_our_readToken our_recoverFromError_def our_addErrorAndRecover_def our_skipCommentTokens_def)

section \<open>The mutual recursion\<close>

definition our_value_safe :: "nat \<Rightarrow> bool" where
  "our_value_safe n \<longleftrightarrow> (\<forall>s. cur (\<lambda>_. True) s \<longrightarrow> fresh s \<longrightarrow> 2 * rem s + 1 \<le> n \<longrightarrow> reads_one our_aborts s (our_readValue n s))"

definition our_object_safe :: "nat \<Rightarrow> bool" where
  "our_object_safe n \<longleftrightarrow> (\<forall>s name. cur (\<lambda>t. t = objectValue) s \<longrightarrow> loose s \<longrightarrow> 2 * rem s + 2 \<le> n \<longrightarrow>
     reads our_aborts s (our_readObject_loop n name s))"

definition our_array_safe :: "nat \<Rightarrow> bool" where
  "our_array_safe n \<longleftrightarrow> (\<forall>s i. cur (\<lambda>t. t = arrayValue) s \<longrightarrow> loose s \<longrightarrow> 0 \<le> i \<longrightarrow> 2 * rem s + 2 \<le> n \<longrightarrow>
     reads our_aborts s (our_readArray_loop n i s))"

lemma wf_our_number: "our_number_value x = Some v \<Longrightarrow> wf_value v"
  by (auto simp: our_number_value_def our_integer_def Let_def Value_of_Int64_def Value_of_UInt64_def
    Value_of_double_def initBasic_def split: option.splits if_splits)

lemma framed_our_decodeNumber:
  assumes "cur P s" "fresh s"
  shows "framed s (snd (our_decodeNumber tk s))"
  using wf_our_number framed_store(1) [OF assms] moved_framed [OF assms(1) moved_addError] cur_in_doc [OF assms(1)] cur_poised [OF assms(1)]
  by (auto simp: our_decodeNumber_def split: option.splits)

lemma reads_our_container:
  assumes "our_object_safe n" "our_array_safe n" "cur P s" "fresh s" "2 * rem s + 2 \<le> n"
  shows "reads our_aborts s (our_readObject n tk s)" "reads our_aborts s (our_readArray n tk s)"
proof -
  note t = framed_store(3-5) [OF assms(3,4)]
  have "reads our_aborts (start_container (PObject []) tk s) (our_readObject n tk s)"
    using assms(1,5) t(3) [OF wf_empty(2)] fresh_loose [OF t(2) [OF wf_empty(2)]] by (simp add: our_object_safe_def)
  then show "reads our_aborts s (our_readObject n tk s)" using t(1) [OF wf_empty(2)] by (rule reads_trans)
  have "reads our_aborts (start_container (PArray []) tk s) (our_readArray n tk s)"
    using assms(2,5) t(3) [OF wf_empty(1)] fresh_loose [OF t(2) [OF wf_empty(1)]] by (simp add: our_array_safe_def)
  then show "reads our_aborts s (our_readArray n tk s)" using t(1) [OF wf_empty(1)] by (rule reads_trans)
qed

lemma safe_our_value_switch:
  assumes "cur P s" "fresh s" "framed s0 s" "t_type tk \<noteq> tokenEndOfStream \<longrightarrow> current s0 < current s"
    and "t_type tk = tokenObjectBegin \<Longrightarrow> reads E s (ro tk s)" "t_type tk = tokenArrayBegin \<Longrightarrow> reads E s (ra tk s)"
  shows "safe E (\<lambda>(r, s'). framed s0 s') (our_value_switch ro ra tk s)"
proof -
  have tr: "safe E (\<lambda>(r, s'). framed s s') r \<Longrightarrow> safe E (\<lambda>(r, s'). framed s0 s') r" for r
    by (erule safe_mono) (auto intro: framed_trans [OF assms(3)])
  have u: "t_type tk \<noteq> tokenEndOfStream \<Longrightarrow> framed s0 (unread s)"
    using framed_unread [OF assms(3,1,2)] assms(4) by simp
  have n: "safe E (\<lambda>(r, s'). framed s0 s') (with_result (our_decodeNumber tk s))"
    using framed_trans [OF assms(3) framed_our_decodeNumber [OF assms(1,2)]] by (simp add: with_result_def)
  have l: "wf_payload p \<Longrightarrow> framed s0 (store_literal p tk s)" for p using framed_trans [OF assms(3) framed_store(2) [OF assms(1,2)]] .
  show ?thesis
    using assms(5,6) safe_value_expected [OF assms(3)] u n l
    by (cases "t_type tk")
      (auto simp: our_value_switch_def with_result_def [of "(_, _)"] intro!: tr safe_with_result framed_limit
        safe_decodeString [OF assms(1,2)])
qed

lemma our_value_step:
  assumes "our_object_safe n" "our_array_safe n"
  shows "our_value_safe (Suc n)"
  unfolding our_value_safe_def
proof (intro allI impI)
  fix s :: OurReader assume s: "cur (\<lambda>_. True) s" "fresh s" "2 * rem s + 1 \<le> Suc n"
  have "reads_one our_aborts s (bind (our_skipCommentTokens s) (\<lambda>(token, s). bind (take_comments s) (\<lambda>s.
     bind (our_value_switch (our_readObject n) (our_readArray n) token s) (\<lambda>(r, s).
       case r of None \<Rightarrow> Ok (False, s) | Some successful \<Rightarrow> Ok (successful, our_mark_value s)))))"
  proof (rule our.reads_value [OF s(1,2)])
    fix tk :: Token and u
    assume u: "framed s u" "cur (\<lambda>_. True) u" "fresh u" "t_type tk \<noteq> tokenEndOfStream \<longrightarrow> current s < current u"
    have r: "2 * rem u + 2 \<le> n" if "t_type tk \<noteq> tokenEndOfStream"
      using that u(1,4) s(3) framed_in_doc [OF u(1)] by (auto simp: framed_def in_doc_def end_pos_def)
    show "safe our_aborts (\<lambda>(r, s'). framed s s') (our_value_switch (our_readObject n) (our_readArray n) tk u)"
      by (rule safe_our_value_switch [OF u(2,3,1,4)]) (use reads_our_container [OF assms u(2,3)] r in auto)
  qed
  then show "reads_one our_aborts s (our_readValue (Suc n) s)"
    by (simp add: our_value_body_def our_aborts_def stack_exceeded_def [symmetric])
qed

lemma reads_our_child:
  assumes "our_value_safe n" "cur (\<lambda>t. t = ty) s" "loose s" "2 * rem s + 1 \<le> n" "creates ty k create"
    and after: "\<And>t. framed s t \<Longrightarrow> cur (\<lambda>t. t = ty) t \<Longrightarrow> loose t \<Longrightarrow> reads our_aborts t (after t)"
  shows "reads our_aborts s (our_child_body create k u (our_readValue n) after s)"
  unfolding our_child_body_def
  by (rule our.reads_child [OF assms(2,3,5) _ after]) (use assms(1,4) in \<open>auto simp: our_value_safe_def\<close>)

lemma our_array_step:
  assumes "our_value_safe n" "our_array_safe n"
  shows "our_array_safe (Suc n)"
  unfolding our_array_safe_def
proof (intro allI impI)
  fix s0 :: OurReader and i :: int
  assume s0: "cur (\<lambda>t. t = arrayValue) s0" "loose s0" "0 \<le> i" "2 * rem s0 + 2 \<le> Suc n"
  let ?s = "skipSpaces s0"
  have m: "moved s0 ?s" using s0(1) by (simp add: cur_in_doc moved_skipSpaces)
  have r: "poised ?s" using poised_moved [OF cur_poised [OF s0(1)] m] s0(1) by (simp add: poised_comments cur_poised)
  have s: "cur (\<lambda>t. t = arrayValue) ?s" "loose ?s" "2 * rem ?s + 2 \<le> Suc n"
    using cur_moved [OF s0(1) m r] loose_moved [OF s0(2) m] m s0(4) by (auto simp: moved_def)
  have "reads our_aborts ?s (our_child_body (index_ref_int i) (CZIndex (word_of_int i)) tokenArrayEnd (our_readValue n)
      (our_separator_body (our_readArray_loop n) i) ?s)"
  proof (rule reads_our_child [OF assms(1) s(1,2) _ creates_element [OF s0(3)]])
    show "2 * rem ?s + 1 \<le> n" using s(3) by simp
    fix t :: OurReader assume t: "framed ?s t" "cur (\<lambda>t. t = arrayValue) t" "loose t"
    show "reads our_aborts t (our_separator_body (our_readArray_loop n) i t)"
      unfolding our_separator_body_def
    proof (rule our.reads_separator [OF t(2)])
      fix u :: OurReader assume u: "moved t u" "current t < current u" "cur (\<lambda>t. t = arrayValue) u"
      have "2 * rem u + 2 \<le> n" using s(3) t(1) u(1,2) by (auto simp: framed_def moved_def in_doc_def end_pos_def)
      then show "reads our_aborts u (our_readArray_loop n (i + 1) u)"
        using assms(2) u(3) loose_moved [OF t(3) u(1)] s0(3) by (simp add: our_array_safe_def)
    qed
  qed
  moreover have "reads our_aborts ?s (bind (our_readToken ?s) (\<lambda>(ok, endArray, s). Ok (True, s)))"
    by (rule our.reads_token [OF s(1)]) (auto intro: framed_self)
  ultimately have "reads our_aborts ?s (our_array_body (our_readValue n) (our_readArray_loop n) i s0)"
    by (simp add: our_array_body_def Let_def)
  from reads_trans [OF this moved_framed [OF s0(1) m r]] show "reads our_aborts s0 (our_readArray_loop (Suc n) i s0)" by simp
qed

lemma duplicate_key_total:
  assumes "cur (\<lambda>t. t = objectValue) s"
  shows "\<exists>dup. duplicate_key name s = Ok dup"
proof -
  obtain v where "get_at (currentPath s) (root s) = Some v" "type_of v = objectValue" using assms by (auto simp: cur_def tree_def)
  then show ?thesis by (auto simp: duplicate_key_def isMember_def value_find_def json_assert_def lift_def)
qed

lemma reads_our_member:
  assumes "our_value_safe n" "our_object_safe n" "cur (\<lambda>t. t = objectValue) s" "loose s" "2 * rem s + 1 \<le> n"
  shows "reads our_aborts s (our_member_body (our_readValue n) (our_readObject_loop n) tk name s)"
proof -
  obtain dup where dup: "duplicate_key name s = Ok dup" using duplicate_key_total [OF assms(3)] ..
  have "reads our_aborts s (bind (our_readToken s) (\<lambda>(ok, colon, s).
     if \<not> ok \<or> t_type colon \<noteq> tokenMemberSeparator then
       our_addErrorAndRecover (''Missing '' @ quoted '':'' @ '' after object member name'') colon tokenObjectEnd s
     else our_child_body (resolveReference name) (CZString name) tokenObjectEnd (our_readValue n) (our_comma_body (our_readObject_loop n) name) s))"
  proof (rule our.reads_token [OF assms(3)])
    fix ok and colon :: Token and u :: OurReader
    assume u: "moved s u" "t_type colon \<noteq> tokenEndOfStream \<longrightarrow> current s < current u" "cur (\<lambda>t. t = objectValue) u"
    have "reads our_aborts u (our_child_body (resolveReference name) (CZString name) tokenObjectEnd (our_readValue n)
        (our_comma_body (our_readObject_loop n) name) u)" if colon: "t_type colon = tokenMemberSeparator"
    proof (rule reads_our_child [OF assms(1) u(3) loose_moved [OF assms(4) u(1)] _ creates_member])
      show "2 * rem u + 1 \<le> n" using assms(5) u(1) by (auto simp: moved_def)
      fix t :: OurReader assume t: "framed u t" "cur (\<lambda>t. t = objectValue) t" "loose t"
      have r: "2 * rem t + 2 \<le> n"
        using t(1) u colon assms(5) framed_in_doc [OF t(1)] by (auto simp: framed_def moved_def in_doc_def end_pos_def)
      show "reads our_aborts t (our_comma_body (our_readObject_loop n) name t)"
        unfolding our_comma_body_def
      proof (rule our.reads_comma [OF t(2)])
        fix x :: OurReader assume x: "moved t x" "cur (\<lambda>t. t = objectValue) x"
        have "2 * rem x + 2 \<le> n" using r(1) x(1) by (auto simp: moved_def)
        then show "reads our_aborts x (our_readObject_loop n name x)"
          using assms(2) x(2) loose_moved [OF t(3) x(1)] by (simp add: our_object_safe_def)
      qed
    qed
    then show "reads our_aborts u (if \<not> ok \<or> t_type colon \<noteq> tokenMemberSeparator then
        our_addErrorAndRecover (''Missing '' @ quoted '':'' @ '' after object member name'') colon tokenObjectEnd u
      else our_child_body (resolveReference name) (CZString name) tokenObjectEnd (our_readValue n) (our_comma_body (our_readObject_loop n) name) u)"
      using our.reads_aer [OF u(3)] by simp
  qed
  then show ?thesis using our.reads_aer [OF assms(3)] by (simp add: our_member_body_def dup our_aborts_def)
qed

lemma asString_our_number: "our_number_value text = Some v \<Longrightarrow> \<exists>t. asString v = Inr t"
  by (auto simp: our_number_value_def our_integer_def Let_def Value_of_Int64_def Value_of_UInt64_def
    Value_of_double_def initBasic_def asString_def split: option.splits if_splits)

lemma our_object_step:
  assumes "our_value_safe n" "our_object_safe n"
  shows "our_object_safe (Suc n)"
  unfolding our_object_safe_def
proof (intro allI impI)
  fix s :: OurReader and name :: string
  assume s: "cur (\<lambda>t. t = objectValue) s" "loose s" "2 * rem s + 2 \<le> Suc n"
  have "reads our_aborts s (our_object_body (our_readValue n) (our_readObject_loop n) name s)"
    unfolding our_object_body_def
  proof (rule our.reads_token_comments [OF s(1)])
    fix ok :: bool and tk :: Token and w :: OurReader
    assume w: "moved s w" "cur (\<lambda>t. t = objectValue) w"
    have m: "reads our_aborts w (our_member_body (our_readValue n) (our_readObject_loop n) tk nm w)" for nm
      by (rule reads_our_member [OF assms w(2) loose_moved [OF s(2) w(1)]]) (use s(3) w(1) in \<open>auto simp: moved_def\<close>)
    show "reads our_aborts w (our_name_body (our_readValue n) (our_readObject_loop n) name ok tk w)"
      using m our.reads_error [OF w(2)] our.reads_aer [OF w(2)] framed_self [OF w(2)]
      by (auto simp: our_name_body_def decodeString_value_def lift_def split: sum.splits option.splits prod.splits
        dest: asString_our_number)
  qed
  then show "reads our_aborts s (our_readObject_loop (Suc n) name s)" by simp
qed

lemma our_all_safe: "our_value_safe n \<and> our_object_safe n \<and> our_array_safe n"
proof (induction n)
  case 0
  show ?case by (simp add: our_value_safe_def our_object_safe_def our_array_safe_def)
next
  case (Suc n)
  then show ?case using our_value_step our_object_step our_array_step by blast
qed

section \<open>The document\<close>

lemma skipBom_frame [simp]:
  "doc (skipBom b s) = doc s" "features (skipBom b s) = features s" "lastValue (skipBom b s) = lastValue s"
  "root (skipBom b s) = root s"
  by (simp_all add: skipBom_def)

lemma cur_skipBom:
  assumes "length d \<le> 2147483642"
  shows "cur (\<lambda>_. True) (skipBom b (our_init_parse d v collect s))"
proof -
  have "3 \<le> length d" if "take 3 d = byte_order_mark"
    using arg_cong [OF that, of length] by (simp add: byte_order_mark_def min_def split: if_splits)
  with assms show ?thesis
    by (auto simp: cur_def poised_def noted_def commented_def skipBom_def our_init_parse_def in_doc_def end_pos_def currentPath_def)
qed

lemma safe_our_parse:
  assumes "length d \<le> 2147483642"
  shows "safe our_aborts (\<lambda>(ok, s'). current s' \<le> length d \<and> doc s' = d \<and> features s' = features s \<and>
    (wf_value v \<longrightarrow> wf_value (root s'))) (our_parse d v collect s)"
proof -
  let ?i = "skipBom (skip_bom (features s)) (our_init_parse d v collect s)"
  have i: "cur (\<lambda>_. True) ?i" "fresh ?i" "2 * rem ?i + 1 \<le> parse_fuel d" "doc ?i = d" "features ?i = features s" "root ?i = v"
    using cur_skipBom [OF assms] by (simp_all add: our_init_parse_def fresh_def parse_fuel_def)
  have "reads_one our_aborts ?i (our_readValue (parse_fuel d) ?i)"
    using our_all_safe [of "parse_fuel d"] i(1-3) by (simp add: our_value_safe_def)
  then show ?thesis unfolding our_parse_def our_parse_loop_def
  proof (rule safe_bind, clarify)
    fix ok t assume t: "framed ?i t"
    then have t': "poised t" "doc t = d" "features t = features s" "wf_value v \<longrightarrow> wf_value (root t)"
      using i(4-6) by (simp_all add: framed_def)
    show "safe our_aborts (\<lambda>(ok, s'). current s' \<le> length d \<and> doc s' = d \<and> features s' = features s \<and>
        (wf_value v \<longrightarrow> wf_value (root s')))
      (bind (our_skipCommentTokens t) (\<lambda>(token, s).
       if failIfExtra (features s) \<and> t_type token \<noteq> tokenEndOfStream then
         Ok (False, addError ''Extra non-whitespace after JSON value.'' token None s)
       else
       bind (if collectComments s \<and> commentsBefore s \<noteq> []
          then upd_outcome [] (setComment (commentsBefore s) commentAfter) s else Ok s) (\<lambda>s.
       if strictRoot (features s) \<and> \<not> isArray (root s) \<and> \<not> isObject (root s) then
         Ok (False, addError ''A valid JSON document must be either an array or an object value.''
           \<lparr>t_type = tokenError, t_start = 0, t_end = length d\<rparr> None s)
       else Ok (ok, s))))"
      by (rule safe_mono [OF our.safe_closing [OF t'(1), of
        "\<lambda>token s. failIfExtra (features s) \<and> t_type token \<noteq> tokenEndOfStream"]]) (use t' in auto)
  qed
qed

text \<open>
  C3. \<open>OurReader::parse\<close> terminates on every document of at most \<open>2^31 - 6\<close> characters, whatever the options of the
  reader and the state an earlier document left in it, and never reads past the end of the document: it returns with the cursor inside the
  document, or is ended by the nesting limit or by the limit on the length of a key; no assertion about comments fails.
\<close>

theorem our_parse_terminates_inside_document:
  assumes "length d \<le> 2147483642"
  shows "case our_parse d v collect s of
      OutOfFuel \<Rightarrow> False
    | Abort e \<Rightarrow> e = RuntimeError ''Exceeded stackLimit in readValue().'' \<or> e = RuntimeError ''keylength >= 2^30''
    | Ok (ok, s') \<Rightarrow> current s' \<le> length d \<and> doc s' = d"
  using safe_our_parse [OF assms, of s v collect]
  by (auto simp: safe_def our_aborts_def stack_exceeded_def split: res.splits)

theorem our_parse_terminates_inside_document_witness:
  "case our_parse ''{\"a\" +5'' nullSingleton True (new_our_reader OurFeatures_all) of
      OutOfFuel \<Rightarrow> False
    | Abort e \<Rightarrow> e = RuntimeError ''Exceeded stackLimit in readValue().'' \<or> e = RuntimeError ''keylength >= 2^30''
    | Ok (ok, s') \<Rightarrow> current s' \<le> 7 \<and> doc s' = ''{\"a\" +5''"
proof -
  have "length ''{\"a\" +5'' = 7" by simp
  with our_parse_terminates_inside_document
    [where d = "''{\"a\" +5''" and v = nullSingleton and collect = True and s = "new_our_reader OurFeatures_all"]
  show ?thesis by (auto split: res.splits)
qed

text \<open>
  C5. Both parsers leave a well-formed value in the caller's variable, whether they accept the document or not: at every depth an array
  has index keys, an object has names, and the keys are sorted and distinct.
\<close>

theorem parsers_leave_wf_value:
  assumes "wf_value v" "length d \<le> 2147483642"
  shows "(case parse d v collect r of Ok (ok, s') \<Rightarrow> wf_value (root s') | _ \<Rightarrow> True) \<and>
    (case our_parse d v collect s of Ok (ok, s') \<Rightarrow> wf_value (root s') | _ \<Rightarrow> True)"
  using safe_parse [OF assms(2), of r v collect] safe_our_parse [OF assms(2), of s v collect] assms(1)
  by (auto split: res.splits)

theorem parsers_leave_wf_value_witness:
  "(case parse ''[7, '' nullSingleton True (new_reader Features_all) of Ok (ok, s') \<Rightarrow> wf_value (root s') | _ \<Rightarrow> True) \<and>
   (case our_parse ''[7, '' nullSingleton True (new_our_reader OurFeatures_all) of Ok (ok, s') \<Rightarrow> wf_value (root s') | _ \<Rightarrow> True)"
  by (rule parsers_leave_wf_value) simp_all

end
