(* ===== verification/Our_Reader_Agrees.thy ===== *)
theory Our_Reader_Agrees
  imports Our_Reader_Props
begin

text \<open>
  \<open>OurReader\<close> accepts every document that \<open>Reader\<close> accepts, with the same value.
\<close>

section \<open>Values up to comments and the type of integers\<close>

fun tidy :: "(Payload \<Rightarrow> Payload) \<Rightarrow> Value \<Rightarrow> Value"
  and tidy_payload :: "(Payload \<Rightarrow> Payload) \<Rightarrow> Payload \<Rightarrow> Payload"
  and tidy_all :: "(Payload \<Rightarrow> Payload) \<Rightarrow> ObjectValues \<Rightarrow> ObjectValues" where
  "tidy f (Value p c a b) = Value (tidy_payload f p) None a b"
| "tidy_payload f (PArray m) = PArray (tidy_all f m)"
| "tidy_payload f (PObject m) = PObject (tidy_all f m)"
| "tidy_payload f p = f p"
| "tidy_all f [] = []"
| "tidy_all f ((k, v) # m) = (k, tidy f v) # tidy_all f m"

definition retype :: "Payload \<Rightarrow> Payload" where
  "retype p = (case p of PUInt u \<Rightarrow> (if u \<le> maxLargestInt then PInt u else PUInt u) | _ \<Rightarrow> p)"

lemma tidy_all_map: "tidy_all f m = map (\<lambda>(k, v). (k, tidy f v)) m"
  by (induction m) auto

text \<open>\<open>b\<close> is \<open>a\<close> with other comments, and with integers that fit \<open>Int64\<close> typed as such.\<close>

definition vsim :: "Value \<Rightarrow> Value \<Rightarrow> bool" where
  "vsim a b \<longleftrightarrow> tidy retype a = tidy id b"

definition psim :: "Payload \<Rightarrow> Payload \<Rightarrow> bool" where
  "psim p q \<longleftrightarrow> tidy_payload retype p = tidy_payload id q"

definition msim :: "ObjectValues \<Rightarrow> ObjectValues \<Rightarrow> bool" where
  "msim = list_all2 (\<lambda>(k, a) (k', b). k' = k \<and> vsim a b)"

lemma vsim_Value: "vsim a b \<longleftrightarrow> psim (payload a) (payload b) \<and> v_start b = v_start a \<and> v_limit b = v_limit a"
  by (cases a; cases b) (auto simp: vsim_def psim_def)

lemma tidy_all_msim: "tidy_all retype m = tidy_all id n \<longleftrightarrow> msim m n"
  unfolding tidy_all_map msim_def list_all2_conv_all_nth list_eq_iff_nth_eq
  by (auto simp: vsim_def case_prod_unfold prod_eq_iff)

lemma psim_simps:
  "psim (PArray m) q \<longleftrightarrow> (\<exists>n. q = PArray n \<and> msim m n)" "psim (PObject m) q \<longleftrightarrow> (\<exists>n. q = PObject n \<and> msim m n)"
  "psim PNull q \<longleftrightarrow> q = PNull" "psim (PInt i) q \<longleftrightarrow> q = PInt i" "psim (PReal r) q \<longleftrightarrow> q = PReal r"
  "psim (PString x) q \<longleftrightarrow> q = PString x" "psim (PBool t) q \<longleftrightarrow> q = PBool t"
  "psim (PUInt u) q \<longleftrightarrow> q = (if u \<le> maxLargestInt then PInt u else PUInt u)"
  by (cases q; auto simp: psim_def retype_def tidy_all_msim)+

lemma msim_simps [simp]: "msim [] n \<longleftrightarrow> n = []" "msim m [] \<longleftrightarrow> m = []"
    "msim ((k, a) # m) n \<longleftrightarrow> (\<exists>b n'. n = (k, b) # n' \<and> vsim a b \<and> msim m n')"
  by (auto simp: msim_def list_all2_Cons1)

lemma msim_map:
  "msim m n \<Longrightarrow> (\<And>k a b. vsim a b \<Longrightarrow> vsim (f k a) (g k b)) \<Longrightarrow>
    msim (map (\<lambda>(k, a). (k, f k a)) m) (map (\<lambda>(k, b). (k, g k b)) n)"
  by (induction m arbitrary: n) auto

lemma vsim_with_map:
  assumes "vsim a b" "\<And>m n. msim m n \<Longrightarrow> msim (f m) (g n)"
  shows "vsim (with_map f a) (with_map g b)"
  using assms by (cases "payload a") (auto simp: vsim_Value with_map_def set_payload_def psim_simps split: if_splits)

lemma vsim_upd_at: "vsim a b \<Longrightarrow> (\<And>x y. vsim x y \<Longrightarrow> vsim (f x) (g y)) \<Longrightarrow> vsim (upd_at p f a) (upd_at p g b)"
proof (induction p arbitrary: a b)
  case (Cons k p)
  then show ?case by (auto intro!: vsim_with_map msim_map)
qed simp

lemma msim_find: "msim m n \<Longrightarrow> rel_option vsim (map_find k m) (map_find k n)"
  by (induction m arbitrary: n) auto

lemma vsim_map_of_value: "vsim a b \<Longrightarrow> msim (map_of_value a) (map_of_value b)"
  by (cases "payload a") (auto simp: vsim_Value psim_simps map_of_value_def split: if_splits)

lemma vsim_get_at: "vsim a b \<Longrightarrow> rel_option vsim (get_at p a) (get_at p b)"
proof (induction p arbitrary: a b)
  case (Cons k p)
  show ?case using msim_find [OF vsim_map_of_value [OF Cons.prems], of k] Cons.IH
    by (auto elim!: option.rel_cases split: option.splits)
qed simp

lemma vsim_comment: "setComment c p y = Inr z \<Longrightarrow> vsim x z \<longleftrightarrow> vsim x y" "setComment c p x = Inr z \<Longrightarrow> vsim z y \<longleftrightarrow> vsim x y"
  by (auto simp: setComment_def Let_def json_assert_def vsim_Value split: if_splits)

lemma vsim_container: "vsim a b \<Longrightarrow> type_of a = arrayValue \<longleftrightarrow> type_of b = arrayValue"
    "vsim a b \<Longrightarrow> type_of a = objectValue \<longleftrightarrow> type_of b = objectValue" "vsim a b \<Longrightarrow> type_of a = nullValue \<longleftrightarrow> type_of b = nullValue"
  by (cases "payload a"; auto simp: vsim_Value psim_simps type_of_def)+

section \<open>Numbers\<close>

lemma our_digits_eq: "our_digits (m div 10) (m mod 10) v ds = decode_digits m (m div 10) v ds"
  by (induction ds arbitrary: v) (auto simp: Let_def)

lemma number_limits: "negative_threshold = (maxLargestInt + 1) div 10" "negative_last_digit = (maxLargestInt + 1) mod 10"
  by (simp_all add: negative_threshold_def negative_last_digit_def maxLargestInt_def)

lemma our_integer_agrees: "rel_option vsim (decode_integer x) (our_integer x)"
proof -
  have m: "- (u div 10 * 10) - u mod 10 = - u" for u :: u64
  proof -
    have "- u = - (u div 10 * 10 + u mod 10)" by (simp only: div_mult_mod_eq)
    then show ?thesis by (simp add: algebra_simps)
  qed
  have l: "u \<le> maxLargestInt" if "u \<le> 2147483647" for u :: u64
    using that by (rule order_trans) (simp add: maxLargestInt_def)
  have n: "minLargestInt = - (maxLargestInt + 1)" by (simp add: minLargestInt_def maxLargestInt_def)
  show ?thesis
    by (auto simp: decode_integer_def our_integer_def Let_def number_limits positive_threshold_def positive_last_digit_def our_digits_eq m n
      Value_of_Int64_def Value_of_UInt64_def initBasic_def vsim_Value psim_simps split: option.split dest: l)
qed

lemma our_number_agrees: "hd x \<noteq> CHR ''+'' \<Longrightarrow> rel_option vsim (decodeNumber_value x) (our_number_value x)"
  using our_integer_agrees [of x]
  by (auto simp: decodeNumber_value_def our_number_value_def our_decodeDouble_def vsim_Value psim_simps Value_of_double_def initBasic_def
    option.rel_map option.rel_refl elim!: option.rel_cases split: option.splits intro!: option.rel_refl)

section \<open>Comments\<close>

lemma tidy_leaf: "(\<And>m. p \<noteq> PArray m) \<Longrightarrow> (\<And>m. p \<noteq> PObject m) \<Longrightarrow> tidy_payload f p = f p"
  by (cases p) auto

lemma tidy_upd_at:
  "wf_value v \<Longrightarrow> get_at p v = Some x \<Longrightarrow> tidy f w = tidy f x \<Longrightarrow> tidy f (upd_at p (\<lambda>_. w) v) = tidy f v"
proof (induction p arbitrary: v)
  case (Cons k p)
  then obtain y where y: "map_find k (map_of_value v) = Some y" "get_at p y = Some x" by (auto split: option.splits)
  have "tidy_all f (map (\<lambda>(k', z). (k', if k' = k then upd_at p (\<lambda>_. w) z else z)) m) = tidy_all f m"
    if m: "wf_map b m" "map_find k m = Some y" for b m
  proof -
    have "z = y" if "(k, z) \<in> set m" for z
      using that m map_find_in_iff [of m k z] by (simp add: wf_map_def)
    moreover have "tidy f (upd_at p (\<lambda>_. w) y) = tidy f y"
      using Cons.IH [of y] y(2) Cons.prems(3) wf_get_at [OF Cons.prems(1), of "[k]" y] y(1) by simp
    ultimately show ?thesis by (auto simp: tidy_all_map)
  qed
  then show ?case using y(1) Cons.prems(1)
    by (cases v; cases "payload v") (auto simp: with_map_def set_payload_def map_of_value_def)
qed simp

lemma tidy_comment: "setComment c p v = Inr w \<Longrightarrow> tidy f w = tidy f v"
  by (cases v) (auto simp: setComment_def Let_def)

lemma vsim_comment_at:
  assumes "setComment c place x = Inr w"
  shows "wf_value v \<Longrightarrow> get_at p v = Some x \<Longrightarrow> vsim (upd_at p (\<lambda>_. w) v) y \<longleftrightarrow> vsim v y"
    "wf_value v \<Longrightarrow> get_at p v = Some x \<Longrightarrow> vsim y (upd_at p (\<lambda>_. w) v) \<longleftrightarrow> vsim y v"
  using tidy_upd_at [OF _ _ tidy_comment [OF assms]] by (simp_all add: vsim_def)

section \<open>The simulation\<close>

text \<open>The options under which \<open>OurReader\<close> is compared: only trailing commas may be allowed in addition.\<close>

definition fsim :: "Features \<Rightarrow> OurFeatures \<Rightarrow> bool" where
  "fsim f g \<longleftrightarrow> allowComments g = allowComments f \<and> allowDroppedNullPlaceholders g = allowDroppedNullPlaceholders f \<and>
     \<not> allowNumericKeys f \<and> \<not> allowSingleQuotes g \<and> \<not> allowSpecialFloats g \<and>
     \<not> rejectDupKeys g \<and> \<not> failIfExtra g \<and> stackLimit_g \<le> stackLimit g"

definition sim :: "Reader \<Rightarrow> OurReader \<Rightarrow> bool" where
  "sim s t \<longleftrightarrow> in_doc s \<and> length (doc s) < 2 ^ 30 \<and> doc t = doc s \<and> begin_pos t = begin_pos s \<and> current t = current s \<and> nodes t = nodes s \<and>
     errors t = errors s \<and> vsim (root s) (root t) \<and> wf_value (root s) \<and> wf_value (root t) \<and> fsim (features s) (features t)"

text \<open>\<open>goes Q r\<close>: \<open>r\<close> satisfies \<open>Q\<close> unless it is out of fuel or aborted by a comment, which the theorem on termination excludes.\<close>

definition goes :: "('a \<Rightarrow> bool) \<Rightarrow> 'a res \<Rightarrow> bool" where
  "goes Q r = (case r of Ok x \<Rightarrow> Q x | Abort e \<Rightarrow> \<not> our_aborts e | OutOfFuel \<Rightarrow> True)"

lemma goes_simps [simp]: "goes Q (Ok x) = Q x" "goes Q (Abort e) = (\<not> our_aborts e)" "goes Q OutOfFuel"
  by (simp_all add: goes_def)

lemma goes_bind: "goes P x \<Longrightarrow> (\<And>a. P a \<Longrightarrow> goes Q (f a)) \<Longrightarrow> goes Q (bind x f)"
  by (cases x) auto

lemma goes_mono: "goes P x \<Longrightarrow> (\<And>a. P a \<Longrightarrow> Q a) \<Longrightarrow> goes Q x"
  by (cases x) auto

lemma our_aborts_logic [simp]: "\<not> our_aborts (LogicError m)" "\<not> our_aborts (Undefined m)"
  by (simp_all add: our_aborts_def stack_exceeded_def)

lemma sim_features: "sim s t \<Longrightarrow> fsim (features s) (features t)"
  by (simp add: sim_def)

lemma sim_current: "sim s t \<Longrightarrow> current t = current s" "sim s t \<Longrightarrow> doc t = doc s" "sim s t \<Longrightarrow> currentPath t = currentPath s"
    "sim s t \<Longrightarrow> end_pos t = end_pos s" "sim s t \<Longrightarrow> in_doc s" "sim s t \<Longrightarrow> in_doc t" "sim s t \<Longrightarrow> offset t = offset s"
    "sim s t \<Longrightarrow> token_text tk t = token_text tk s" "sim s t \<Longrightarrow> string_body tk t = string_body tk s" "sim s t \<Longrightarrow> nodes t = nodes s"
  by (auto simp: sim_def currentPath_def end_pos_def in_doc_def token_text_def string_body_def offset_def fun_eq_iff)

lemma sim_move: "sim s t \<Longrightarrow> n \<le> length (doc s) \<Longrightarrow> sim (s\<lparr>current := n\<rparr>) (t\<lparr>current := n\<rparr>)"
  by (simp add: sim_def in_doc_def end_pos_def)

lemma sim_commentsBefore: "sim (s\<lparr>commentsBefore := c\<rparr>) t = sim s t" "sim s (t\<lparr>commentsBefore := c\<rparr>) = sim s t"
    "sim s (t\<lparr>lastValueHasAComment := b\<rparr>) = sim s t"
  by (simp_all add: sim_def in_doc_def end_pos_def)

lemma sim_comment_left:
  assumes "upd_outcome p (setComment c place) s = Ok s'"
  shows "sim s t \<Longrightarrow> sim s' t"
proof -
  obtain v w where v: "get_at p (root s) = Some v" "setComment c place v = Inr w" "s' = s\<lparr>root := upd_at p (\<lambda>_. w) (root s)\<rparr>"
    using assms by (auto simp: upd_outcome_def lift_def split: option.splits sum.splits)
  then show "sim s t \<Longrightarrow> sim s' t"
    using vsim_comment_at(1) [OF v(2) _ v(1)] wf_comment_at [OF _ v(1,2)] by (simp add: sim_def in_doc_def end_pos_def)
qed

lemma setComment_Inl: "setComment c p v = Inl e \<Longrightarrow> \<exists>m. e = LogicError m"
  by (auto simp: setComment_def Let_def json_assert_def split: if_splits)

lemma goes_comment_right: "sim s t \<Longrightarrow> goes (sim s) (upd_outcome p (setComment c place) t)"
proof (cases "get_at p (root t)")
  case (Some v)
  assume s: "sim s t"
  show ?thesis
  proof (cases "setComment c place v")
    case (Inl e)
    then show ?thesis using Some setComment_Inl [OF Inl] by (auto simp: upd_outcome_def lift_def)
  next
    case (Inr w)
    then show ?thesis using Some s vsim_comment_at(2) [OF Inr _ Some] wf_comment_at [OF _ Some Inr]
      by (simp add: upd_outcome_def lift_def sim_def)
  qed
qed (simp add: upd_outcome_def)

lemma addComment_left: "addComment a b p s = Ok s' \<Longrightarrow> sim s t \<Longrightarrow> sim s' t"
  using sim_comment_left by (auto simp: addComment_def Let_def sim_commentsBefore split: if_splits option.splits)

lemma addComment_right: "sim s t \<Longrightarrow> goes (sim s) (addComment a b p t)"
  using goes_comment_right by (auto simp: addComment_def Let_def sim_commentsBefore split: option.split)

section \<open>Tokens\<close>

lemma sim_getNextChar:
  assumes "sim s t" "getNextChar s = (c, s')"
  shows "\<exists>t'. getNextChar t = (c, t') \<and> sim s' t'"
  using assms sim_move [OF assms(1), of "current s + 1"]
  by (auto simp: getNextChar_def sim_current in_doc_def end_pos_def split: if_splits dest!: sim_current(5))

lemma sim_skipSpaces: "sim s t \<Longrightarrow> sim (skipSpaces s) (skipSpaces t)"
proof -
  assume a: "sim s t"
  then have "skip_from is_space (doc s) (current s) \<le> length (doc s)"
    using skip_from_bounds(2) [of "current s" "doc s" is_space] by (simp add: sim_def in_doc_def end_pos_def)
  then show ?thesis using sim_move [OF a] a by (simp add: skipSpaces_def sim_current)
qed

text \<open>The scanning functions change the position only, and do so in the same way.\<close>

definition scans :: "(Reader \<Rightarrow> bool \<times> Reader) \<Rightarrow> (OurReader \<Rightarrow> bool \<times> OurReader) \<Rightarrow> bool" where
  "scans f g \<longleftrightarrow> (\<forall>s t. doc t = doc s \<longrightarrow> current t = current s \<longrightarrow>
     (\<exists>ok n. f s = (ok, s\<lparr>current := n\<rparr>) \<and> g t = (ok, t\<lparr>current := n\<rparr>)))"

lemma scansI:
  assumes "\<And>s. f s = (ok (doc s) (current s), s\<lparr>current := n (doc s) (current s)\<rparr>)"
    "\<And>t. g t = (ok (doc t) (current t), t\<lparr>current := n (doc t) (current t)\<rparr>)"
  shows "scans f g"
  unfolding scans_def using assms by metis

lemma current_self: "s\<lparr>current := current s\<rparr> = (s :: ('f, 'a) scanner)"
  by (cases s) simp

lemma scanner_results:
  fixes s :: "('f, 'a) scanner"
  shows "readString s = (fst (string_scan (drop (current s) (doc s))),
      s\<lparr>current := length (doc s) - length (snd (string_scan (drop (current s) (doc s))))\<rparr>)"
    "match p s = (take (length p) (drop (current s) (doc s)) = p,
      s\<lparr>current := (if take (length p) (drop (current s) (doc s)) = p then current s + length p else current s)\<rparr>)"
    "readCStyleComment s = (let i = c_comment (doc s) (current s) in (i \<noteq> length (doc s) \<and> doc s ! i = CHR ''/'',
      s\<lparr>current := (if i = length (doc s) then i else i + 1)\<rparr>))"
    "readCppStyleComment s = (let i = skip_from (\<lambda>c. c \<noteq> CHR 0x0A \<and> c \<noteq> CHR 0x0D) (doc s) (current s) in (True,
      s\<lparr>current := (if i = length (doc s) then i else if doc s ! i = CHR 0x0A then i + 1
        else if i + 1 \<noteq> length (doc s) \<and> doc s ! (i + 1) = CHR 0x0A then i + 2 else i + 1)\<rparr>))"
  by (simp_all add: readString_def match_def readCStyleComment_def readCppStyleComment_def getNextChar_def end_pos_def Let_def
    case_prod_unfold current_self)

lemma scans_scanner: "scans readString readString" "scans (match p) (match p)" "scans readCStyleComment readCStyleComment"
    "scans readCppStyleComment readCppStyleComment"
  by (rule scansI, (rule scanner_results [unfolded Let_def])+)+

lemma scans_sim:
  assumes "scans f g" "sim s t" "f s = (ok, s')" "in_doc s \<Longrightarrow> moved s s'"
  shows "\<exists>t'. g t = (ok, t') \<and> sim s' t'"
proof -
  have "doc t = doc s" "current t = current s" using assms(2) by (simp_all add: sim_current)
  with assms(1) obtain ok' n where n: "f s = (ok', s\<lparr>current := n\<rparr>)" "g t = (ok', t\<lparr>current := n\<rparr>)" unfolding scans_def by blast
  moreover have "n \<le> length (doc s)" using n(1) assms(3,4) sim_current(5) [OF assms(2)]
    by (auto simp: moved_def in_doc_def end_pos_def)
  ultimately show ?thesis using sim_move [OF assms(2)] assms(3) by auto
qed

lemma sim_readComment:
  assumes "sim s t" "readComment s = Ok (ok, s')"
  shows "goes (\<lambda>(ok', t'). ok' = ok \<and> sim s' t') (our_readComment t)"
proof -
  obtain c u where u: "getNextChar s = (c, u)" by force
  obtain u' where u': "getNextChar t = (c, u')" "sim u u'" using sim_getNextChar [OF assms(1) u] by blast
  define r where "r = (if c = CHR ''*'' then readCStyleComment u
      else if c = CHR ''/'' then readCppStyleComment u else (False, u))"
  define r' where "r' = (if c = CHR ''*'' then our_readCStyleComment u'
      else if c = CHR ''/'' then (let (ok, s) = readCppStyleComment u' in (ok, False, s)) else (False, False, u'))"
  obtain k w where w: "r = (k, w)" by force
  have "\<exists>nl w'. r' = (k, nl, w') \<and> sim w w'"
  proof (cases "c = CHR ''*'' \<or> c = CHR ''/''")
    case True
    then have "\<exists>w'. (if c = CHR ''*'' then readCStyleComment u' else readCppStyleComment u') = (k, w') \<and> sim w w'"
      using w scans_sim [OF scans_scanner(3) u'(2), of k w] scans_sim [OF scans_scanner(4) u'(2), of k w]
        moved_readCStyleComment [of u k w] moved_readCppStyleComment [of u k w] by (simp add: r_def split: if_splits)
    with True show ?thesis by (auto simp: r'_def our_readCStyleComment_def Let_def)
  qed (use w u'(2) in \<open>auto simp: r_def r'_def\<close>)
  then obtain nl w' where w': "r' = (k, nl, w')" "sim w w'" by blast
  have k: "ok = k" "sim s' w'" using assms(2) w w'(2) unfolding readComment_def Let_def u prod.case r_def [symmetric] w
    by (auto split: if_splits dest: addComment_left)
  show ?thesis
    using k(2) addComment_right [OF k(2)] addComment_right [of s' "w'\<lparr>lastValueHasAComment := True\<rparr>"]
    unfolding our_readComment_def u' Let_def prod.case r'_def [unfolded Let_def, symmetric] w' k(1)
    by (auto simp: sim_commentsBefore intro!: goes_bind [where P = "sim s'"])
qed

text \<open>
  How the tokens of the two readers may differ: \<open>OurReader\<close> takes a plus sign, and a minus sign before an \<open>I\<close>, for the start of a
  number. \<open>stuck\<close>: the character that follows cannot start a token that \<open>Reader\<close> would accept after it.
\<close>

definition stuck :: "Reader \<Rightarrow> bool" where
  "stuck s \<longleftrightarrow> is_digit (peek (doc s) (current s)) \<or> peek (doc s) (current s) \<in> {CHR ''.'', CHR ''e'', CHR ''E'', CHR ''I''}"

definition tok_rel :: "bool \<times> Token \<times> Reader \<Rightarrow> bool \<times> Token \<times> OurReader \<Rightarrow> bool" where
  "tok_rel a b = (case a of (ok, tk, s) \<Rightarrow> case b of (ok', tk', t) \<Rightarrow>
     ok' = ok \<and> tk' = tk \<and> sim s t \<or>
     \<not> ok \<and> t_type tk = tokenError \<and> t_type tk' = tokenNumber \<and> sim s t \<or>
     stuck s \<and> t_type tk' \<noteq> tokenComment \<and> (\<exists>n. sim (s\<lparr>current := n\<rparr>) t) \<and> (\<not> ok \<and> t_type tk = tokenError \<or>
       ok \<and> t_type tk = tokenNumber \<and> peek (doc s) (current s) = CHR ''I''))"

lemma tok_rel_same: "sim s t \<Longrightarrow> tok_rel (ok, tk, s) (ok, tk, t)"
  by (simp add: tok_rel_def)

lemma goes_tok: "goes P (tok ty a ok t) = P (ok, \<lparr>t_type = (if ok then ty else tokenError), t_start = a, t_end = current t\<rparr>, t)"
  by (simp add: tok_def)

lemma goes_tok_same: "sim s t \<Longrightarrow> tok ty a ok s = Ok r \<Longrightarrow> goes (tok_rel r) (tok ty a ok t)"
  by (auto simp: tok_def sim_current intro!: tok_rel_same)

lemma sim_readNumber:
  assumes "sim s t"
  shows "sim (readNumber s) (readNumber t)"
  using sim_move [OF assms, of "number_end (doc s) (current s)"] number_end_bounds [of "current s" "doc s"] sim_current(5) [OF assms] assms
  by (simp add: readNumber_def sim_current in_doc_def end_pos_def)

lemma number_end_stop: "\<not> is_digit (peek d i) \<Longrightarrow> peek d i \<notin> {CHR ''.'', CHR ''e'', CHR ''E''} \<Longrightarrow> number_end d i = i"
proof -
  assume a: "\<not> is_digit (peek d i)" "peek d i \<notin> {CHR ''.'', CHR ''e'', CHR ''E''}"
  have "takeWhile is_digit (drop i d) = []"
    using a(1) by (cases "drop i d") (auto simp: peek_def dest: nth_via_drop split: if_splits)
  then show ?thesis using a(2) by (simp add: number_end_def skip_from_def)
qed

lemma our_readNumber_signed:
  assumes "sim s t"
  shows "our_readNumber True t = (if peek (doc s) (current s) = CHR ''I'' then (False, t\<lparr>current := current t + 1\<rparr>) else (True, readNumber t))"
  using assms sim_current(5) [OF assms] by (auto simp: our_readNumber_def peek_def sim_current in_doc_def end_pos_def)

lemma signed_results:
  assumes "sim s t"
  shows "peek (doc s) (current s) \<noteq> CHR ''I'' \<Longrightarrow> signed_token ty a t = tok tokenNumber a True (readNumber t)"
    "\<not> stuck s \<Longrightarrow> readNumber t = t" "\<not> allowSpecialFloats (features t)"
    "ty \<noteq> tokenComment \<Longrightarrow> \<exists>ok tk t' n. signed_token ty a t = Ok (ok, tk, t') \<and> t_type tk \<noteq> tokenComment \<and> sim (s\<lparr>current := n\<rparr>) t'"
proof -
  show f: "\<not> allowSpecialFloats (features t)" using sim_features [OF assms] by (simp add: fsim_def)
  show n: "signed_token ty a t = tok tokenNumber a True (readNumber t)" if "peek (doc s) (current s) \<noteq> CHR ''I''"
    using that by (simp add: signed_token_def our_readNumber_signed [OF assms])
  show "readNumber t = t" if "\<not> stuck s"
    using that number_end_stop [of "doc s" "current s"] current_self [of t] assms by (simp add: stuck_def readNumber_def sim_current)
  assume ty: "ty \<noteq> tokenComment"
  show "\<exists>ok tk t' n. signed_token ty a t = Ok (ok, tk, t') \<and> t_type tk \<noteq> tokenComment \<and> sim (s\<lparr>current := n\<rparr>) t'"
  proof (cases "peek (doc s) (current s) = CHR ''I''")
    case True
    then have "current s < length (doc s)" by (auto simp: peek_def split: if_splits)
    then have "sim (s\<lparr>current := current s + 1\<rparr>) (t\<lparr>current := current t + 1\<rparr>)"
      using sim_move [OF assms, of "current s + 1"] assms by (simp add: sim_current)
    with True ty show ?thesis by (auto simp: signed_token_def our_readNumber_signed [OF assms] special_match_def tok_def f)
  next
    case False
    have "readNumber s = s\<lparr>current := number_end (doc s) (current s)\<rparr>" by (simp add: readNumber_def)
    with n [OF False] sim_readNumber [OF assms] show ?thesis by (auto simp: tok_def)
  qed
qed

lemma goes_plus:
  assumes "sim s t" "tok tokenError a False s = Ok r"
  shows "goes (tok_rel r) (signed_token tokenPosInf a t)"
proof (cases "stuck s")
  case True
  then show ?thesis using signed_results(4) [OF assms(1), of tokenPosInf a] assms(2) by (auto simp: tok_def tok_rel_def)
next
  case False
  then have "signed_token tokenPosInf a t = tok tokenNumber a True t"
    using signed_results(1,2) [OF assms(1)] by (simp add: stuck_def)
  with assms show ?thesis by (auto simp: tok_def tok_rel_def)
qed

lemma goes_minus:
  assumes "sim s t" "tok tokenNumber a True (readNumber s) = Ok r"
  shows "goes (tok_rel r) (signed_token tokenNegInf a t)"
proof (cases "peek (doc s) (current s) = CHR ''I''")
  case True
  then have "number_end (doc s) (current s) = current s" by (intro number_end_stop) (simp_all add: is_digit_def less_eq_char_def)
  then have "readNumber s = s" by (simp add: readNumber_def current_self)
  then show ?thesis using True signed_results(4) [OF assms(1), of tokenNegInf a] assms(2) by (auto simp: tok_def tok_rel_def stuck_def)
next
  case False
  then show ?thesis using signed_results(1) [OF assms(1)] goes_tok_same [OF sim_readNumber [OF assms(1)] assms(2)] by simp
qed

lemma goes_if: "(if b then x else y) = Ok r \<Longrightarrow> (b \<Longrightarrow> x = Ok r \<Longrightarrow> goes P x') \<Longrightarrow> (\<not> b \<Longrightarrow> y = Ok r \<Longrightarrow> goes P y') \<Longrightarrow>
    goes P (if b then x' else y')"
  by (cases b) simp_all

lemma goes_scan:
  assumes "scans f g" "sim s t" "(case f s of (ok, s) \<Rightarrow> tok ty a ok s) = Ok r" "\<And>ok s'. in_doc s \<Longrightarrow> f s = (ok, s') \<Longrightarrow> moved s s'"
  shows "goes (tok_rel r) (case g t of (ok, s) \<Rightarrow> tok ty a ok s)"
proof -
  obtain ok s' where f: "f s = (ok, s')" by force
  obtain t' where "g t = (ok, t')" "sim s' t'" using scans_sim [OF assms(1,2) f] assms(4) [OF _ f] by blast
  then show ?thesis using goes_tok_same assms(3) f by simp
qed

lemma sim_readToken:
  assumes "sim s t" "readToken s = Ok r"
  shows "goes (tok_rel r) (our_readToken t)"
proof -
  have s1: "sim (skipSpaces s) (skipSpaces t)" using sim_skipSpaces [OF assms(1)] .
  obtain c u where u: "getNextChar (skipSpaces s) = (c, u)" by force
  obtain u' where u': "getNextChar (skipSpaces t) = (c, u')" "sim u u'" using sim_getNextChar [OF s1 u] by blast
  have f: "\<not> allowSingleQuotes (features u')" "\<not> allowSpecialFloats (features u')" "current (skipSpaces t) = current (skipSpaces s)"
    using sim_features [OF u'(2)] s1 by (simp_all add: fsim_def sim_current)
  note r = assms(2) [unfolded readToken_def Let_def u prod.case]
  consider "c = CHR ''+''" | "c = CHR ''-''" | "c \<in> {squote, CHR ''N'', CHR ''I''}" | "c \<notin> {CHR ''+'', CHR ''-'', squote, CHR ''N'', CHR ''I''}"
    by blast
  then show ?thesis
  proof cases
    case 1
    with r show ?thesis using goes_plus [OF u'(2)] f by (simp add: our_readToken_def u' is_digit_def less_eq_char_def Let_def)
  next
    case 2
    with r show ?thesis using goes_minus [OF u'(2)] f by (simp add: our_readToken_def u' is_digit_def less_eq_char_def Let_def)
  next
    case 3
    then have "our_readToken t = tok tokenError (current (skipSpaces s)) False u'"
      by (elim insertE emptyE) (simp_all add: our_readToken_def u' f is_digit_def less_eq_char_def Let_def special_match_def tok_def)
    moreover from 3 r have "tok tokenError (current (skipSpaces s)) False u = Ok r"
      by (elim insertE emptyE) (simp_all add: is_digit_def less_eq_char_def)
    ultimately show ?thesis using goes_tok_same [OF u'(2)] by simp
  next
    case 4
    have c: "goes (tok_rel r) (bind (our_readComment u') (\<lambda>(ok, s). tok tokenComment a ok s))"
      if cc: "bind (readComment u) (\<lambda>(ok, s). tok tokenComment a ok s) = Ok r" for a
    proof -
      obtain ok w where w: "readComment u = Ok (ok, w)" "tok tokenComment a ok w = Ok r" using cc by (auto split: prod.splits)
      show ?thesis by (rule goes_bind [OF sim_readComment [OF u'(2) w(1)]]) (auto intro!: goes_tok_same [OF _ w(2)])
    qed
    have n: "tok tokenNumber a True (readNumber u) = Ok r \<Longrightarrow> goes (tok_rel r) (tok tokenNumber a True (readNumber u'))" for a
      using goes_tok_same [OF sim_readNumber [OF u'(2)]] .
    have ne: "(c = CHR ''+'') = False" "(c = CHR ''-'') = False" "(c = squote) = False" "(c = CHR ''N'') = False" "(c = CHR ''I'') = False"
      "our_readNumber False u' = (True, readNumber u')"
      using 4 by (simp_all add: our_readNumber_def)
    note r' = r [unfolded ne simp_thms]
    show ?thesis using r' unfolding our_readToken_def Let_def u' prod.case f(3) ne if_False
      by (elim goes_if) (simp_all only: n c goes_tok_same [OF u'(2)] prod.case
        goes_scan [OF scans_scanner(1) u'(2) _ moved_readString] goes_scan [OF scans_scanner(2) u'(2) _ moved_match])
  qed
qed

lemma sim_skip_comments:
  "tok_rel (ok, tk, s) (ok', tk', t) \<Longrightarrow> skip_comments ok tk s = Ok r \<Longrightarrow> goes (tok_rel r) (our_skip_comments ok' tk' t)"
proof (induction ok tk s arbitrary: ok' tk' t r rule: skip_comments.induct)
  case (1 ok tk s)
  show ?case
  proof (cases "t_type tk = tokenComment \<and> ok")
    case False
    then have "our_skip_comments ok' tk' t = Ok (ok', tk', t)" using 1(2) by (subst our_skip_comments.simps) (auto simp: tok_rel_def)
    moreover have "r = (ok, tk, s)" using 1(3) False by (subst (asm) skip_comments.simps) simp
    ultimately show ?thesis using 1(2) by simp
  next
    case True
    then have a: "ok'" "tk' = tk" "sim s t" using 1(2) by (auto simp: tok_rel_def)
    have d: "in_doc s" "in_doc t" using a(3) by (simp_all add: sim_current)
    obtain ok1 tk1 s1 where s1: "readToken s = Ok (ok1, tk1, s1)" "skip_comments ok1 tk1 s1 = Ok r"
      using 1(3) True d by (subst (asm) skip_comments.simps) (auto split: prod.splits)
    have "goes (tok_rel r) (bind (our_readToken t) (\<lambda>(ok, tk, s). our_skip_comments ok tk s))"
    proof (rule goes_bind [OF sim_readToken [OF a(3) s1(1)]])
      fix b assume b: "tok_rel (ok1, tk1, s1) b"
      obtain ok2 tk2 t2 where b2: "b = (ok2, tk2, t2)" by (cases b)
      from 1(1) [OF _ _ s1(1) refl refl b [unfolded b2] s1(2)] True d
      show "goes (tok_rel r) (case b of (ok, tk, s) \<Rightarrow> our_skip_comments ok tk s)" by (simp add: b2)
    qed
    then show ?thesis using True a d by (subst our_skip_comments.simps) simp
  qed
qed

text \<open>\<open>skipCommentTokens\<close> forgets whether the token was in order.\<close>

lemma sim_skipCommentTokens:
  assumes "sim s t" "skipCommentTokens s = Ok (tk, s')"
  shows "goes (\<lambda>(tk', t'). \<exists>ok ok'. tok_rel (ok, tk, s') (ok', tk', t')) (our_skipCommentTokens t)"
proof -
  obtain ok1 tk1 s1 where s1: "readToken s = Ok (ok1, tk1, s1)"
    and rest: "(if allowComments (features s1) then bind (skip_comments True tk1 s1) (\<lambda>(ok, tk, s). Ok (tk, s)) else Ok (tk1, s1)) = Ok (tk, s')"
    using assms(2) by (auto simp: skipCommentTokens_def split: prod.splits)
  have f1: "features s1 = features s" using readToken_moved [OF sim_current(5) [OF assms(1)] s1] by (simp add: moved_def)
  show ?thesis unfolding our_skipCommentTokens_def
  proof (rule goes_bind [OF sim_readToken [OF assms(1) s1]], clarify)
    fix ok2 tk2 t2 assume r: "tok_rel (ok1, tk1, s1) (ok2, tk2, t2)"
    show "goes (\<lambda>(tk', t'). \<exists>ok ok'. tok_rel (ok, tk, s') (ok', tk', t'))
        (if allowComments (features t2) then bind (our_skip_comments True tk2 t2) (\<lambda>(ok, tk, s). Ok (tk, s)) else Ok (tk2, t2))"
    proof (cases "t_type tk1 = tokenComment")
      case True
      then have r': "tok_rel (True, tk1, s1) (True, tk2, t2)" "sim s1 t2" using r by (auto simp: tok_rel_def)
      have fe: "allowComments (features t2) = allowComments (features s1)" using sim_features [OF r'(2)] by (simp add: fsim_def)
      show ?thesis
      proof (cases "allowComments (features s1)")
        case True
        then obtain ok where k: "skip_comments True tk1 s1 = Ok (ok, tk, s')" using rest by (auto split: prod.splits)
        have "goes (\<lambda>(tk', t'). \<exists>ok ok'. tok_rel (ok, tk, s') (ok', tk', t')) (bind (our_skip_comments True tk2 t2) (\<lambda>(ok, tk, s). Ok (tk, s)))"
          by (rule goes_bind [OF sim_skip_comments [OF r'(1) k]]) (auto, blast)
        then show ?thesis using True fe by simp
      qed (use rest r' fe in auto)
    next
      case False
      then have "skip_comments True tk1 s1 = Ok (True, tk1, s1)" by (subst skip_comments.simps) simp
      moreover have "our_skip_comments True tk2 t2 = Ok (True, tk2, t2)" using False r by (subst our_skip_comments.simps) (auto simp: tok_rel_def)
      ultimately show ?thesis using rest r by (auto split: if_splits)
    qed
  qed
qed

section \<open>Values in place\<close>

lemma sim_upd:
  assumes "sim s t" "\<And>x y. vsim x y \<Longrightarrow> vsim (f x) (g y)" "\<And>x. wf_value x \<Longrightarrow> wf_value (f x)" "\<And>x. wf_value x \<Longrightarrow> wf_value (g x)"
  shows "sim (upd_current f s) (upd_current g t)"
proof -
  have "currentPath t = currentPath s" using assms(1) by (simp add: sim_current)
  with assms show ?thesis
    by (auto simp: sim_def upd_current_def in_doc_def end_pos_def intro!: vsim_upd_at wf_upd_at)
qed

lemma vsim_offsets [simp]: "vsim x y \<Longrightarrow> vsim (setOffsetStart a x) (setOffsetStart a y)" "vsim x y \<Longrightarrow> vsim (setOffsetLimit a x) (setOffsetLimit a y)"
    "vsim x y \<Longrightarrow> vsim (setOffsets a b x) (setOffsets a b y)"
    "vsim x y \<Longrightarrow> psim p q \<Longrightarrow> vsim (set_payload p x) (set_payload q y)"
  by (simp_all add: vsim_Value setOffsets_def setOffsetStart_def setOffsetLimit_def set_payload_def)

lemma sim_store:
  assumes "sim s t"
  shows "vsim v w \<Longrightarrow> wf_value v \<Longrightarrow> wf_value w \<Longrightarrow> sim (store_decoded tk v s) (store_decoded tk w t)"
    "wf_payload p \<Longrightarrow> psim p p \<Longrightarrow> sim (store_literal p tk s) (store_literal p tk t)"
    "wf_payload p \<Longrightarrow> psim p p \<Longrightarrow> sim (start_container p tk s) (start_container p tk t)"
proof -
  have store: "sim (store_decoded tk v s) (store_decoded tk w t)" if "vsim v w" "wf_value v" "wf_value w" for v w
    unfolding store_decoded_def
    by (rule sim_upd [OF assms]) (use that in \<open>auto simp: sim_current(7) [OF assms] vsim_Value [of v w] wf_iff\<close>)
  then show "vsim v w \<Longrightarrow> wf_value v \<Longrightarrow> wf_value w \<Longrightarrow> sim (store_decoded tk v s) (store_decoded tk w t)" .
  assume p: "wf_payload p" "psim p p"
  then have "vsim (initBasic p) (initBasic p)" "wf_value (initBasic p)" by (simp_all add: vsim_Value initBasic_def)
  then show "sim (store_literal p tk s) (store_literal p tk t)" unfolding store_literal_def by (intro store)
  show "sim (start_container p tk s) (start_container p tk t)" unfolding start_container_def
    by (rule sim_upd [OF assms]) (use p in \<open>auto simp: sim_current(7) [OF assms] wf_iff\<close>)
qed

lemma sim_unread:
  assumes "sim s t"
  shows "sim (unread s) (unread t)"
proof -
  let ?s = "s\<lparr>current := current s - 1\<rparr>" and ?t = "t\<lparr>current := current t - 1\<rparr>"
  have u: "sim ?s ?t" using sim_move [OF assms, of "current s - 1"] sim_current(5) [OF assms] assms
    by (simp add: sim_current in_doc_def end_pos_def)
  show ?thesis unfolding unread_def Let_def
    by (rule sim_upd [OF u]) (use sim_current(7) [OF u] sim_current(1) [OF assms] in \<open>auto simp: psim_simps wf_iff\<close>)
qed

lemma sim_mark: "sim (mark_value s) (our_mark_value t) = sim s t"
  by (simp add: sim_def mark_value_def our_mark_value_def in_doc_def end_pos_def)

lemma sim_limit: "sim s t \<Longrightarrow> sim (upd_current (setOffsetLimit (offset s (current s))) s) (upd_current (setOffsetLimit (offset t (current t))) t)"
  by (rule sim_upd) (auto simp: sim_current wf_iff)

lemma sim_take_comments:
  assumes "sim s t" "take_comments s = Ok s'"
  shows "goes (sim s') (take_comments t)"
proof -
  have "sim s' t" using assms sim_comment_left by (auto simp: take_comments_def sim_commentsBefore split: if_splits)
  then show ?thesis using goes_comment_right [of s' t "currentPath t"]
    by (auto simp: take_comments_def intro!: goes_bind [where P = "sim s'"] simp: sim_commentsBefore)
qed

lemma msim_emplace: "msim m n \<Longrightarrow> msim (map_emplace k nullSingleton m) (map_emplace k nullSingleton n)"
proof (induction m arbitrary: n)
  case Nil
  then show ?case by (simp add: vsim_Value nullSingleton_def Value_of_type_def initBasic_def psim_simps)
next
  case (Cons p m)
  obtain k' a where p: "p = (k', a)" by (cases p)
  then obtain b n' where "n = (k', b) # n'" "vsim a b" "msim m n'" using Cons.prems by auto
  then show ?case using Cons.IH
    by (simp add: p map_emplace_Cons vsim_Value nullSingleton_def Value_of_type_def initBasic_def psim_simps)
qed

text \<open>A container operation that creates an element does the same to related values.\<close>

definition creates_alike :: "(Value \<Rightarrow> Value outcome) \<Rightarrow> bool" where
  "creates_alike f \<longleftrightarrow> (\<forall>x y x'. vsim x y \<longrightarrow> f x = Inr x' \<longrightarrow> (\<exists>y'. f y = Inr y' \<and> vsim x' y' \<and>
     (wf_value x \<longrightarrow> wf_value x') \<and> (wf_value y \<longrightarrow> wf_value y')))"

lemma vsim_coerce: "vsim x y \<Longrightarrow> t = arrayValue \<or> t = objectValue \<Longrightarrow> vsim (coerce t x) (coerce t y)"
  using vsim_container(3) by (auto simp: coerce_def Value_of_type_def vsim_Value initBasic_def psim_simps)

lemma creates_alike_member: "creates_alike (resolveReference name)"
  unfolding creates_alike_def
proof (intro allI impI)
  fix x y x' assume a: "vsim x y" "resolveReference name x = Inr x'"
  have "resolveReference name y = Inr (with_map (map_emplace (CZString name) nullSingleton) (coerce objectValue y))"
    using a vsim_container(2,3) [OF a(1)] by (auto simp: resolveReference_def json_assert_def split: if_splits)
  moreover have "vsim x' (with_map (map_emplace (CZString name) nullSingleton) (coerce objectValue y))"
    using a by (auto simp: resolveReference_def intro!: vsim_with_map vsim_coerce msim_emplace)
  ultimately show "\<exists>y'. resolveReference name y = Inr y' \<and> vsim x' y' \<and> (wf_value x \<longrightarrow> wf_value x') \<and> (wf_value y \<longrightarrow> wf_value y')"
    using wf_resolveReference a(2) by blast
qed

lemma creates_alike_element: "creates_alike (index_ref_int i)"
  unfolding creates_alike_def
proof (intro allI impI)
  fix x y x' assume a: "vsim x y" "index_ref_int i x = Inr x'"
  let ?j = "word_of_int i"
  have x: "index_ref ?j x = Inr x'" and i: "\<And>v. index_ref_int i v = index_ref ?j v"
    using a(2) by (auto simp: index_ref_int_def json_assert_def split: if_splits)
  have "index_ref ?j y = Inr (with_map (map_emplace (CZIndex ?j) nullSingleton) (coerce arrayValue y))"
    using x vsim_container(1,3) [OF a(1)] by (auto simp: index_ref_def json_assert_def split: if_splits)
  moreover have "vsim x' (with_map (map_emplace (CZIndex ?j) nullSingleton) (coerce arrayValue y))"
    using x a(1) by (auto simp: index_ref_def intro!: vsim_with_map vsim_coerce msim_emplace)
  ultimately show "\<exists>y'. index_ref_int i y = Inr y' \<and> vsim x' y' \<and> (wf_value x \<longrightarrow> wf_value x') \<and> (wf_value y \<longrightarrow> wf_value y')"
    unfolding i using wf_index_ref x by blast
qed

lemma sim_create:
  assumes "creates_alike f" "sim s t" "upd_outcome (currentPath s) f s = Ok s'"
  shows "\<exists>t'. upd_outcome (currentPath t) f t = Ok t' \<and> sim s' t'"
proof -
  let ?p = "currentPath s"
  obtain x x' where x: "get_at ?p (root s) = Some x" "f x = Inr x'" "s' = s\<lparr>root := upd_at ?p (\<lambda>_. x') (root s)\<rparr>"
    using assms(3) by (auto simp: upd_outcome_def lift_def split: option.splits sum.splits)
  have r: "vsim (root s) (root t)" "wf_value (root s)" "wf_value (root t)" using assms(2) by (simp_all add: sim_def)
  obtain y where y: "get_at ?p (root t) = Some y" "vsim x y" using vsim_get_at [OF r(1), of ?p] x(1) by (auto elim: option.rel_cases)
  obtain y' where y': "f y = Inr y'" "vsim x' y'" "wf_value x'" "wf_value y'"
    using assms(1) x(2) y(2) wf_get_at [OF r(2) x(1)] wf_get_at [OF r(3) y(1)] unfolding creates_alike_def by blast
  have "sim s' (t\<lparr>root := upd_at ?p (\<lambda>_. y') (root t)\<rparr>)"
    using assms(2) y' r by (auto simp: x(3) sim_def in_doc_def end_pos_def intro!: vsim_upd_at wf_upd_at)
  then show ?thesis using y(1) y'(1) sim_current(3) [OF assms(2)] by (simp add: upd_outcome_def lift_def)
qed

section \<open>Where \<open>Reader\<close> fails\<close>

lemma recover_False [dest]: "recoverFromError k s = Ok (b, s') \<Longrightarrow> \<not> b" "addErrorAndRecover m tk k s = Ok (b, s') \<Longrightarrow> \<not> b"
  by (auto simp: addErrorAndRecover_def recoverFromError_def Let_def)

lemma skip_comments_other: "t_type tk \<noteq> tokenComment \<Longrightarrow> skip_comments ok tk s = Ok (ok, tk, s)"
  by (subst skip_comments.simps) simp

lemma skip_comments_last: "in_doc s \<Longrightarrow> skip_comments ok tk s = Ok r \<Longrightarrow> r = (ok, tk, s) \<or> (\<exists>u. moved s u \<and> readToken u = Ok r)"
proof (induction ok tk s rule: skip_comments.induct)
  case (1 ok tk s)
  show ?case
  proof (cases "t_type tk = tokenComment \<and> ok")
    case True
    then obtain ok1 tk1 s1 where s1: "readToken s = Ok (ok1, tk1, s1)" "skip_comments ok1 tk1 s1 = Ok r"
      using 1(2,3) by (subst (asm) (2) skip_comments.simps) (auto split: prod.splits)
    then have m: "moved s s1" using readToken_moved [OF 1(2)] by blast
    have "r = (ok1, tk1, s1) \<or> (\<exists>u. moved s1 u \<and> readToken u = Ok r)"
      using 1(1) [OF _ _ s1(1) refl refl moved_in_doc [OF m] s1(2)] True 1(2) by simp
    then show ?thesis using m s1(1) moved_trans [OF m] moved_refl [OF 1(2)] by blast
  next
    case False
    then show ?thesis using 1(3) by (subst (asm) skip_comments.simps) auto
  qed
qed

lemma skipCommentTokens_last:
  assumes "in_doc s" "skipCommentTokens s = Ok (tk, s')"
  shows "\<exists>u ok. moved s u \<and> readToken u = Ok (ok, tk, s')"
proof -
  obtain ok1 tk1 s1 where s1: "readToken s = Ok (ok1, tk1, s1)"
      "tk = tk1 \<and> s' = s1 \<or> (\<exists>ok. skip_comments True tk1 s1 = Ok (ok, tk, s'))"
    using assms(2) by (auto simp: skipCommentTokens_def split: prod.splits if_splits)
  then have m: "moved s s1" using readToken_moved [OF assms(1)] by blast
  from s1(2) show ?thesis
  proof (elim disjE exE)
    fix ok assume "skip_comments True tk1 s1 = Ok (ok, tk, s')"
    then show ?thesis using skip_comments_last [OF moved_in_doc [OF m]] s1(1) moved_trans [OF m] moved_refl [OF assms(1)] by fast
  qed (use s1(1) moved_refl [OF assms(1)] in blast)
qed

lemma skipSpaces_stuck: "stuck s \<Longrightarrow> skipSpaces s = s"
proof -
  assume "stuck s"
  then have "takeWhile is_space (drop (current s) (doc s)) = []"
    by (cases "drop (current s) (doc s)")
      (auto simp: stuck_def peek_def is_digit_def is_space_def less_eq_char_def dest: nth_via_drop split: if_splits)
  then show ?thesis by (simp add: skipSpaces_def skip_from_def current_self)
qed

lemma stuck_readToken:
  assumes "stuck s" "readToken s = Ok (ok, tk, s')"
  shows "t_type tk = tokenNumber \<or> \<not> ok \<and> t_type tk = tokenError" "peek (doc s) (current s) = CHR ''I'' \<Longrightarrow> \<not> ok \<and> t_type tk = tokenError"
proof -
  have "current s < length (doc s)" using assms(1)
    by (rule_tac ccontr) (auto simp: stuck_def peek_def is_digit_def less_eq_char_def split: if_splits)
  then have "getNextChar s = (peek (doc s) (current s), s\<lparr>current := current s + 1\<rparr>)" by (simp add: getNextChar_def end_pos_def peek_def)
  note r = assms(2) [unfolded readToken_def Let_def skipSpaces_stuck [OF assms(1)] this prod.case]
  have d: "is_digit (peek (doc s) (current s)) \<or> peek (doc s) (current s) \<in> {CHR ''.'', CHR ''e'', CHR ''E'', CHR ''I''}"
    using assms(1) by (simp add: stuck_def)
  then show "t_type tk = tokenNumber \<or> \<not> ok \<and> t_type tk = tokenError"
    using r by (auto simp: tok_def is_digit_def less_eq_char_def split: if_splits)
  show "\<not> ok \<and> t_type tk = tokenError" if "peek (doc s) (current s) = CHR ''I''"
    using r that by (auto simp: tok_def is_digit_def less_eq_char_def split: if_splits)
qed

definition before_I :: "('f, 'a) scanner \<Rightarrow> bool" where
  "before_I s \<longleftrightarrow> peek (doc s) (current s) = CHR ''I''"

lemma before_I_fails:
  assumes "before_I s"
  shows "comma_body next name s = Ok (b, s') \<Longrightarrow> \<not> b" "separator_body nxt i s = Ok (b, s') \<Longrightarrow> \<not> b"
proof -
  have "stuck s" using assms by (simp add: stuck_def before_I_def)
  then have r: "\<not> ok" "t_type tk = tokenError" if "readToken s = Ok (ok, tk, s1)" for ok tk s1
    using that stuck_readToken(2) assms by (auto simp: before_I_def)
  show "\<not> b" if a: "comma_body next name s = Ok (b, s')"
  proof -
    obtain ok tk s1 where s1: "readToken s = Ok (ok, tk, s1)" using a by (auto simp: comma_body_def)
    with a r [OF s1] show ?thesis by (auto simp: comma_body_def)
  qed
  show "\<not> b" if a: "separator_body nxt i s = Ok (b, s')"
  proof -
    obtain ok tk s1 where s1: "readToken s = Ok (ok, tk, s1)" using a by (auto simp: separator_body_def)
    with a r [OF s1] show ?thesis by (auto simp: separator_body_def skip_comments_other)
  qed
qed

lemma stuck_object_fails:
  assumes "stuck s" "in_doc s" "\<not> allowNumericKeys (features s)" "object_body rv next name s = Ok (b, s')"
  shows "\<not> b"
proof -
  obtain ok tk s1 where s1: "readToken s = Ok (ok, tk, s1)" using assms(4) by (auto simp: object_body_def)
  have t: "t_type tk = tokenNumber \<or> \<not> ok \<and> t_type tk = tokenError" using stuck_readToken [OF assms(1) s1] by blast
  have "features s1 = features s" using readToken_moved [OF assms(2) s1] by (simp add: moved_def)
  with t assms(3,4) s1 show ?thesis by (auto simp: object_body_def skip_comments_other name_body_def split: if_splits)
qed

lemma readToken_number:
  assumes "in_doc s" "readToken s = Ok (ok, tk, s')" "t_type tk = tokenNumber"
  shows "hd (token_text tk s') \<noteq> CHR ''+''"
proof -
  let ?a = "current (skipSpaces s)"
  obtain c u where u: "getNextChar (skipSpaces s) = (c, u)" by force
  note r = assms(2) [unfolded readToken_def Let_def u prod.case]
  have c: "is_digit c \<or> c = CHR ''-''" "tk = \<lparr>t_type = tokenNumber, t_start = ?a, t_end = current (readNumber u)\<rparr>" "s' = readNumber u"
    using r assms(3) by (auto simp: tok_def split: if_splits prod.splits)
  then have n: "c \<noteq> NUL" "c \<noteq> CHR ''+''" by (auto simp: is_digit_def less_eq_char_def)
  have m: "moved (skipSpaces s) u" "?a < current u" using moved_getNextChar [OF moved_in_doc [OF moved_skipSpaces [OF assms(1)]] u] n by auto
  have "doc u ! ?a = c" "doc u = doc (skipSpaces s)" using u n(1) by (auto simp: getNextChar_def split: if_splits)
  moreover have "current u \<le> current (readNumber u)" "current (readNumber u) \<le> length (doc u)"
    using moved_readNumber [OF moved_in_doc [OF m(1)]] by (auto simp: moved_def in_doc_def end_pos_def)
  moreover have "doc (readNumber u) = doc u" by (simp add: readNumber_def)
  ultimately show ?thesis using m(2) n(2) unfolding c(2,3)
    by (simp add: token_text_def slice_def hd_drop_conv_nth hd_conv_nth)
qed

section \<open>Values\<close>

definition agree :: "parser \<Rightarrow> our_parser \<Rightarrow> bool" where
  "agree f g \<longleftrightarrow> (\<forall>s t s'. sim s t \<longrightarrow> f s = Ok (True, s') \<longrightarrow> goes (\<lambda>(ok, t'). ok \<and> sim s' t') (g t))"

text \<open>A value that is a minus sign before an \<open>I\<close>: \<open>Reader\<close> takes it for the number 0, and for an error when anything else must follow.\<close>

definition blocked :: "Reader \<Rightarrow> Reader \<Rightarrow> bool" where
  "blocked s s' \<longleftrightarrow> before_I s' \<and> (nodes s = [[]] \<longrightarrow> \<not> isArray (root s') \<and> \<not> isObject (root s'))"

definition agree_value :: "parser \<Rightarrow> our_parser \<Rightarrow> bool" where
  "agree_value f g \<longleftrightarrow> (\<forall>s t s'. sim s t \<longrightarrow> f s = Ok (True, s') \<longrightarrow> \<not> blocked s s' \<longrightarrow> goes (\<lambda>(ok, t'). ok \<and> sim s' t') (g t))"

lemma take_comments_same: "take_comments s = Ok s' \<Longrightarrow> doc s' = doc s \<and> current s' = current s \<and> nodes s' = nodes s \<and> features s' = features s"
  by (auto simp: take_comments_def upd_outcome_def split: if_splits option.splits)

lemma number_blocks:
  assumes "before_I s" "decodeNumber tk s = (True, s')"
  shows "blocked s (mark_value s')"
proof -
  obtain v where v: "decodeNumber_value (token_text tk s) = Some v" "s' = store_decoded tk v s"
    using assms(2) by (auto simp: decodeNumber_def split: option.splits)
  have "type_of v \<noteq> arrayValue" "type_of v \<noteq> objectValue"
    using v(1) by (auto simp: decodeNumber_value_def decode_integer_def Let_def Value_of_Int64_def Value_of_UInt64_def Value_of_double_def
      initBasic_def type_of_def split: if_splits option.splits)
  then show ?thesis using assms(1) by (auto simp: blocked_def before_I_def v(2) mark_value_def store_decoded_def upd_current_def
    currentPath_def isArray_def isObject_def type_of_def setOffsets_def setOffsetStart_def setOffsetLimit_def set_payload_def)
qed

lemma sim_decodeNumber:
  assumes "sim s t" "hd (token_text tk s) \<noteq> CHR ''+''" "decodeNumber tk s = (True, s')"
  shows "\<exists>t'. our_decodeNumber tk t = (True, t') \<and> sim s' t'"
proof -
  obtain v where v: "decodeNumber_value (token_text tk s) = Some v" "s' = store_decoded tk v s"
    using assms(3) by (auto simp: decodeNumber_def split: option.splits)
  then obtain w where w: "our_number_value (token_text tk s) = Some w" "vsim v w"
    using our_number_agrees [OF assms(2)] by (auto elim: option.rel_cases)
  have "wf_value w" using w(1) by (auto simp: our_number_value_def our_integer_def Let_def Value_of_Int64_def Value_of_UInt64_def
      Value_of_double_def initBasic_def split: if_splits option.splits)
  with sim_store(1) [OF assms(1) w(2)] wf_number [OF v(1)] show ?thesis
    using w(1) assms(1) by (simp add: our_decodeNumber_def sim_current v(2))
qed

lemma sim_decodeString:
  assumes "sim s t" "decodeString tk s = Ok (True, s')"
  shows "\<exists>t'. decodeString tk t = Ok (True, t') \<and> sim s' t'"
proof -
  obtain x v where x: "decode_chars (string_body tk s) [] = Inr x" "Value_of_String x = Inr v" "s' = store_decoded tk v s"
    using assms(2) by (auto simp: decodeString_def decodeString_value_def lift_def split: sum.splits)
  then have "v = initBasic (PString x)"
    by (auto simp: Value_of_String_def duplicateAndPrefixStringValue_def)
  then have "vsim v v" "wf_value v" by (simp_all add: vsim_Value psim_simps initBasic_def)
  then show ?thesis using sim_store(1) [OF assms(1)] x assms(1)
    by (simp add: decodeString_def decodeString_value_def sim_current lift_def)
qed

lemma goes_result: "goes (\<lambda>(ok, t'). ok \<and> sim s' t') r \<Longrightarrow> goes (\<lambda>(r, t'). r = Some True \<and> sim (upd_current (setOffsetLimit (offset s' (current s'))) s') t')
    (bind (bind r limit_here) with_result)"
  by (cases r) (auto simp: limit_here_def with_result_def sim_limit)

lemma sim_value_switch:
  assumes "\<And>tk. agree (ro tk) (oro tk)" "\<And>tk. agree (ra tk) (ora tk)" "sim s t" "value_switch ro ra tk s = Ok (Some True, s')"
    "t_type tk = tokenNumber \<Longrightarrow> hd (token_text tk s) \<noteq> CHR ''+''"
  shows "goes (\<lambda>(r, t'). r = Some True \<and> sim s' t') (our_value_switch oro ora tk t)"
proof -
  have f: "allowDroppedNullPlaceholders (features t) = allowDroppedNullPlaceholders (features s)"
    using sim_features [OF assms(3)] by (simp add: fsim_def)
  note sw = assms(4) [unfolded value_switch_def]
  have lit: "sim (store_literal p tk s) (store_literal p tk t)" if "p = PNull \<or> p = PBool b" for p b
    using that by (intro sim_store(2) [OF assms(3)]) (auto simp: psim_simps)
  show ?thesis
  proof (cases "t_type tk")
    case tokenObjectBegin
    then obtain s1 where s1: "ro tk s = Ok (True, s1)" "s' = upd_current (setOffsetLimit (offset s1 (current s1))) s1"
      using sw by (auto simp: limit_here_def with_result_def)
    from assms(1) [of tk] assms(3) s1(1) have "goes (\<lambda>(ok, t'). ok \<and> sim s1 t') (oro tk t)" by (auto simp: agree_def)
    from goes_result [OF this] show ?thesis by (simp add: our_value_switch_def tokenObjectBegin s1(2))
  next
    case tokenArrayBegin
    then obtain s1 where s1: "ra tk s = Ok (True, s1)" "s' = upd_current (setOffsetLimit (offset s1 (current s1))) s1"
      using sw by (auto simp: limit_here_def with_result_def)
    from assms(2) [of tk] assms(3) s1(1) have "goes (\<lambda>(ok, t'). ok \<and> sim s1 t') (ora tk t)" by (auto simp: agree_def)
    from goes_result [OF this] show ?thesis by (simp add: our_value_switch_def tokenArrayBegin s1(2))
  next
    case tokenNumber
    then have "decodeNumber tk s = (True, s')" using sw by (cases "decodeNumber tk s") (auto simp: with_result_def)
    with sim_decodeNumber [OF assms(3) assms(5) [OF tokenNumber]] show ?thesis
      by (auto simp: our_value_switch_def tokenNumber with_result_def)
  next
    case tokenString
    then have "decodeString tk s = Ok (True, s')" using sw by (auto simp: with_result_def)
    from sim_decodeString [OF assms(3) this] show ?thesis by (auto simp: our_value_switch_def tokenString with_result_def)
  qed (use sw lit sim_unread [OF assms(3)] f in
    \<open>auto simp: our_value_switch_def with_result_def value_expected_def split: if_splits\<close>)
qed

lemma sim_value_body:
  assumes "\<And>tk. agree (ro tk) (oro tk)" "\<And>tk. agree (ra tk) (ora tk)"
  shows "agree_value (value_body ro ra) (our_value_body oro ora)"
  unfolding agree_value_def
proof (intro allI impI)
  fix s t s' assume s: "sim s t" "value_body ro ra s = Ok (True, s')" "\<not> blocked s s'"
  have lim: "length (nodes s) \<le> stackLimit_g" using s(2) by (simp add: value_body_def split: if_splits)
  then have lim': "\<not> length (nodes t) > stackLimit (features t)" using s(1) by (auto simp: sim_def fsim_def)
  obtain tk s1 s2 s3 where s1: "skipCommentTokens s = Ok (tk, s1)" and s2: "take_comments s1 = Ok s2"
    and s3: "value_switch ro ra tk s2 = Ok (Some True, s3)" "s' = mark_value s3"
    using s(2) lim by (auto simp: value_body_def split: option.splits)
  obtain u ok0 where u: "moved s u" "readToken u = Ok (ok0, tk, s1)" using skipCommentTokens_last [OF sim_current(5) [OF s(1)] s1] by blast
  have m: "moved s s1" using moved_trans [OF u(1)] readToken_moved [OF moved_in_doc [OF u(1)] u(2)] by blast
  have same: "doc s2 = doc s1" "current s2 = current s1" "nodes s2 = nodes s" using take_comments_same [OF s2] m by (auto simp: moved_def)
  have plus: "t_type tk = tokenNumber \<Longrightarrow> hd (token_text tk s2) \<noteq> CHR ''+''"
    using readToken_number [OF moved_in_doc [OF u(1)] u(2)] same by (simp add: token_text_def)
  have main: "goes (\<lambda>(ok, t'). ok \<and> sim s' t') (bind (take_comments t1) (\<lambda>s.
       bind (our_value_switch oro ora tk s) (\<lambda>(r, s). case r of None \<Rightarrow> Ok (False, s) | Some successful \<Rightarrow> Ok (successful, our_mark_value s))))"
    if "sim s1 t1" for t1
    by (rule goes_bind [OF sim_take_comments [OF that s2]], rule goes_bind [OF sim_value_switch [OF assms _ s3(1) plus]])
      (auto simp: s3(2) sim_mark)
  have no: "\<not> (t_type tk = tokenError)" using s3(1) by (auto simp: value_switch_def value_expected_def)
  have "\<not> (t_type tk = tokenNumber \<and> before_I s1)"
  proof
    assume "t_type tk = tokenNumber \<and> before_I s1"
    then have "decodeNumber tk s2 = (True, s3)" "before_I s2"
      using s3(1) same by (cases "decodeNumber tk s2"; auto simp: value_switch_def with_result_def before_I_def)+
    from number_blocks [OF this(2,1)] s(3) s3(2) same(3) show False by (simp add: blocked_def)
  qed
  then have "tk' = tk \<and> sim s1 t1" if "tok_rel (ok, tk, s1) (ok', tk', t1)" for ok ok' tk' t1
    using that no by (auto simp: tok_rel_def before_I_def)
  then have "goes (\<lambda>(tk', t1). tk' = tk \<and> sim s1 t1) (our_skipCommentTokens t)"
    by (intro goes_mono [OF sim_skipCommentTokens [OF s(1) s1]]) auto
  then show "goes (\<lambda>(ok, t'). ok \<and> sim s' t') (our_value_body oro ora t)"
    unfolding our_value_body_def if_not_P [OF lim'] by (rule goes_bind) (clarsimp simp only: prod.case main)
qed

section \<open>Objects and arrays\<close>

lemma agreeD: "agree f g \<Longrightarrow> sim s t \<Longrightarrow> f s = Ok (True, s') \<Longrightarrow> goes (\<lambda>(ok, t'). ok \<and> sim s' t') (g t)"
  by (auto simp: agree_def)

lemma sim_push_pop: "sim s t \<Longrightarrow> sim (push p s) (push p t)" "sim s t \<Longrightarrow> sim (pop s) (pop t)"
  by (auto simp: sim_def push_def pop_def in_doc_def end_pos_def)

lemma sim_child:
  assumes "agree_value rv orv" "agree after oafter" "\<And>s b s'. before_I s \<Longrightarrow> after s = Ok (b, s') \<Longrightarrow> \<not> b" "creates_alike f"
  shows "agree (child_body f k skip rv after) (our_child_body f k skip orv oafter)"
  unfolding agree_def
proof (intro allI impI)
  fix s t s' assume s: "sim s t" "child_body f k skip rv after s = Ok (True, s')"
  then obtain s1 s2 where s1: "upd_outcome (currentPath s) f s = Ok s1" and s2: "rv (push (currentPath s1 @ [k]) s1) = Ok (True, s2)"
    and s3: "after (pop s2) = Ok (True, s')"
    by (auto simp: child_body_def split: if_splits)
  obtain t1 where t1: "upd_outcome (currentPath t) f t = Ok t1" "sim s1 t1" using sim_create [OF assms(4) s(1) s1] by blast
  have "\<not> blocked (push (currentPath s1 @ [k]) s1) s2"
    using assms(3) [of "pop s2"] s3 by (auto simp: blocked_def before_I_def pop_def)
  then have "goes (\<lambda>(ok, t'). ok \<and> sim s2 t') (orv (push (currentPath t1 @ [k]) t1))"
    using assms(1) sim_push_pop(1) [OF t1(2)] s2 sim_current(3) [OF t1(2)] by (auto simp: agree_value_def)
  then show "goes (\<lambda>(ok, t'). ok \<and> sim s' t') (our_child_body f k skip orv oafter t)"
    unfolding our_child_body_def t1(1) bind.simps
    by (rule goes_bind) (auto intro!: agreeD [OF assms(2) _ s3] sim_push_pop(2))
qed

text \<open>After a comment any token counts as the comma between two members.\<close>

lemma sim_comma:
  assumes "agree (next name) (onext name)" "\<And>s b s'. stuck s \<Longrightarrow> in_doc s \<Longrightarrow> \<not> allowNumericKeys (features s) \<Longrightarrow> next name s = Ok (b, s') \<Longrightarrow> \<not> b"
  shows "agree (comma_body next name) (our_comma_body onext name)"
  unfolding agree_def
proof (intro allI impI)
  fix s t s' assume s: "sim s t" "comma_body next name s = Ok (True, s')"
  obtain ok comma s1 where s1: "readToken s = Ok (ok, comma, s1)" using s(2) by (auto simp: comma_body_def)
  have ty: "ok" "t_type comma = tokenObjectEnd \<or> t_type comma = tokenArraySeparator \<or> t_type comma = tokenComment"
    using s(2) s1 by (auto simp: comma_body_def split: if_splits)
  obtain ok2 comma2 s2 where s2: "skip_comments True comma s1 = Ok (ok2, comma2, s2)"
    and fin: "(if t_type comma2 = tokenObjectEnd then Ok (True, s2) else next name s2) = Ok (True, s')"
    using s(2) s1 ty by (auto simp: comma_body_def split: if_splits)
  have m1: "moved s s1" using readToken_moved [OF sim_current(5) [OF s(1)] s1] by blast
  have "moved s1 s2" using skip_comments_last [OF moved_in_doc [OF m1] s2] moved_refl [OF moved_in_doc [OF m1]] moved_trans
      readToken_moved moved_in_doc by blast
  then have m2: "in_doc s2" "\<not> allowNumericKeys (features s2)"
    using m1 sim_features [OF s(1)] by (auto simp: moved_def fsim_def)
  have last: "goes (\<lambda>(ok, t'). ok \<and> sim s' t') (if t_type c = tokenObjectEnd then Ok (True, t2) else onext name t2)"
    if r: "tok_rel (ok2, comma2, s2) (k, c, t2)" for k c t2
  proof (cases "stuck s2 \<and> \<not> (sim s2 t2 \<and> (t_type c = tokenObjectEnd \<longleftrightarrow> t_type comma2 = tokenObjectEnd))")
    case True
    then have "t_type comma2 \<noteq> tokenObjectEnd" using r by (auto simp: tok_rel_def)
    then show ?thesis using fin assms(2) [of s2] True m2 by auto
  next
    case False
    then have "sim s2 t2" "t_type c = tokenObjectEnd \<longleftrightarrow> t_type comma2 = tokenObjectEnd" using r by (auto simp: tok_rel_def)
    then show ?thesis using fin agreeD [OF assms(1)] by (auto split: if_splits)
  qed
  have skip: "goes (\<lambda>(ok, t'). ok \<and> sim s' t') (bind (our_skip_comments True comma t1) (\<lambda>(_, comma, s).
      if t_type comma = tokenObjectEnd then Ok (True, s) else onext name s))" if "sim s1 t1" for t1
    by (rule goes_bind [OF sim_skip_comments [OF tok_rel_same [OF that] s2]]) (clarsimp simp only: prod.case last)
  have "goes (\<lambda>r. \<exists>t1. r = (True, comma, t1) \<and> sim s1 t1) (our_readToken t)"
    by (rule goes_mono [OF sim_readToken [OF s(1) s1]]) (use ty in \<open>auto simp: tok_rel_def\<close>)
  then show "goes (\<lambda>(ok, t'). ok \<and> sim s' t') (our_comma_body onext name t)"
    unfolding our_comma_body_def by (rule goes_bind) (use ty skip in auto)
qed

lemma sim_separator:
  assumes "agree (next (i + 1)) (onext (i + 1))"
  shows "agree (separator_body next i) (our_separator_body onext i)"
  unfolding agree_def
proof (intro allI impI)
  fix s t s' assume s: "sim s t" "separator_body next i s = Ok (True, s')"
  obtain ok1 tk1 s1 ok2 tk2 s2 where s1: "readToken s = Ok (ok1, tk1, s1)" and s2: "skip_comments ok1 tk1 s1 = Ok (ok2, tk2, s2)"
    and fin: "ok2" "t_type tk2 = tokenArraySeparator \<or> t_type tk2 = tokenArrayEnd"
      "(if t_type tk2 = tokenArrayEnd then Ok (True, s2) else next (i + 1) s2) = Ok (True, s')"
    using s(2) by (auto simp: separator_body_def split: if_splits)
  have *: "goes (\<lambda>r. \<exists>t2. r = (True, tk2, t2) \<and> sim s2 t2) (our_skip_comments k c t1)" if "tok_rel (ok1, tk1, s1) (k, c, t1)" for k c t1
    by (rule goes_mono [OF sim_skip_comments [OF that s2]]) (use fin in \<open>auto simp: tok_rel_def\<close>)
  show "goes (\<lambda>(ok, t'). ok \<and> sim s' t') (our_separator_body onext i t)"
    unfolding our_separator_body_def
  proof (rule goes_bind [OF sim_readToken [OF s(1) s1]], clarify)
    fix k c t1 assume r: "tok_rel (ok1, tk1, s1) (k, c, t1)"
    show "goes (\<lambda>(ok, t'). ok \<and> sim s' t') (bind (our_skip_comments k c t1) (\<lambda>(ok, currentToken, s).
      if \<not> ok \<or> t_type currentToken \<noteq> tokenArraySeparator \<and> t_type currentToken \<noteq> tokenArrayEnd then
        our_addErrorAndRecover (''Missing '' @ quoted '','' @ '' or '' @ quoted '']'' @ '' in array declaration'')
          currentToken tokenArrayEnd s
      else if t_type currentToken = tokenArrayEnd then Ok (True, s)
      else onext (i + 1) s))"
      by (rule goes_bind [OF * [OF r]]) (use fin agreeD [OF assms] in \<open>auto split: if_splits\<close>)
  qed
qed

lemma sim_member:
  assumes "agree_value rv orv" "agree (comma_body next name) (our_comma_body onext name)" "length name < 2 ^ 30"
  shows "agree (member_body rv next name) (our_member_body orv onext tokenName name)"
  unfolding agree_def
proof (intro allI impI)
  fix s t s' assume s: "sim s t" "member_body rv next name s = Ok (True, s')"
  let ?child = "child_body (resolveReference name) (CZString name) tokenObjectEnd rv (comma_body next name)"
  obtain ok colon s1 where s1: "readToken s = Ok (ok, colon, s1)" using s(2) by (auto simp: member_body_def)
  have ty: "ok" "t_type colon = tokenMemberSeparator" and ch: "?child s1 = Ok (True, s')"
    using s(2) s1 by (auto simp: member_body_def split: if_splits)
  have a: "agree ?child (our_child_body (resolveReference name) (CZString name) tokenObjectEnd orv (our_comma_body onext name))"
    by (rule sim_child [OF assms(1,2) before_I_fails(1) creates_alike_member])
  have "duplicate_key name t = Ok False" using sim_features [OF s(1)] by (simp add: duplicate_key_def fsim_def)
  moreover have "goes (\<lambda>r. \<exists>t1. r = (True, colon, t1) \<and> sim s1 t1) (our_readToken t)"
    by (rule goes_mono [OF sim_readToken [OF s(1) s1]]) (use ty in \<open>auto simp: tok_rel_def\<close>)
  then have "goes (\<lambda>(ok, t'). ok \<and> sim s' t') (bind (our_readToken t) (\<lambda>(ok, colon, s).
     if \<not> ok \<or> t_type colon \<noteq> tokenMemberSeparator then
       our_addErrorAndRecover (''Missing '' @ quoted '':'' @ '' after object member name'') colon tokenObjectEnd s
     else our_child_body (resolveReference name) (CZString name) tokenObjectEnd orv (our_comma_body onext name) s))"
    by (rule goes_bind) (use ty agreeD [OF a _ ch] in auto)
  ultimately show "goes (\<lambda>(ok, t'). ok \<and> sim s' t') (our_member_body orv onext tokenName name t)"
    using assms(3) by (simp add: our_member_body_def)
qed

lemma sim_object:
  assumes "agree_value rv orv" "\<And>name. agree (next name) (onext name)"
    "\<And>name s b s'. stuck s \<Longrightarrow> in_doc s \<Longrightarrow> \<not> allowNumericKeys (features s) \<Longrightarrow> next name s = Ok (b, s') \<Longrightarrow> \<not> b"
  shows "agree (object_body rv next name) (our_object_body orv onext name)"
  unfolding agree_def
proof (intro allI impI)
  fix s t s' assume s: "sim s t" "object_body rv next name s = Ok (True, s')"
  obtain ok1 tk1 s1 ok2 tk2 s2 where s1: "readToken s = Ok (ok1, tk1, s1)" and s2: "skip_comments ok1 tk1 s1 = Ok (ok2, tk2, s2)"
    and fin: "name_body rv next name ok2 tk2 s2 = Ok (True, s')"
    using s(2) by (auto simp: object_body_def)
  have m1: "moved s s1" using readToken_moved [OF sim_current(5) [OF s(1)] s1] by blast
  have "moved s1 s2" using skip_comments_last [OF moved_in_doc [OF m1] s2] moved_refl [OF moved_in_doc [OF m1]] moved_trans
      readToken_moved moved_in_doc by blast
  then have "\<not> allowNumericKeys (features s2)" using m1 sim_features [OF s(1)] by (auto simp: moved_def fsim_def)
  then have ty: "ok2" "t_type tk2 = tokenObjectEnd \<and> name = [] \<and> s' = s2 \<or> t_type tk2 = tokenString"
    using fin by (auto simp: name_body_def split: if_splits)
  have *: "goes (\<lambda>r. \<exists>t2. r = (True, tk2, t2) \<and> sim s2 t2) (our_skip_comments k c t1)" if "tok_rel (ok1, tk1, s1) (k, c, t1)" for k c t1
    by (rule goes_mono [OF sim_skip_comments [OF that s2]]) (use ty in \<open>auto simp: tok_rel_def\<close>)
  have last: "goes (\<lambda>(ok, t'). ok \<and> sim s' t') (our_name_body orv onext name True tk2 t2)" if t2: "sim s2 t2" for t2
  proof (cases "t_type tk2 = tokenString")
    case True
    then obtain x where x: "decode_chars (string_body tk2 s2) [] = Inr x" "member_body rv next x s2 = Ok (True, s')"
      using fin ty by (auto simp: name_body_def decodeString_value_def split: sum.splits)
    have "length x < 2 ^ 30" using decode_chars_length [OF x(1)] slice_length [of "t_start tk2 + 1" "t_end tk2 - 1" "doc s2"] t2
      by (simp add: string_body_def sim_def)
    moreover have "agree (comma_body next x) (our_comma_body onext x)" by (rule sim_comma [of "next" x onext, OF assms(2)]) (rule assms(3))
    ultimately have "agree (member_body rv next x) (our_member_body orv onext tk2 x)" using sim_member [OF assms(1)] by blast
    from agreeD [OF this t2 x(2)] show ?thesis using True x(1) sim_current(9) [OF t2, of tk2]
      unfolding our_name_body_def decodeString_value_def by simp
  next
    case False
    with ty have "t_type tk2 = tokenObjectEnd" "name = []" "s' = s2" by auto
    with t2 show ?thesis by (simp add: our_name_body_def)
  qed
  show "goes (\<lambda>(ok, t'). ok \<and> sim s' t') (our_object_body orv onext name t)"
    unfolding our_object_body_def
  proof (rule goes_bind [OF sim_readToken [OF s(1) s1]], clarify)
    fix k c t1 assume r: "tok_rel (ok1, tk1, s1) (k, c, t1)"
    show "goes (\<lambda>(ok, t'). ok \<and> sim s' t') (bind (our_skip_comments k c t1) (\<lambda>(ok, tokenName, s). our_name_body orv onext name ok tokenName s))"
      by (rule goes_bind [OF * [OF r]]) (use last in auto)
  qed
qed

text \<open>\<open>closing s\<close>: the next character that is not white space is a closing bracket. \<open>OurReader\<close> looks for it before every element.\<close>

definition closing :: "('f, 'a) scanner \<Rightarrow> bool" where
  "closing s \<longleftrightarrow> current (skipSpaces s) \<noteq> end_pos (skipSpaces s) \<and> doc (skipSpaces s) ! current (skipSpaces s) = CHR '']''"

lemma closing_token:
  assumes "closing s"
  shows "\<exists>tk s1. readToken s = Ok (True, tk, s1) \<and> t_type tk = tokenArrayEnd \<and> features s1 = features s"
  using assms by (auto simp: closing_def readToken_def getNextChar_def Let_def tok_def skipSpaces_def end_pos_def)

lemma closing_fails:
  assumes "closing s" "\<not> allowDroppedNullPlaceholders (features s)"
  shows "value_body ro ra s = Ok (b, s') \<Longrightarrow> \<not> b" "readValue n s = Ok (b, s') \<Longrightarrow> \<not> b"
proof -
  obtain tk s1 where s1: "readToken s = Ok (True, tk, s1)" "t_type tk = tokenArrayEnd" "features s1 = features s"
    using closing_token [OF assms(1)] by blast
  then have sk: "skipCommentTokens s = Ok (tk, s1)" by (simp add: skipCommentTokens_def skip_comments_other)
  show body: "\<not> b" if b: "value_body ro ra s = Ok (b, s')" for ro ra
  proof -
    obtain s2 r s3 where s2: "take_comments s1 = Ok s2" "value_switch ro ra tk s2 = Ok (r, s3)" "b \<longrightarrow> r \<noteq> None"
      using b sk by (auto simp: value_body_def split: if_splits option.splits)
    have "features s2 = features s" using take_comments_same [OF s2(1)] s1(3) by simp
    with s2(2,3) s1(2) assms(2) show ?thesis by (auto simp: value_switch_def value_expected_def)
  qed
  show "readValue n s = Ok (b, s') \<Longrightarrow> \<not> b" using body by (cases n) (simp_all del: readObject.simps readArray.simps)
qed

lemma sim_array:
  assumes "agree_value (readValue n) orv" "agree (next (i + 1)) (onext (i + 1))"
    "sim s t" "array_body (readValue n) next i s = Ok (True, s')" "\<not> (i = 0 \<and> closing s)"
  shows "goes (\<lambda>(ok, t'). ok \<and> sim s' t') (our_array_body orv onext i t)"
proof -
  let ?child = "child_body (index_ref_int i) (CZIndex (word_of_int i)) tokenArrayEnd (readValue n) (separator_body next i)"
  have sim: "sim (skipSpaces s) (skipSpaces t)" by (rule sim_skipSpaces [OF assms(3)])
  have r: "?child (skipSpaces s) = Ok (True, s')" using assms(4) child_body_skipSpaces [of "index_ref_int i" _ _ n] by (simp add: array_body_def)
  have a: "agree ?child (our_child_body (index_ref_int i) (CZIndex (word_of_int i)) tokenArrayEnd orv (our_separator_body onext i))"
    by (rule sim_child [OF assms(1) sim_separator [of "next" i onext, OF assms(2)] before_I_fails(2) creates_alike_element])
  have cl: "closing t = closing s" using sim by (auto simp: closing_def sim_current)
  have "\<not> (closing s \<and> \<not> allowDroppedNullPlaceholders (features s))"
  proof
    assume c: "closing s \<and> \<not> allowDroppedNullPlaceholders (features s)"
    from assms(4) obtain s1 s2 b where s1: "upd_outcome (currentPath s) (index_ref_int i) s = Ok s1"
        "readValue n (push (currentPath s1 @ [CZIndex (word_of_int i)]) s1) = Ok (b, s2)" "b"
      by (auto simp: array_body_def child_body_def split: if_splits)
    have "closing (push (currentPath s1 @ [CZIndex (word_of_int i)]) s1)" "features s1 = features s"
      using c s1(1) by (auto simp: closing_def push_def skipSpaces_def end_pos_def upd_outcome_def split: option.splits)
    with closing_fails(2) [OF _ _ s1(2)] c s1(3) show False by (simp add: push_def)
  qed
  moreover have "features (skipSpaces t) = features t" "allowDroppedNullPlaceholders (features t) = allowDroppedNullPlaceholders (features s)"
    using sim_features [OF assms(3)] by (simp_all add: skipSpaces_def fsim_def)
  ultimately have "our_array_body orv onext i t =
      our_child_body (index_ref_int i) (CZIndex (word_of_int i)) tokenArrayEnd orv (our_separator_body onext i) (skipSpaces t)"
    using assms(5) cl by (auto simp: our_array_body_def Let_def closing_def)
  then show ?thesis using agreeD [OF a sim r] by simp
qed

section \<open>The parsers\<close>

lemma closing_start: "closing s \<Longrightarrow> closing t \<Longrightarrow> sim s t \<Longrightarrow> readToken s = Ok (ok, tk, s') \<Longrightarrow>
    goes (\<lambda>(ok, tk', t'). sim s' t') (our_readToken t)"
  by (rule goes_mono [OF sim_readToken]) (use closing_token [of s] in \<open>auto simp: tok_rel_def\<close>)

lemma sim_readArray:
  assumes loop: "\<And>s t s'. sim s t \<Longrightarrow> readArray_loop n 0 s = Ok (True, s') \<Longrightarrow> \<not> closing s \<Longrightarrow>
      goes (\<lambda>(ok, t'). ok \<and> sim s' t') (our_readArray_loop m 0 t)"
  shows "agree (readArray n tk) (our_readArray m tk)"
  unfolding agree_def
proof (intro allI impI)
  fix s t s' assume s: "sim s t" "readArray n tk s = Ok (True, s')"
  let ?s = "start_container (PArray []) tk s" and ?t = "start_container (PArray []) tk t"
  have sim: "sim ?s ?t" by (rule sim_store(3) [OF s(1)]) (simp_all add: wf_map_def psim_simps)
  show "goes (\<lambda>(ok, t'). ok \<and> sim s' t') (our_readArray m tk t)"
  proof (cases "closing ?s")
    case True
    then have cl: "closing ?t" using sim_skipSpaces [OF sim] by (simp add: closing_def sim_current)
    obtain ok e where e: "readToken (skipSpaces ?s) = Ok (ok, e, s')"
      using s(2) True by (auto simp: closing_def Let_def split: if_splits)
    have "closing (skipSpaces ?s)" "closing (skipSpaces ?t)" using True cl by (simp_all add: closing_def skipSpaces_idem)
    from closing_start [OF this sim_skipSpaces [OF sim] e] show ?thesis
    proof (cases m)
      case (Suc k)
      show ?thesis
        using \<open>goes (\<lambda>(ok, tk', t'). sim s' t') (our_readToken (skipSpaces ?t))\<close> cl
        by (auto simp: Suc our_array_body_def Let_def closing_def intro!: goes_bind [where P = "\<lambda>(ok, tk', t'). sim s' t'"])
    qed simp
  next
    case False
    have "readArray_loop n 0 (skipSpaces ?s) = Ok (True, s')" using s(2) False by (auto simp: closing_def Let_def split: if_splits)
    then have "readArray_loop n 0 ?s = Ok (True, s')"
      by (simp only: readArray_loop_skipSpaces)
    from loop [OF sim this False] show ?thesis by simp
  qed
qed

lemma stuck_readObject_loop:
  "stuck s \<Longrightarrow> in_doc s \<Longrightarrow> \<not> allowNumericKeys (features s) \<Longrightarrow> readObject_loop n name s = Ok (b, s') \<Longrightarrow> \<not> b"
  using stuck_object_fails [of s "readValue (n - 1)" "readObject_loop (n - 1)" name b s'] by (cases n) simp_all

lemma sim_readers:
  "agree_value (readValue n) (our_readValue m)"
  "agree (readObject_loop n name) (our_readObject_loop m name)"
  "sim s t \<Longrightarrow> readArray_loop n i s = Ok (True, s') \<Longrightarrow> 0 \<le> i \<Longrightarrow> \<not> (i = 0 \<and> closing s) \<Longrightarrow>
    goes (\<lambda>(ok, t'). ok \<and> sim s' t') (our_readArray_loop m i t)"
proof (induction n arbitrary: m name s t i s')
  case 0
  {
    case 1
    then show ?case by (simp add: agree_value_def)
  next
    case 2
    then show ?case by (simp add: agree_def)
  next
    case 3
    then show ?case by simp
  }
next
  case (Suc n)
  {
    case 1
    show ?case
    proof (cases m)
      case (Suc k)
      have "agree (\<lambda>s. readObject n tk s) (\<lambda>s. our_readObject k tk s)" for tk
        using Suc.IH(2) [of "[]" k] sim_store(3) [of _ _ "PObject []" tk]
        by (auto simp: agree_def wf_map_def psim_simps)
      moreover have "agree (\<lambda>s. readArray n tk s) (\<lambda>s. our_readArray k tk s)" for tk
        using sim_readArray [of n k tk] Suc.IH(3) [of _ _ 0 _ k] by (simp del: readArray.simps our_readArray.simps)
      ultimately show ?thesis
        using sim_value_body [of "\<lambda>tk s. readObject n tk s" "\<lambda>tk s. our_readObject k tk s" "\<lambda>tk s. readArray n tk s" "\<lambda>tk s. our_readArray k tk s"]
        by (simp add: Suc del: readObject.simps our_readObject.simps readArray.simps our_readArray.simps)
    qed (simp add: agree_value_def)
  next
    case 2
    show ?case
    proof (cases m)
      case (Suc k)
      show ?thesis using sim_object [OF Suc.IH(1) Suc.IH(2) stuck_readObject_loop] by (simp add: Suc)
    qed (simp add: agree_def)
  next
    case 3
    show ?case
    proof (cases m)
      case (Suc k)
      have "agree (readArray_loop n (i + 1)) (our_readArray_loop k (i + 1))"
        unfolding agree_def using Suc.IH(3) [of _ _ "i + 1" _ k] 3(3) by auto
      then show ?thesis using sim_array [OF Suc.IH(1)] 3 by (simp add: Suc)
    qed simp
  }
qed

text \<open>\<open>Reader\<close> rejects a byte order mark, so \<open>OurReader\<close> does not skip one in a document that \<open>Reader\<close> accepts.\<close>

lemma error_token_fails:
  assumes "readToken s = Ok (ok, tk, s1)" "t_type tk = tokenError" "readValue n s = Ok (b, s')"
  shows "\<not> b"
proof -
  have "skipCommentTokens s = Ok (tk, s1)" using assms(1,2) by (simp add: skipCommentTokens_def skip_comments_other)
  with assms(2,3) show ?thesis
    by (cases n) (auto simp: value_body_def value_switch_def value_expected_def split: if_splits option.splits
      simp del: readObject.simps readArray.simps)
qed

lemma bom_fails:
  assumes "current s = 0" "take 3 (doc s) = byte_order_mark" "readValue n s = Ok (b, s')"
  shows "\<not> b"
proof -
  obtain xs where d: "doc s = CHR 0xEF # xs" using assms(2) by (cases "doc s") (auto simp: byte_order_mark_def)
  then have "skipSpaces s = s" using assms(1) current_self [of s] by (simp add: skipSpaces_def skip_from_def is_space_def)
  then have "readToken s = tok tokenError 0 False (s\<lparr>current := 1\<rparr>)"
    using assms(1) d by (simp add: readToken_def getNextChar_def end_pos_def Let_def is_digit_def less_eq_char_def)
  then show ?thesis using error_token_fails [OF _ _ assms(3)] by (auto simp: tok_def)
qed

lemma comment_after:
  assumes "(if c then upd_outcome [] (setComment x commentAfter) s else Ok s) = Ok s'"
  shows "type_of (root s') = type_of (root s)" "sim (s\<lparr>current := n\<rparr>) t \<Longrightarrow> sim (s'\<lparr>current := n\<rparr>) t" "errors s' = errors s"
proof -
  show "type_of (root s') = type_of (root s)" "errors s' = errors s"
    using assms by (auto simp: upd_outcome_def lift_def setComment_def Let_def type_of_def split: if_splits sum.splits)
  have "upd_outcome [] (setComment x commentAfter) (s\<lparr>current := n\<rparr>) = Ok (s'\<lparr>current := n\<rparr>)" if c
    using assms that by (auto simp: upd_outcome_def lift_def split: sum.splits)
  then show "sim (s'\<lparr>current := n\<rparr>) t" if "sim (s\<lparr>current := n\<rparr>) t" using that assms sim_comment_left by (cases c) auto
qed

lemma goes_our_parse:
  assumes "length d < 2 ^ 30" "wf_value v" "wf_value u" "vsim v u" "fsim (features r) (features s)"
    "parse d v collect r = Ok (True, r')" "isArray (root r') \<or> isObject (root r')"
  shows "goes (\<lambda>(ok, s'). ok \<and> vsim (root r') (root s') \<and> errors s' = errors r') (our_parse d u collect' s)"
proof -
  let ?r = "init_parse d v collect r" and ?s = "our_init_parse d u collect' s"
  obtain r1 tk r2 where r1: "readValue (parse_fuel d) ?r = Ok (True, r1)" and r2: "skipCommentTokens r1 = Ok (tk, r2)"
    and r3: "(if collectComments r2 \<and> commentsBefore r2 \<noteq> [] then upd_outcome [] (setComment (commentsBefore r2) commentAfter) r2 else Ok r2) = Ok r'"
    using assms(6) by (auto simp: parse_def parse_loop_def split: if_splits)
  have bom: "skipBom (skip_bom (features s)) ?s = ?s"
    using bom_fails [OF _ _ r1] by (auto simp: skipBom_def our_init_parse_def init_parse_def)
  have start: "sim ?r ?s" using assms(1-5) by (simp add: sim_def init_parse_def our_init_parse_def in_doc_def end_pos_def)
  have "framed ?r r1" using init_reads [of d v collect r] r1 assms(1) by simp
  then have "in_doc r1" by (simp add: framed_def poised_def)
  then have "moved r1 r2" using skipCommentTokens_last [OF _ r2] readToken_moved moved_trans moved_in_doc by blast
  then have "type_of (root r2) = type_of (root r1)" by (auto simp: moved_def tree_def fun_eq_iff dest: spec [of _ "[]"])
  then have "\<not> blocked ?r r1" using assms(7) comment_after(1) [OF r3] by (auto simp: blocked_def init_parse_def isArray_def isObject_def)
  then have "goes (\<lambda>(ok, t1). ok \<and> sim r1 t1) (our_readValue m ?s)" for m
    using sim_readers(1) [of "parse_fuel d" m] r1 start by (auto simp: agree_value_def)
  then have read: "goes (\<lambda>r. \<exists>t1. r = (True, t1) \<and> sim r1 t1) (our_readValue m ?s)" for m by (rule goes_mono) auto
  have skip: "goes (\<lambda>(tk', t2). \<exists>n. sim (r2\<lparr>current := n\<rparr>) t2) (our_skipCommentTokens t1)" if "sim r1 t1" for t1
    by (rule goes_mono [OF sim_skipCommentTokens [OF that r2]]) (auto simp: tok_rel_def intro: exI [of _ "current r2"] simp: current_self)
  have comment: "goes (\<lambda>t3. sim (r'\<lparr>current := n\<rparr>) t3)
      (if collectComments t2 \<and> commentsBefore t2 \<noteq> [] then upd_outcome [] (setComment (commentsBefore t2) commentAfter) t2 else Ok t2)"
    if "sim (r2\<lparr>current := n\<rparr>) t2" for n t2
    using comment_after(2) [OF r3 that] goes_comment_right by auto
  have last: "\<not> (\<not> isArray (root t3) \<and> \<not> isObject (root t3)) \<and> vsim (root r') (root t3) \<and> errors t3 = errors r'"
    if "sim (r'\<lparr>current := n\<rparr>) t3" for n t3
  proof -
    have "vsim (root r') (root t3)" "errors t3 = errors r'" using that by (simp_all add: sim_def)
    then show ?thesis using assms(7) vsim_container(1,2) by (simp add: isArray_def isObject_def)
  qed
  show ?thesis unfolding our_parse_def our_parse_loop_def bom
  proof (rule goes_bind [OF read], clarify)
    fix t1 assume "sim r1 t1"
    from skip [OF this] show "goes (\<lambda>(ok, s'). ok \<and> vsim (root r') (root s') \<and> errors s' = errors r')
      (bind (our_skipCommentTokens t1) (\<lambda>(token, s).
        if failIfExtra (features s) \<and> t_type token \<noteq> tokenEndOfStream then
          Ok (False, addError ''Extra non-whitespace after JSON value.'' token None s)
        else bind (if collectComments s \<and> commentsBefore s \<noteq> []
          then upd_outcome [] (setComment (commentsBefore s) commentAfter) s else Ok s) (\<lambda>s.
        if strictRoot (features s) \<and> \<not> isArray (root s) \<and> \<not> isObject (root s) then
          Ok (False, addError ''A valid JSON document must be either an array or an object value.''
            \<lparr>t_type = tokenError, t_start = 0, t_end = length d\<rparr> None s)
        else Ok (True, s))))"
    proof (rule goes_bind, clarify)
      fix token t2 n assume t2: "sim (r2\<lparr>current := n\<rparr>) t2"
      have "\<not> failIfExtra (features t2)" using sim_features [OF t2] by (simp add: fsim_def)
      moreover have "goes (\<lambda>(ok, s'). ok \<and> vsim (root r') (root s') \<and> errors s' = errors r')
        (bind (if collectComments t2 \<and> commentsBefore t2 \<noteq> []
          then upd_outcome [] (setComment (commentsBefore t2) commentAfter) t2 else Ok t2) (\<lambda>s.
        if strictRoot (features s) \<and> \<not> isArray (root s) \<and> \<not> isObject (root s) then
          Ok (False, addError ''A valid JSON document must be either an array or an object value.''
            \<lparr>t_type = tokenError, t_start = 0, t_end = length d\<rparr> None s)
        else Ok (True, s)))"
        by (rule goes_bind [OF comment [OF t2]]) (use last in auto)
      ultimately show "goes (\<lambda>(ok, s'). ok \<and> vsim (root r') (root s') \<and> errors s' = errors r')
       (if failIfExtra (features t2) \<and> t_type token \<noteq> tokenEndOfStream then
          Ok (False, addError ''Extra non-whitespace after JSON value.'' token None t2)
        else bind (if collectComments t2 \<and> commentsBefore t2 \<noteq> []
          then upd_outcome [] (setComment (commentsBefore t2) commentAfter) t2 else Ok t2) (\<lambda>s.
        if strictRoot (features s) \<and> \<not> isArray (root s) \<and> \<not> isObject (root s) then
          Ok (False, addError ''A valid JSON document must be either an array or an object value.''
            \<lparr>t_type = tokenError, t_start = 0, t_end = length d\<rparr> None s)
        else Ok (True, s)))" by simp
    qed
  qed
qed

text \<open>
  C4. Every document that \<open>Reader\<close> accepts as an array or an object, \<open>OurReader\<close> accepts as well, with the same value and the same errors,
  when its options are those of \<open>Reader\<close> or allow trailing commas in addition: the two values differ in their comments, and in that
  integers from \<open>2^31\<close> to \<open>2^63 - 1\<close>, which \<open>Reader\<close> types as unsigned, are signed (\<open>vsim\<close>).
\<close>

theorem our_reader_accepts_the_same:
  assumes "length d < 2 ^ 30" "wf_value v" "wf_value u" "vsim v u" "fsim (features r) (features s)"
    "parse d v collect r = Ok (True, r')" "isArray (root r') \<or> isObject (root r')"
  shows "\<exists>s'. our_parse d u collect' s = Ok (True, s') \<and> vsim (root r') (root s') \<and> errors s' = errors r'"
  using goes_our_parse [OF assms, of collect'] safe_our_parse [of d s u collect'] assms(1)
  by (auto simp: safe_def split: res.splits)

theorem our_reader_accepts_the_same_witness:
  "\<exists>s'. our_parse ''[7]'' nullSingleton True (new_our_reader (OurFeatures_all\<lparr>allowComments := True, stackLimit := 1000\<rparr>)) = Ok (True, s') \<and>
    isArray (root s')"
proof -
  have "case parse ''[7]'' nullSingleton False (new_reader Features_all) of Ok (ok, r') \<Rightarrow> ok \<and> isArray (root r') | _ \<Rightarrow> False"
    by code_simp
  then obtain r' where r: "parse ''[7]'' nullSingleton False (new_reader Features_all) = Ok (True, r')" "isArray (root r')"
    by (auto split: res.splits)
  have "\<exists>s'. our_parse ''[7]'' nullSingleton True (new_our_reader (OurFeatures_all\<lparr>allowComments := True, stackLimit := 1000\<rparr>)) = Ok (True, s') \<and>
      vsim (root r') (root s') \<and> errors s' = errors r'"
    by (rule our_reader_accepts_the_same [OF _ _ _ _ _ r(1)])
      (use r(2) in \<open>simp_all add: fsim_def new_reader_def new_our_reader_def Features_all_def OurFeatures_all_def stackLimit_g_def
        vsim_Value nullSingleton_def Value_of_type_def initBasic_def psim_simps\<close>)
  then show ?thesis using r(2) vsim_container(1) by (auto simp: isArray_def)
qed

end
