(* ===== verification/Json_Char_Reader.thy ===== *)
theory Json_Char_Reader
  imports Json_Styled Our_Reader
begin

text \<open>
  \<open>CharReaderBuilder\<close>, the readers it builds, \<open>parseFromStream\<close> and \<open>operator>>\<close> (\<open>src/components/jsoncpp/json_reader.cpp\<close>,
  end). The settings are a \<open>Json::Value\<close>, as in the source; a stream is the text that is left in it.
\<close>

section \<open>\<open>OurCharReader\<close>\<close>

record OurCharReader =
  cr_collectComments :: bool
  cr_reader :: OurReader

text \<open>The result of \<open>parse\<close>, the value, the error messages (\<open>None\<close> for a null pointer \<open>errs\<close>) and the reader.\<close>

type_synonym char_parse = "bool \<times> Value \<times> string option \<times> OurCharReader"

definition OurCharReader_parse :: "string \<Rightarrow> Value \<Rightarrow> string option \<Rightarrow> OurCharReader \<Rightarrow> char_parse res" where
  "OurCharReader_parse d v errs r =
    bind (our_parse d v (cr_collectComments r) (cr_reader r)) (\<lambda>(ok, s).
      Ok (ok, root s, (case errs of None \<Rightarrow> None | Some _ \<Rightarrow> Some (getFormattedErrorMessages s)), r\<lparr>cr_reader := s\<rparr>))"

section \<open>\<open>CharReaderBuilder\<close>\<close>

definition newCharReader :: "Value \<Rightarrow> OurCharReader res" where
  "newCharReader settings =
    bind (setting_bool settings ''collectComments'') (\<lambda>collect.
    bind (setting_bool settings ''allowComments'') (\<lambda>comments.
    bind (setting_bool settings ''allowTrailingCommas'') (\<lambda>commas.
    bind (setting_bool settings ''strictRoot'') (\<lambda>strict.
    bind (setting_bool settings ''allowDroppedNullPlaceholders'') (\<lambda>dropped.
    bind (setting_bool settings ''allowNumericKeys'') (\<lambda>numeric.
    bind (setting_bool settings ''allowSingleQuotes'') (\<lambda>quotes.
    bind (setting_uint settings ''stackLimit'') (\<lambda>limit.
    bind (setting_bool settings ''failIfExtra'') (\<lambda>extra.
    bind (setting_bool settings ''rejectDupKeys'') (\<lambda>dup.
    bind (setting_bool settings ''allowSpecialFloats'') (\<lambda>floats.
    bind (setting_bool settings ''skipBom'') (\<lambda>bom.
    Ok \<lparr>cr_collectComments = collect, cr_reader = new_our_reader (OurFeatures_all
      \<lparr>allowComments := comments, allowTrailingCommas := commas, strictRoot := strict, allowDroppedNullPlaceholders := dropped,
       allowNumericKeys := numeric, allowSingleQuotes := quotes, stackLimit := nat limit, failIfExtra := extra,
       rejectDupKeys := dup, allowSpecialFloats := floats, skip_bom := bom\<rparr>)\<rparr>))))))))))))"

definition reader_keys :: "string list" where
  "reader_keys = [''collectComments'', ''allowComments'', ''allowTrailingCommas'', ''strictRoot'',
     ''allowDroppedNullPlaceholders'', ''allowNumericKeys'', ''allowSingleQuotes'', ''stackLimit'', ''failIfExtra'',
     ''rejectDupKeys'', ''allowSpecialFloats'', ''skipBom'']"

definition reader_validate :: "Value \<Rightarrow> Value option \<Rightarrow> (bool \<times> Value option) res" where
  "reader_validate settings invalid = validate_loop reader_keys (map_of_value settings) invalid"

definition reader_strictMode :: "Value \<Rightarrow> Value res" where
  "reader_strictMode settings = put_all
     [(''allowComments'', Value_of_bool False), (''allowTrailingCommas'', Value_of_bool False), (''strictRoot'', Value_of_bool True),
      (''allowDroppedNullPlaceholders'', Value_of_bool False), (''allowNumericKeys'', Value_of_bool False),
      (''allowSingleQuotes'', Value_of_bool False), (''stackLimit'', Value_of_Int 1000), (''failIfExtra'', Value_of_bool True),
      (''rejectDupKeys'', Value_of_bool True), (''allowSpecialFloats'', Value_of_bool False), (''skipBom'', Value_of_bool True)] settings"

definition reader_setDefaults :: "Value \<Rightarrow> Value res" where
  "reader_setDefaults settings = put_all
     [(''collectComments'', Value_of_bool True), (''allowComments'', Value_of_bool True), (''allowTrailingCommas'', Value_of_bool True),
      (''strictRoot'', Value_of_bool False), (''allowDroppedNullPlaceholders'', Value_of_bool False),
      (''allowNumericKeys'', Value_of_bool False), (''allowSingleQuotes'', Value_of_bool False), (''stackLimit'', Value_of_Int 1000),
      (''failIfExtra'', Value_of_bool False), (''rejectDupKeys'', Value_of_bool False), (''allowSpecialFloats'', Value_of_bool False),
      (''skipBom'', Value_of_bool True)] settings"

definition new_CharReaderBuilder :: "Value res" where
  "new_CharReaderBuilder = reader_setDefaults nullSingleton"

section \<open>Streams\<close>

definition parseFromStream :: "Value \<Rightarrow> string \<Rightarrow> Value \<Rightarrow> string option \<Rightarrow> char_parse res" where
  "parseFromStream settings is v errs = bind (newCharReader settings) (\<lambda>reader. OurCharReader_parse is v errs reader)"

definition fromStream :: "string \<Rightarrow> Value \<Rightarrow> Value res" where
  "fromStream is v =
    bind new_CharReaderBuilder (\<lambda>b.
    bind (parseFromStream b is v (Some [])) (\<lambda>(ok, v, errs, _).
    if \<not> ok then Abort (RuntimeError (case errs of None \<Rightarrow> [] | Some m \<Rightarrow> m)) else Ok v))"

end
