(* ===== verification/Json_Streams.thy ===== *)
theory Json_Streams
  imports Our_Reader_Agrees Json_Char_Reader Json_Styled_Layout
begin

text \<open>
  \<open>operator<<\<close> and \<open>operator>>\<close> of the JSON library composed: the default settings of \<open>CharReaderBuilder\<close> are the options under which
  \<open>OurReader\<close> accepts what \<open>Reader\<close> accepts (theory \<open>Our_Reader_Agrees\<close>), and \<open>Reader\<close> reads back what the styled writers write
  (theory \<open>Json_Styled_Layout\<close>), so a value written to a stream is read back from it.
\<close>

section \<open>The default reader\<close>

definition default_features :: OurFeatures where
  "default_features = OurFeatures_all\<lparr>allowComments := True, allowTrailingCommas := True, stackLimit := 1000, skip_bom := True\<rparr>"

definition default_reader :: OurCharReader where
  "default_reader = \<lparr>cr_collectComments = True, cr_reader = new_our_reader default_features\<rparr>"

lemma setting_values: "asBool (Value_of_bool b) = Inr b" "asUInt (Value_of_Int 1000) = Inr 1000"
  by (simp_all add: asBool_def asUInt_def initBasic_def Value_of_bool_def Value_of_Int_def isUInt_def json_assert_def int_limits)

lemma default_builder: "\<exists>b. new_CharReaderBuilder = Ok b \<and> newCharReader b = Ok default_reader"
proof -
  define kvs where "kvs = [(''collectComments'', Value_of_bool True), (''allowComments'', Value_of_bool True),
      (''allowTrailingCommas'', Value_of_bool True),
      (''strictRoot'', Value_of_bool False), (''allowDroppedNullPlaceholders'', Value_of_bool False),
      (''allowNumericKeys'', Value_of_bool False), (''allowSingleQuotes'', Value_of_bool False), (''stackLimit'', Value_of_Int 1000),
      (''failIfExtra'', Value_of_bool False), (''rejectDupKeys'', Value_of_bool False), (''allowSpecialFloats'', Value_of_bool False),
      (''skipBom'', Value_of_bool True)]"
  have "\<forall>(k, x) \<in> set kvs. length k < 2 ^ 30 \<and> wf_value x"
    by (simp add: kvs_def initBasic_def Value_of_bool_def Value_of_Int_def wf_iff)
  then obtain b where b: "put_all kvs nullSingleton = Ok b" "\<forall>k. length k < 2 ^ 30 \<longrightarrow>
      member_get k b = (case map_of (rev kvs) k of Some x \<Rightarrow> Inr x | None \<Rightarrow> member_get k nullSingleton)"
    using put_all_get [of nullSingleton kvs] by (auto simp: nullSingleton_def Value_of_type_def initBasic_def wf_iff type_of_def)
  have k: "member_get ''collectComments'' b = Inr (Value_of_bool True)" "member_get ''allowComments'' b = Inr (Value_of_bool True)"
    "member_get ''allowTrailingCommas'' b = Inr (Value_of_bool True)" "member_get ''strictRoot'' b = Inr (Value_of_bool False)"
    "member_get ''allowDroppedNullPlaceholders'' b = Inr (Value_of_bool False)" "member_get ''allowNumericKeys'' b = Inr (Value_of_bool False)"
    "member_get ''allowSingleQuotes'' b = Inr (Value_of_bool False)" "member_get ''stackLimit'' b = Inr (Value_of_Int 1000)"
    "member_get ''failIfExtra'' b = Inr (Value_of_bool False)" "member_get ''rejectDupKeys'' b = Inr (Value_of_bool False)"
    "member_get ''allowSpecialFloats'' b = Inr (Value_of_bool False)" "member_get ''skipBom'' b = Inr (Value_of_bool True)"
    using b(2) by (simp_all add: kvs_def)
  have "newCharReader b = Ok default_reader"
    by (simp add: newCharReader_def setting_bool_def setting_uint_def k setting_values lift_def default_reader_def default_features_def
      OurFeatures_all_def)
  moreover have "new_CharReaderBuilder = Ok b" using b(1) by (simp add: new_CharReaderBuilder_def reader_setDefaults_def kvs_def)
  ultimately show ?thesis by blast
qed

lemma fromStream_accepts:
  assumes "length d < 2 ^ 30" "parse d nullSingleton collect (new_reader Features_all) = Ok (True, r')" "isArray (root r') \<or> isObject (root r')"
  shows "\<exists>w. fromStream d nullSingleton = Ok w \<and> vsim (root r') w"
proof -
  obtain b where b: "new_CharReaderBuilder = Ok b" "newCharReader b = Ok default_reader" using default_builder by blast
  have null: "vsim nullSingleton nullSingleton" by (simp add: vsim_Value nullSingleton_def Value_of_type_def initBasic_def psim_simps)
  have "fsim Features_all default_features" by (simp add: fsim_def Features_all_def default_features_def OurFeatures_all_def stackLimit_g_def)
  then have "goes (\<lambda>(ok, s'). ok \<and> vsim (root r') (root s') \<and> errors s' = errors r') (our_parse d nullSingleton True (new_our_reader default_features))"
    using assms null by (intro goes_our_parse [where r = "new_reader Features_all" and v = nullSingleton]) (simp_all add: new_reader_def new_our_reader_def)
  then obtain s' where s: "our_parse d nullSingleton True (new_our_reader default_features) = Ok (True, s')" "vsim (root r') (root s')"
    using safe_our_parse [of d "new_our_reader default_features" nullSingleton True] assms(1) by (auto simp: safe_def split: res.splits)
  moreover have "fromStream d nullSingleton = Ok (root s')"
    by (simp add: fromStream_def parseFromStream_def OurCharReader_parse_def b default_reader_def s(1) del: bind_Ok)
  ultimately show ?thesis by blast
qed

section \<open>Equality up to comments and the type of integers\<close>

lemma value_equal_retype:
  "value_equal a b \<Longrightarrow> value_equal (tidy retype a) (tidy retype b)"
  "payload_equal p q \<Longrightarrow> payload_type p = payload_type q \<Longrightarrow> payload_equal (tidy_payload retype p) (tidy_payload retype q) \<and>
     payload_type (tidy_payload retype p) = payload_type (tidy_payload retype q)"
  "map_equal m n \<Longrightarrow> map_equal (tidy_all retype m) (tidy_all retype n) \<and> length (tidy_all retype m) = length m \<and>
     length (tidy_all retype n) = length n"
proof (induction a b and p q and m n rule: value_equal_payload_equal_map_equal.induct)
  case (2 p q)
  then show ?case by (cases p; cases q) (auto simp: retype_def)
qed (auto split: if_splits)

lemma value_equal_tidy_left:
  "value_equal (tidy id a) b \<Longrightarrow> value_equal a b"
  "payload_equal (tidy_payload id p) q \<Longrightarrow> payload_equal p q"
  "map_equal (tidy_all id m) n \<Longrightarrow> map_equal m n"
proof (induction a b and p q and m n rule: value_equal_payload_equal_map_equal.induct)
  case (1 p c x y q d x' y')
  have "payload_type (tidy_payload id p) = payload_type p" by (cases p) simp_all
  with 1 show ?case unfolding id_def by (auto split: if_splits simp del: payload_equal.simps)
next
  case (2 p q)
  have len: "length (tidy_all f m) = length m" for f m by (simp add: tidy_all_map)
  show ?case
  proof (cases p)
    case (PArray m)
    then obtain n where q: "q = PArray n" using 2(3) by (cases q) simp_all
    show ?thesis using 2(1) [OF PArray q] 2(3) len by (simp add: PArray q)
  next
    case (PObject m)
    then obtain n where q: "q = PObject n" using 2(3) by (cases q) simp_all
    show ?thesis using 2(2) [OF PObject q] 2(3) len by (simp add: PObject q)
  qed (use 2(3) in \<open>simp_all del: payload_equal.simps\<close>)
qed (auto simp: tidy_all_map)

section \<open>Writing to a stream and reading from it\<close>

text \<open>
  C8. What \<open>operator<<\<close> writes for an array or object without reals and comments, with integers typed as \<open>Reader\<close> types them, UTF-8
  strings, arrays without gaps and member names without NUL, nested within the limit, \<open>operator>>\<close> reads back: the value that
  results is equal to the one written, except that integers which fit \<open>Int64\<close> are typed as signed.
\<close>

theorem stream_roundtrip:
  assumes "plain v" "bare v" "small v" "nesting v \<le> stackLimit_g" "length (BuiltStyledStreamWriter_write default_writer v) < 2 ^ 30"
    "isArray v \<or> isObject v"
  shows "\<exists>t w. toStream v = Ok t \<and> fromStream t nullSingleton = Ok w \<and> value_equal w (tidy retype v)"
proof -
  obtain b where b: "setDefaults nullSingleton = Ok b" "newStreamWriter b = Ok default_writer" using default_settings by blast
  obtain x where x: "BuiltStyledStreamWriter_write default_writer v = x" "layout v x"
    using written_layouts(3) [OF assms(1-3), of default_writer] by (auto simp: json_settings_def default_writer_def is_space_def)
  have t: "toStream v = Ok x" using b x(1) by (simp add: toStream_def writeString_def)
  obtain s where s: "parse x nullSingleton False (new_reader Features_all) = Ok (True, s)" "value_equal (root s) v"
    using parse_layout [OF x(2) assms(1,4), of "[]" "new_reader Features_all" nullSingleton] assms(5) x(1)
    by (auto simp: new_reader_def Features_all_def)
  have "type_of (root s) = type_of v" using s(2) by (cases "root s"; cases v) (auto simp: type_of_def split: if_splits)
  then obtain w where w: "fromStream x nullSingleton = Ok w" "vsim (root s) w"
    using fromStream_accepts [OF _ s(1)] assms(5,6) x(1) by (auto simp: isArray_def isObject_def)
  have "value_equal (tidy id w) (tidy retype v)" using value_equal_retype(1) [OF s(2)] w(2) by (simp add: vsim_def)
  then show ?thesis using t w(1) value_equal_tidy_left(1) by blast
qed

theorem stream_roundtrip_witness:
  "\<exists>t w. toStream demo_styled_object = Ok t \<and> fromStream t nullSingleton = Ok w \<and> value_equal w (tidy retype demo_styled_object)"
  by (rule stream_roundtrip)
    (simp_all add: demo_styled_object_ok demo_default_text stackLimit_g_def, simp add: demo_styled_object_def isObject_def type_of_def initBasic_def)

end
