(* ===== verification/Json_Path.thy ===== *)
theory Json_Path
  imports Json_Reader
begin

text \<open>
  Paths into a JSON value (\<open>class Path\<close> of \<open>src/components/jsoncpp/value.h\<close>, \<open>json_value.cpp\<close>): the text of a path is read into a list
  of arguments, which \<open>resolve\<close> follows and \<open>make\<close> creates. The theorems show for which texts the constructor returns, that it reads
  back every path in the documented syntax, and that a value stored at a path that \<open>make\<close> created is found by both variants of
  \<open>resolve\<close>.
\<close>

section \<open>Arguments\<close>

datatype Kind = kindNone | kindIndex | kindKey

record PathArgument =
  arg_key :: string
  arg_index :: u32
  arg_kind :: Kind

definition PathArgument_none :: PathArgument where
  "PathArgument_none = \<lparr>arg_key = [], arg_index = 0, arg_kind = kindNone\<rparr>"

definition PathArgument_index :: "u32 \<Rightarrow> PathArgument" where
  "PathArgument_index index = \<lparr>arg_key = [], arg_index = index, arg_kind = kindIndex\<rparr>"

definition PathArgument_cstring :: "string \<Rightarrow> PathArgument" where
  "PathArgument_cstring key = \<lparr>arg_key = cstr key, arg_index = 0, arg_kind = kindKey\<rparr>"

definition PathArgument_key :: "string \<Rightarrow> PathArgument" where
  "PathArgument_key key = \<lparr>arg_key = key, arg_index = 0, arg_kind = kindKey\<rparr>"

type_synonym InArgs = "PathArgument list"
type_synonym Args = "PathArgument list"

section \<open>Reading the text of a path\<close>

text \<open>\<open>strchr(s, c)\<close> finds the terminator when \<open>c\<close> is NUL.\<close>

definition strchr :: "string \<Rightarrow> char \<Rightarrow> bool" where
  "strchr s c \<longleftrightarrow> c \<in> set s \<or> c = NUL"

text \<open>\<open>itInArg\<close> is the rest of the arguments; a missing argument or one of the wrong kind is skipped in silence.\<close>

definition addPathInArg :: "InArgs \<Rightarrow> Kind \<Rightarrow> Args \<Rightarrow> InArgs \<times> Args" where
  "addPathInArg itInArg kind args =
    (case itInArg of
       [] \<Rightarrow> ([], args)
     | a # rest \<Rightarrow> if arg_kind a \<noteq> kind then (itInArg, args) else (rest, args @ [a]))"

fun read_index :: "u32 \<Rightarrow> string \<Rightarrow> u32 \<times> string" where
  "read_index index [] = (index, [])"
| "read_index index (c # cs) =
     (if is_digit c then read_index (index * 10 + word_of_nat (digit_val c)) cs else (index, c # cs))"

text \<open>
  The loop of \<open>makePath\<close> on the characters from \<open>current\<close> to \<open>end\<close>. Behind an index it steps over one more character, whatever it
  is, unless the text has ended: \<open>invalidPath\<close>, which it calls when the next one is not a bracket, does nothing.
\<close>

definition after_index :: "string \<Rightarrow> string" where
  "after_index cs = (case cs of [] \<Rightarrow> [] | _ # cs \<Rightarrow> cs)"

partial_function (option) makePath_loop :: "string \<Rightarrow> InArgs \<Rightarrow> Args \<Rightarrow> Args option" where
  "makePath_loop cur itInArg args =
    (case cur of
       [] \<Rightarrow> Some args
     | c # rest \<Rightarrow>
        if c = CHR ''['' then
          if rest \<noteq> [] \<and> hd rest = CHR ''%'' then
            (case addPathInArg itInArg kindIndex args of (itInArg, args) \<Rightarrow> makePath_loop (after_index rest) itInArg args)
          else
            (case read_index 0 rest of (index, rest) \<Rightarrow>
              makePath_loop (after_index rest) itInArg (args @ [PathArgument_index index]))
        else if c = CHR ''%'' then
          (case addPathInArg itInArg kindKey args of (itInArg, args) \<Rightarrow> makePath_loop rest itInArg args)
        else if c = CHR ''.'' \<or> c = CHR '']'' then makePath_loop rest itInArg args
        else
          makePath_loop (dropWhile (\<lambda>c. \<not> strchr ''[.'' c) cur) itInArg
            (args @ [PathArgument_key (takeWhile (\<lambda>c. \<not> strchr ''[.'' c) cur)]))"

definition makePath :: "string \<Rightarrow> InArgs \<Rightarrow> Args option" where
  "makePath path inArgs = makePath_loop path inArgs []"

definition new_Path :: "string \<Rightarrow> PathArgument \<Rightarrow> PathArgument \<Rightarrow> PathArgument \<Rightarrow> PathArgument \<Rightarrow> PathArgument \<Rightarrow> Args option" where
  "new_Path path a1 a2 a3 a4 a5 = makePath path [a1, a2, a3, a4, a5]"

section \<open>Following and creating a path\<close>

text \<open>
  \<open>resolve\<close> and \<open>resolve\<close> with a default differ in what they return when the path does not exist. A member that is missing is told from
  one that is null by the address of the null singleton.
\<close>

fun resolve_or :: "Value \<Rightarrow> Args \<Rightarrow> Value \<Rightarrow> Value outcome" where
  "resolve_or failed [] node = Inr node"
| "resolve_or failed (arg # args) node =
    (if arg_kind arg = kindIndex then
       if \<not> isArray node \<or> \<not> isValidIndex (arg_index arg) node then Inr failed
       else case index_const (arg_index arg) node of Inl e \<Rightarrow> Inl e | Inr node \<Rightarrow> resolve_or failed args node
     else if arg_kind arg = kindKey then
       if \<not> isObject node then Inr failed
       else case value_find (arg_key arg) node of
           Inl e \<Rightarrow> Inl e
         | Inr None \<Rightarrow> Inr failed
         | Inr (Some node) \<Rightarrow> resolve_or failed args node
     else resolve_or failed args node)"

definition resolve :: "Args \<Rightarrow> Value \<Rightarrow> Value outcome" where
  "resolve args v = resolve_or nullSingleton args v"

definition resolve_default :: "Args \<Rightarrow> Value \<Rightarrow> Value \<Rightarrow> Value outcome" where
  "resolve_default args v defaultValue = resolve_or defaultValue args v"

text \<open>\<open>make\<close> returns a reference: the keys that lead to the node, and the root in which the node exists.\<close>

fun Path_make :: "Args \<Rightarrow> Value \<Rightarrow> (path \<times> Value) outcome" where
  "Path_make [] node = Inr ([], node)"
| "Path_make (arg # args) node =
    (if arg_kind arg = kindIndex then
       case index_ref (arg_index arg) node of Inl e \<Rightarrow> Inl e | Inr node \<Rightarrow>
       let k = CZIndex (arg_index arg) in
       map_sum id (\<lambda>(p, x). (k # p, ref_put k x node)) (Path_make args (ref_get k node))
     else if arg_kind arg = kindKey then
       case resolveReference (arg_key arg) node of Inl e \<Rightarrow> Inl e | Inr node \<Rightarrow>
       let k = CZString (arg_key arg) in
       map_sum id (\<lambda>(p, x). (k # p, ref_put k x node)) (Path_make args (ref_get k node))
     else Path_make args node)"

section \<open>The loop over the text\<close>

lemma read_index_rest: "length (snd (read_index i cs)) \<le> length cs" "set (snd (read_index i cs)) \<subseteq> set cs"
  by (induction i cs rule: read_index.induct) auto

lemma after_index_rest: "length (after_index cs) \<le> length cs" "set (after_index cs) \<subseteq> set cs"
  by (auto simp: after_index_def split: list.splits)

text \<open>The turns of the loop, by the character it meets.\<close>

lemma makePath_loop_steps:
  "makePath_loop [] it ar = Some ar"
  "makePath_loop (CHR ''['' # CHR ''%'' # cs) it ar = (case addPathInArg it kindIndex ar of (it, ar) \<Rightarrow> makePath_loop cs it ar)"
  "(cs \<noteq> [] \<Longrightarrow> hd cs \<noteq> CHR ''%'') \<Longrightarrow> makePath_loop (CHR ''['' # cs) it ar =
    makePath_loop (after_index (snd (read_index 0 cs))) it (ar @ [PathArgument_index (fst (read_index 0 cs))])"
  "makePath_loop (CHR ''%'' # cs) it ar = (case addPathInArg it kindKey ar of (it, ar) \<Rightarrow> makePath_loop cs it ar)"
  "c = CHR ''.'' \<or> c = CHR '']'' \<Longrightarrow> makePath_loop (c # cs) it ar = makePath_loop cs it ar"
  "c \<notin> {CHR ''['', CHR ''%'', CHR ''.'', CHR '']''} \<Longrightarrow> makePath_loop (c # cs) it ar =
    makePath_loop (dropWhile (\<lambda>c. \<not> strchr ''[.'' c) (c # cs)) it (ar @ [PathArgument_key (takeWhile (\<lambda>c. \<not> strchr ''[.'' c) (c # cs))])"
  by (subst makePath_loop.simps, auto simp: after_index_def case_prod_unfold simp del: dropWhile.simps takeWhile.simps)+

text \<open>Without a NUL every turn of the loop consumes a character.\<close>

lemma makePath_loop_returns: "NUL \<notin> set cur \<Longrightarrow> \<exists>r. makePath_loop cur itInArg args = Some r"
proof (induction "length cur" arbitrary: cur itInArg args rule: less_induct)
  case less
  show ?case
  proof (cases cur)
    case Nil
    then show ?thesis by (simp add: makePath_loop_steps)
  next
    case (Cons c rest)
    have IH: "\<exists>r. makePath_loop cs it ar = Some r" if "length cs \<le> length rest" "set cs \<subseteq> set rest" for cs it ar
      using less.hyps [of cs it ar] that less.prems Cons by auto
    consider "c = CHR ''[''" "rest \<noteq> []" "hd rest = CHR ''%''" | "c = CHR ''[''" "rest \<noteq> [] \<Longrightarrow> hd rest \<noteq> CHR ''%''"
      | "c = CHR ''%''" | "c = CHR ''.'' \<or> c = CHR '']''" | "c \<notin> {CHR ''['', CHR ''%'', CHR ''.'', CHR '']''}"
      by blast
    then show ?thesis
    proof cases
      case 1
      then obtain cs where "rest = CHR ''%'' # cs" by (cases rest) auto
      then show ?thesis using 1 IH [of cs] by (auto simp: Cons makePath_loop_steps split: prod.split)
    next
      case 2
      have "\<exists>r. makePath_loop (after_index (snd (read_index 0 rest))) itInArg ar = Some r" for ar
        by (rule IH) (meson after_index_rest read_index_rest order_trans)+
      with 2 show ?thesis by (simp add: Cons makePath_loop_steps)
    next
      case 5
      have "\<exists>r. makePath_loop (dropWhile P rest) itInArg ar = Some r" for P ar
        by (rule IH) (auto simp: length_dropWhile_le dest: set_dropWhileD)
      moreover have "\<not> strchr ''[.'' c" using 5 less.prems by (auto simp: strchr_def Cons)
      ultimately show ?thesis using 5 by (simp add: Cons makePath_loop_steps)
    qed (auto simp: Cons makePath_loop_steps intro!: IH split: prod.split)
  qed
qed

text \<open>A NUL that no opening bracket precedes is never passed.\<close>

lemma dropWhile_NUL: "\<exists>m. dropWhile (\<lambda>c. \<not> strchr s c) (n @ NUL # rest) = m @ NUL # rest \<and> set m \<subseteq> set n"
  by (induction n) (auto simp: strchr_def)

lemma makePath_loop_no_NUL:
  assumes "makePath_loop cur itInArg args = Some r"
  shows "\<forall>n. cur = n @ NUL # rest \<longrightarrow> CHR ''['' \<in> set n"
proof (rule makePath_loop.raw_induct [OF _ assms, where P = "\<lambda>cur _ _ _. \<forall>n. cur = n @ NUL # rest \<longrightarrow> CHR ''['' \<in> set n"],
    intro allI impI)
  fix f :: "string \<Rightarrow> InArgs \<Rightarrow> Args \<Rightarrow> Args option" and cur itInArg args r n
  assume IH: "\<And>cur it ar r. f cur it ar = Some r \<Longrightarrow> \<forall>n. cur = n @ NUL # rest \<longrightarrow> CHR ''['' \<in> set n"
    and step: "(case cur of
       [] \<Rightarrow> Some args
     | c # rest \<Rightarrow>
        if c = CHR ''['' then
          if rest \<noteq> [] \<and> hd rest = CHR ''%'' then
            (case addPathInArg itInArg kindIndex args of (itInArg, args) \<Rightarrow> f (after_index rest) itInArg args)
          else
            (case read_index 0 rest of (index, rest) \<Rightarrow>
              f (after_index rest) itInArg (args @ [PathArgument_index index]))
        else if c = CHR ''%'' then
          (case addPathInArg itInArg kindKey args of (itInArg, args) \<Rightarrow> f rest itInArg args)
        else if c = CHR ''.'' \<or> c = CHR '']'' then f rest itInArg args
        else
          f (dropWhile (\<lambda>c. \<not> strchr ''[.'' c) cur) itInArg
            (args @ [PathArgument_key (takeWhile (\<lambda>c. \<not> strchr ''[.'' c) cur)])) = Some r"
    and cur: "cur = n @ NUL # rest"
  obtain m where m: "dropWhile (\<lambda>c. \<not> strchr ''[.'' c) cur = m @ NUL # rest" "set m \<subseteq> set n"
    using dropWhile_NUL cur by blast
  show "CHR ''['' \<in> set n"
  proof (rule ccontr)
    assume b: "CHR ''['' \<notin> set n"
    then have no: "f (k @ NUL # rest) it ar \<noteq> Some r" if "set k \<subseteq> set n" for k it ar using IH that by blast
    show False
    proof (cases n)
      case Nil
      then show False using step cur m no [of m] by simp
    next
      case (Cons c n')
      then have "\<And>it ar. f (n' @ NUL # rest) it ar \<noteq> Some r" by (intro no) auto
      then show False using step cur b m(1) no [OF m(2)] Cons
        by (cases "addPathInArg itInArg kindKey args") (simp del: dropWhile.simps split: if_splits)
    qed
  qed
qed

section \<open>Texts in the documented syntax\<close>

text \<open>\<open>.name\<close> and \<open>[n]\<close>.\<close>

definition argument_text :: "PathArgument \<Rightarrow> string" where
  "argument_text a = (if arg_kind a = kindIndex then ''['' @ dec (unat (arg_index a)) @ '']'' else ''.'' @ arg_key a)"

definition path_text :: "Args \<Rightarrow> string" where
  "path_text args = concat (map argument_text args)"

text \<open>An argument the syntax can express: a name does not hold a dot, an opening bracket or a NUL, and does not begin like another argument.\<close>

definition expressible :: "PathArgument \<Rightarrow> bool" where
  "expressible a \<longleftrightarrow> arg_kind a = kindIndex \<and> arg_key a = [] \<or> arg_kind a = kindKey \<and> arg_index a = 0 \<and> arg_key a \<noteq> [] \<and>
     hd (arg_key a) \<noteq> CHR ''%'' \<and> hd (arg_key a) \<noteq> CHR '']'' \<and> \<not> list_ex (strchr ''[.'') (arg_key a)"

lemma read_index_foldl: "list_all is_digit ds \<Longrightarrow>
    read_index i (ds @ cs) = read_index (foldl (\<lambda>v c. v * 10 + word_of_nat (digit_val c)) i ds) cs"
  by (induction ds arbitrary: i) auto

lemma foldl_word_of_nat: "foldl (\<lambda>v c. v * 10 + word_of_nat (digit_val c)) (word_of_nat n :: u32) ds =
    word_of_nat (foldl (\<lambda>v c. v * 10 + digit_val c) n ds)"
proof (induction ds arbitrary: n)
  case (Cons c ds)
  have "word_of_nat n * 10 + word_of_nat (digit_val c) = (word_of_nat (n * 10 + digit_val c) :: u32)" by simp
  then show ?case using Cons.IH [of "n * 10 + digit_val c"] by (simp only: foldl_Cons)
qed simp

lemma read_index_dec: "read_index 0 (dec (unat i) @ CHR '']'' # cs) = (i, CHR '']'' # cs)"
proof -
  have "read_index 0 (dec (unat i) @ CHR '']'' # cs) = read_index (word_of_nat (undec (dec (unat i)))) (CHR '']'' # cs)"
    using foldl_word_of_nat [of 0 "dec (unat i)"] dec_digits [of _ "unat i"]
    by (subst read_index_foldl) (auto simp: list_all_iff undec_def)
  then show ?thesis by (simp add: is_digit_def less_eq_char_def)
qed

lemma makePath_loop_path_text: "list_all expressible ar \<Longrightarrow> makePath_loop (path_text ar) itInArg args = Some (args @ ar)"
proof (induction ar arbitrary: args)
  case Nil
  then show ?case by (simp add: path_text_def makePath_loop.simps [of "[]"])
next
  case (Cons a ar)
  have IH: "makePath_loop (path_text ar) itInArg args' = Some (args' @ ar)" for args' using Cons by simp
  have b: "ar \<noteq> [] \<Longrightarrow> path_text ar \<noteq> [] \<and> strchr ''[.'' (hd (path_text ar))"
    by (cases ar) (auto simp: path_text_def argument_text_def strchr_def)
  show ?case
  proof (cases "arg_kind a = kindIndex")
    case True
    then have a: "a = PathArgument_index (arg_index a)" using Cons.prems by (cases a) (simp add: expressible_def PathArgument_index_def)
    have "hd (dec n @ cs) \<noteq> CHR ''%''" for n cs
      using dec_digits [of "hd (dec n)" n] by (auto simp: is_digit_def less_eq_char_def)
    then have "makePath_loop (CHR ''['' # dec (unat (arg_index a)) @ CHR '']'' # path_text ar) itInArg args = Some (args @ a # ar)"
      by (simp add: makePath_loop_steps(3) read_index_dec after_index_def IH a [symmetric])
    then show ?thesis using True by (simp add: path_text_def argument_text_def)
  next
    case False
    then have k: "arg_key a \<noteq> []" "hd (arg_key a) \<noteq> CHR ''%''" "hd (arg_key a) \<noteq> CHR '']''" "\<And>c. c \<in> set (arg_key a) \<Longrightarrow> \<not> strchr ''[.'' c"
      and a: "a = PathArgument_key (arg_key a)"
      using Cons.prems by (cases a; auto simp: expressible_def PathArgument_key_def list_ex_iff)+
    obtain c cs where c: "arg_key a = c # cs" using k(1) by (cases "arg_key a") auto
    have d: "dropWhile (\<lambda>c. \<not> strchr ''[.'' c) (arg_key a @ path_text ar) = path_text ar"
      "takeWhile (\<lambda>c. \<not> strchr ''[.'' c) (arg_key a @ path_text ar) = arg_key a"
      using k(4) b by (cases ar; cases "path_text ar"; auto simp: path_text_def)+
    have "makePath_loop (arg_key a @ path_text ar) itInArg args = Some (args @ a # ar)"
      using k(2,3) k(4) [of c] d unfolding c append_Cons
      by (subst makePath_loop_steps(6)) (auto simp: strchr_def IH c a [symmetric, unfolded c])
    then show ?thesis using False by (simp add: path_text_def argument_text_def makePath_loop_steps(5))
  qed
qed

section \<open>Storing at a path\<close>

text \<open>No array below the value has an element at the greatest index, where \<open>size()\<close> wraps to 0.\<close>

fun roomy :: "Value \<Rightarrow> bool" and roomy_payload :: "Payload \<Rightarrow> bool" and roomy_all :: "ObjectValues \<Rightarrow> bool" where
  "roomy (Value p _ _ _) = roomy_payload p"
| "roomy_payload (PArray m) = roomy_all m"
| "roomy_payload (PObject m) = roomy_all m"
| "roomy_payload _ = True"
| "roomy_all [] = True"
| "roomy_all ((k, v) # m) = (k \<noteq> CZIndex (- 1) \<and> roomy v \<and> roomy_all m)"

lemma roomy_all_iff: "roomy_all m \<longleftrightarrow> (\<forall>(k, v) \<in> set m. k \<noteq> CZIndex (- 1) \<and> roomy v)"
  by (induction m) auto

lemma roomy_iff: "roomy v \<longleftrightarrow> roomy_all (map_of_value v)"
  by (cases v; cases "payload v") (simp_all add: map_of_value_def)

lemma roomy_null [simp]: "roomy nullSingleton" "roomy (Value_of_type t)"
  by (cases t; simp add: nullSingleton_def Value_of_type_def initBasic_def)+

lemma roomy_emplace: "roomy_all m \<Longrightarrow> roomy x \<Longrightarrow> k \<noteq> CZIndex (- 1) \<Longrightarrow> roomy_all (map_emplace k x m)"
  using set_map_emplace [of k x m] by (fastforce simp: roomy_all_iff)

text \<open>What \<open>operator[]\<close> of an array and of an object have in common: the container exists and has the entry.\<close>

lemma reference_ready:
  assumes "wf_value v" "roomy v" "index_ref i v = Inr w \<and> k = CZIndex i \<and> i \<noteq> - 1 \<or> resolveReference name v = Inr w \<and> k = CZString name"
  shows "wf_value w" "roomy w" "map_find k (map_of_value w) = Some (ref_get k w)"
    "type_of w = (if k = CZIndex i then arrayValue else objectValue)"
proof -
  let ?t = "if k = CZIndex i then arrayValue else objectValue"
  let ?c = "coerce ?t v"
  have k: "k \<noteq> CZIndex (- 1)" "CZString name \<noteq> CZIndex i" using assms(3) by (auto simp: CZString_def)
  have w: "w = with_map (map_emplace k nullSingleton) ?c" and t: "type_of v = nullValue \<or> type_of v = ?t"
    using assms(3) k(2) by (auto simp: index_ref_def resolveReference_def)
  have c: "type_of ?c = ?t" using t by (rule type_coerce)
  then show "type_of w = ?t" unfolding w by simp
  show "wf_value w" using assms(1,3) wf_index_ref wf_resolveReference by blast
  have m: "map_of_value w = map_emplace k nullSingleton (map_of_value ?c)" using c by (auto simp: w map_of_value_with_map)
  have "roomy ?c" using assms(2) by (simp add: coerce_def)
  then show "roomy w" using k(1) by (simp add: roomy_iff [of w] roomy_iff [of ?c] m roomy_emplace)
  have "sorted_map (map_of_value ?c)"
    using wf_coerce [OF assms(1), of ?t] by (cases "payload ?c") (auto simp: wf_iff map_of_value_def wf_map_def)
  then have "map_find k (map_of_value w) \<noteq> None" by (auto simp: m om.find_emplace)
  then show "map_find k (map_of_value w) = Some (ref_get k w)" by (auto simp: ref_get_def)
qed

lemma stored_below:
  assumes "wf_value w" "map_find k (map_of_value w) = Some y"
  shows "map_find k (map_of_value (upd_at (k # p) f (ref_put k x w))) = Some (upd_at p f x)"
proof -
  have "type_of w = arrayValue \<or> type_of w = objectValue"
    using assms(2) by (cases "payload w") (auto simp: map_of_value_def type_of_def)
  then show ?thesis using sorted_map_of_value [OF assms(1)]
    by (simp add: ref_put_def find_with_map map_of_value_with_map om.find_put comp_def find_map_snd)
qed

lemma keys_upd_at: "fst ` set (map_of_value (upd_at (k # p) f v)) = fst ` set (map_of_value v)"
  by (cases "payload v") (auto simp: map_of_value_def with_map_def set_payload_def image_image case_prod_unfold)

lemma valid_index:
  assumes "wf_value v" "type_of v = arrayValue" "map_find (CZIndex i) (map_of_value v) = Some x"
    "CZIndex (- 1) \<notin> fst ` set (map_of_value v)"
  shows "isValidIndex i v"
proof -
  obtain m where m: "payload v = PArray m" using assms(2) by (cases "payload v") (auto simp: type_of_def)
  then have s: "wf_map True m" "map_of_value v = m" using assms(1) by (simp_all add: wf_iff map_of_value_def)
  have ne: "m \<noteq> []" using assms(3) s by auto
  obtain j y where j: "last m = (CZIndex j, y)" using s(1) ne
    by (metis is_index_key.elims(2) last_in_set prod.collapse wf_map_def)
  have "CZIndex i \<le> CZIndex j"
    using sorted_map_last [of m] s ne j map_find_Some_in [OF assms(3)] by (fastforce simp: wf_map_def)
  moreover have "j \<noteq> - 1" using assms(4) j s(2) ne last_in_set [OF ne] by force
  ultimately have "i \<le> j" "1 + j \<noteq> 0" by (auto simp: less_eq_czstring_def add_eq_0_iff)
  then have "i < j + 1" using unatSuc [of j] by (simp add: word_less_nat_alt word_le_nat_alt add.commute)
  then show ?thesis using m ne j by (simp add: isValidIndex_def value_size_def)
qed

lemma roomy_ref_put: "wf_value w \<Longrightarrow> roomy w \<Longrightarrow> roomy x \<Longrightarrow> k \<noteq> CZIndex (- 1) \<Longrightarrow> roomy (ref_put k x w)"
  using roomy_emplace [of "map_of_value w" x k]
  by (cases w; cases "payload w") (auto simp: ref_put_def with_map_def set_payload_def map_of_value_def map_put_def roomy_all_iff)

lemma make_step:
  assumes "Path_make (arg # args) v = Inr (p, v')" "arg_kind arg \<noteq> kindNone" "wf_value v" "roomy v" "arg_index arg \<noteq> - 1"
  obtains k w q y where "p = k # q" "v' = ref_put k y w" "Path_make args (ref_get k w) = Inr (q, y)" "wf_value w" "roomy w"
    "map_find k (map_of_value w) = Some (ref_get k w)" "k \<noteq> CZIndex (- 1)"
    "arg_kind arg = kindIndex \<and> k = CZIndex (arg_index arg) \<and> type_of w = arrayValue \<or>
     arg_kind arg = kindKey \<and> k = CZString (arg_key arg) \<and> type_of w = objectValue"
proof (cases "arg_kind arg")
  case kindIndex
  let ?k = "CZIndex (arg_index arg)"
  obtain w q y where w: "index_ref (arg_index arg) v = Inr w" "Path_make args (ref_get ?k w) = Inr (q, y)" "p = ?k # q" "v' = ref_put ?k y w"
    using assms(1) kindIndex by (auto simp: Let_def split: sum.splits)
  from reference_ready [OF assms(3,4), of "arg_index arg" w ?k undefined] w(1) assms(5) have
    "wf_value w" "roomy w" "map_find ?k (map_of_value w) = Some (ref_get ?k w)" "type_of w = arrayValue" by auto
  with w assms(5) kindIndex show ?thesis by (intro that [of ?k q y w]) auto
next
  case kindKey
  let ?k = "CZString (arg_key arg)"
  have k: "\<And>i. ?k \<noteq> CZIndex i" by (simp add: CZString_def)
  obtain w q y where w: "resolveReference (arg_key arg) v = Inr w" "Path_make args (ref_get ?k w) = Inr (q, y)" "p = ?k # q" "v' = ref_put ?k y w"
    using assms(1) kindKey by (auto simp: Let_def split: sum.splits)
  from reference_ready [OF assms(3,4), of undefined w ?k "arg_key arg"] w(1) k have
    "wf_value w" "roomy w" "map_find ?k (map_of_value w) = Some (ref_get ?k w)" "type_of w = objectValue" by auto
  with w k kindKey show ?thesis by (intro that [of ?k q y w]) auto
qed (use assms(2) in auto)

lemma roomy_ref_get: "roomy w \<Longrightarrow> roomy (ref_get k w)"
  by (auto simp: ref_get_def roomy_iff [of w] roomy_all_iff dest: map_find_Some_in split: option.split)

lemma make_then_resolve:
  assumes "wf_value v" "roomy v" "Path_make args v = Inr (p, v')" "list_all (\<lambda>a. arg_index a \<noteq> - 1) args" "wf_value x"
  shows "wf_value v' \<and> roomy v' \<and> resolve_or d args (upd_at p (\<lambda>_. x) v') = Inr x"
  using assms(1-4)
proof (induction args arbitrary: v p v')
  case (Cons arg args)
  show ?case
  proof (cases "arg_kind arg = kindNone")
    case True
    then have "Path_make args v = Inr (p, v')" "list_all (\<lambda>a. arg_index a \<noteq> - 1) args" using Cons.prems(3,4) by simp_all
    from Cons.IH [OF Cons.prems(1,2) this] True show ?thesis by simp
  next
    case False
    from Cons.prems(3) False Cons.prems(1,2) obtain k w q y where k: "p = k # q" "v' = ref_put k y w" "Path_make args (ref_get k w) = Inr (q, y)"
      and w: "wf_value w" "roomy w" "map_find k (map_of_value w) = Some (ref_get k w)" "k \<noteq> CZIndex (- 1)"
      and t: "arg_kind arg = kindIndex \<and> k = CZIndex (arg_index arg) \<and> type_of w = arrayValue \<or>
         arg_kind arg = kindKey \<and> k = CZString (arg_key arg) \<and> type_of w = objectValue"
      by (rule make_step) (use Cons.prems(4) in simp)
    let ?v = "upd_at p (\<lambda>_. x) v'"
    from Cons.IH [OF wf_ref_get [OF w(1)] roomy_ref_get [OF w(2)] k(3)] Cons.prems(4) have
      y: "wf_value y" "roomy y" "resolve_or d args (upd_at q (\<lambda>_. x) y) = Inr x" by auto
    have v': "wf_value v'" "roomy v'"
      using t wf_ref_put [OF w(1) y(1), of k] roomy_ref_put [OF w(1,2) y(2) w(4)] unfolding k by auto
    have f: "map_find k (map_of_value ?v) = Some (upd_at q (\<lambda>_. x) y)" unfolding k by (rule stored_below [OF w(1,3)])
    have wf: "wf_value ?v" by (rule wf_upd_at [OF v'(1)]) (rule assms(5))
    have ty: "type_of ?v = type_of w" by (simp add: k ref_put_def)
    have "CZIndex (- 1) \<notin> fst ` set (map_of_value ?v)"
      using v'(2) unfolding k(1) keys_upd_at by (auto simp: roomy_iff [of v'] roomy_all_iff)
    then have "arg_kind arg = kindIndex \<Longrightarrow> isValidIndex (arg_index arg) ?v"
      using valid_index [OF wf] f t ty by auto
    then have "resolve_or d (arg # args) ?v = Inr x"
      using t f ty y(3) by (auto simp: isArray_def isObject_def index_const_def json_assert_def value_find_def ref_get_def)
    with v' show ?thesis by blast
  qed
qed simp

section \<open>Properties\<close>

text \<open>
  C15. The constructor of \<open>Path\<close> returns for every text without a NUL, and for no text with a NUL that no opening bracket precedes: it
  then appends empty names for ever.
\<close>

theorem makePath_returns:
  "(NUL \<notin> set path \<longrightarrow> (\<exists>args. new_Path path a1 a2 a3 a4 a5 = Some args)) \<and>
   (\<forall>name rest. path = name @ NUL # rest \<and> CHR ''['' \<notin> set name \<longrightarrow> new_Path path a1 a2 a3 a4 a5 = None)"
  using makePath_loop_returns [of path] makePath_loop_no_NUL [of path]
  unfolding new_Path_def makePath_def by (metis not_None_eq)

theorem makePath_returns_witness:
  "(\<exists>args. new_Path ''.a[3]'' PathArgument_none PathArgument_none PathArgument_none PathArgument_none PathArgument_none = Some args) \<and>
   new_Path (''ab'' @ NUL # ''c'') PathArgument_none PathArgument_none PathArgument_none PathArgument_none PathArgument_none = None"
proof
  show "\<exists>args. new_Path ''.a[3]'' PathArgument_none PathArgument_none PathArgument_none PathArgument_none PathArgument_none = Some args"
    using makePath_returns [of "''.a[3]''"] by simp
  show "new_Path (''ab'' @ NUL # ''c'') PathArgument_none PathArgument_none PathArgument_none PathArgument_none PathArgument_none = None"
    using makePath_returns [of "''ab'' @ NUL # ''c''", THEN conjunct2, rule_format, of "''ab''" "''c''"] by simp
qed

text \<open>
  C14. A value stored through the reference that \<open>Path::make\<close> returns is found again at the path: the text of the path, in the
  documented syntax, is read back to the same arguments, and both variants of \<open>resolve\<close> return the stored value, for every path
  that does not use the greatest index.
\<close>

theorem path_stores_and_resolves:
  assumes "list_all expressible args" "list_all (\<lambda>a. arg_index a \<noteq> - 1) args" "wf_value v" "roomy v" "wf_value x"
    "Path_make args v = Inr (p, v')"
  shows "new_Path (path_text args) a1 a2 a3 a4 a5 = Some args \<and>
    resolve args (upd_at p (\<lambda>_. x) v') = Inr x \<and> resolve_default args (upd_at p (\<lambda>_. x) v') d = Inr x"
  using makePath_loop_path_text [OF assms(1)] make_then_resolve [OF assms(3,4,6,2,5)]
  by (simp add: new_Path_def makePath_def resolve_def resolve_default_def)

theorem path_stores_and_resolves_witness:
  "\<exists>p v'. Path_make [PathArgument_key ''a'', PathArgument_index 2] nullSingleton = Inr (p, v') \<and>
    path_text [PathArgument_key ''a'', PathArgument_index 2] = ''.a[2]'' \<and>
    resolve [PathArgument_key ''a'', PathArgument_index 2] (upd_at p (\<lambda>_. Value_of_bool True) v') = Inr (Value_of_bool True)"
proof -
  let ?args = "[PathArgument_key ''a'', PathArgument_index 2]"
  obtain p v' where m: "Path_make ?args nullSingleton = Inr (p, v')"
    by (simp add: PathArgument_key_def PathArgument_index_def index_ref_def resolveReference_def json_assert_def nullSingleton_def
      Value_of_type_def initBasic_def type_of_def ref_get_def with_map_def set_payload_def map_of_value_def coerce_def Let_def)
  have "path_text ?args = ''.a[2]''"
    by (simp add: path_text_def argument_text_def PathArgument_key_def PathArgument_index_def) code_simp
  then show ?thesis using m path_stores_and_resolves [OF _ _ _ _ _ m, of "Value_of_bool True"]
    by (simp add: expressible_def PathArgument_key_def PathArgument_index_def strchr_def Value_of_bool_def initBasic_def)
qed

end
