(* ===== verification/Json_Iterator.thy ===== *)
theory Json_Iterator
  imports Json_Value
begin

text \<open>
  Iterators over the entries of an array or object (\<open>src/components/jsoncpp/value.h\<close>, \<open>json_valueiterator.inl\<close>, and
  \<open>Value::begin\<close> and \<open>Value::end\<close> of \<open>json_value.cpp\<close>). A \<open>std::map\<close> iterator is its position in the order of the keys, and the
  operations take the value the iterator belongs to; what the C++ standard leaves undefined (to dereference or advance the end, to
  compare with an iterator that belongs to no container) is the outcome \<open>Undefined\<close>. The contract of a range of iterators is the
  locale \<open>iterator_range\<close>; the theorem shows that a loop from \<open>begin\<close> to \<open>end\<close> visits every member once, in the order of the names.
\<close>

section \<open>Iterators\<close>

record ValueIteratorBase =
  it_current :: nat
  it_isNull :: bool

definition new_iterator :: ValueIteratorBase where
  "new_iterator = \<lparr>it_current = 0, it_isNull = True\<rparr>"

definition iterator_at :: "nat \<Rightarrow> ValueIteratorBase" where
  "iterator_at n = \<lparr>it_current = n, it_isNull = False\<rparr>"

definition value_begin :: "Value \<Rightarrow> ValueIteratorBase" where
  "value_begin v = (case payload v of
     PArray m \<Rightarrow> iterator_at 0
   | PObject m \<Rightarrow> iterator_at 0
   | _ \<Rightarrow> new_iterator)"

definition value_end :: "Value \<Rightarrow> ValueIteratorBase" where
  "value_end v = (case payload v of
     PArray m \<Rightarrow> iterator_at (length m)
   | PObject m \<Rightarrow> iterator_at (length m)
   | _ \<Rightarrow> new_iterator)"

definition it_entry :: "Value \<Rightarrow> ValueIteratorBase \<Rightarrow> (czstring \<times> Value) outcome" where
  "it_entry v it =
    (if it_isNull it \<or> length (map_of_value v) \<le> it_current it then Inl (Undefined ''dereference of an iterator without an entry'')
     else Inr (map_of_value v ! it_current it))"

definition it_deref :: "Value \<Rightarrow> ValueIteratorBase \<Rightarrow> Value outcome" where
  "it_deref v it = map_sum id snd (it_entry v it)"

definition it_increment :: "Value \<Rightarrow> ValueIteratorBase \<Rightarrow> ValueIteratorBase outcome" where
  "it_increment v it =
    (if it_isNull it \<or> length (map_of_value v) \<le> it_current it then Inl (Undefined ''increment of the end'')
     else Inr (it\<lparr>it_current := it_current it + 1\<rparr>))"

definition it_decrement :: "Value \<Rightarrow> ValueIteratorBase \<Rightarrow> ValueIteratorBase outcome" where
  "it_decrement v it =
    (if it_isNull it \<or> it_current it = 0 then Inl (Undefined ''decrement of the beginning'')
     else Inr (it\<lparr>it_current := it_current it - 1\<rparr>))"

text \<open>\<open>difference_type\<close> is \<open>int\<close>; the loop runs from one position to the other and leaves the map when the other comes first.\<close>

function distance_loop :: "nat \<Rightarrow> nat \<Rightarrow> nat \<Rightarrow> int \<Rightarrow> int outcome" where
  "distance_loop n it other myDistance =
    (if it = other then Inr myDistance
     else if n \<le> it then Inl (Undefined ''increment of the end'')
     else if myDistance = maxInt then Inl (Undefined ''signed overflow'')
     else distance_loop n (it + 1) other (myDistance + 1))"
  by auto

termination by (relation "measure (\<lambda>(n, it, _). n - it)") auto

declare distance_loop.simps [simp del]

definition computeDistance :: "Value \<Rightarrow> ValueIteratorBase \<Rightarrow> ValueIteratorBase \<Rightarrow> int outcome" where
  "computeDistance v it other =
    (if it_isNull it \<and> it_isNull other then Inr 0
     else if it_isNull it \<or> it_isNull other then Inl (Undefined ''comparison with a singular iterator'')
     else distance_loop (length (map_of_value v)) (it_current it) (it_current other) 0)"

definition it_minus :: "Value \<Rightarrow> ValueIteratorBase \<Rightarrow> ValueIteratorBase \<Rightarrow> int outcome" where
  "it_minus v it other = computeDistance v other it"

definition it_isEqual :: "ValueIteratorBase \<Rightarrow> ValueIteratorBase \<Rightarrow> bool outcome" where
  "it_isEqual it other =
    (if it_isNull it then Inr (it_isNull other)
     else if it_isNull other then Inl (Undefined ''comparison with a singular iterator'')
     else Inr (it_current it = it_current other))"

definition it_copy :: "ValueIteratorBase \<Rightarrow> ValueIteratorBase \<Rightarrow> ValueIteratorBase" where
  "it_copy other it = it\<lparr>it_current := it_current other, it_isNull := it_isNull other\<rparr>"

definition it_key :: "Value \<Rightarrow> ValueIteratorBase \<Rightarrow> Value outcome" where
  "it_key v it =
    (case it_entry v it of Inl e \<Rightarrow> Inl e
     | Inr (CZStr s, _) \<Rightarrow> Value_of_String s
     | Inr (CZIndex i, _) \<Rightarrow> Inr (Value_of_UInt i))"

definition it_index :: "Value \<Rightarrow> ValueIteratorBase \<Rightarrow> u32 outcome" where
  "it_index v it =
    map_sum id (\<lambda>(k, _). case k of CZIndex i \<Rightarrow> i | CZStr _ \<Rightarrow> - 1) (it_entry v it)"

text \<open>\<open>memberName(end)\<close> is the range of the name, \<open>memberName()\<close> the C string at its start.\<close>

definition it_memberName_range :: "Value \<Rightarrow> ValueIteratorBase \<Rightarrow> string option outcome" where
  "it_memberName_range v it =
    map_sum id (\<lambda>(k, _). case k of CZIndex _ \<Rightarrow> None | CZStr s \<Rightarrow> Some s) (it_entry v it)"

definition it_memberName :: "Value \<Rightarrow> ValueIteratorBase \<Rightarrow> string outcome" where
  "it_memberName v it =
    map_sum id (\<lambda>(k, _). case k of CZIndex _ \<Rightarrow> [] | CZStr s \<Rightarrow> cstr s) (it_entry v it)"

definition it_name :: "Value \<Rightarrow> ValueIteratorBase \<Rightarrow> string outcome" where
  "it_name v it = map_sum id (\<lambda>keey. case keey of None \<Rightarrow> [] | Some s \<Rightarrow> s) (it_memberName_range v it)"

definition iterator_of_const :: "ValueIteratorBase \<Rightarrow> ValueIteratorBase outcome" where
  "iterator_of_const other = Inl (RuntimeError ''ConstIterator to Iterator should never be allowed.'')"

section \<open>Ranges\<close>

text \<open>
  \<open>for (it = first; it != stop; ++it) visit(it)\<close>, with a bound on the number of turns; \<open>None\<close> when the bound is reached.
\<close>

fun for_each :: "nat \<Rightarrow> ('i \<Rightarrow> 'i outcome) \<Rightarrow> ('i \<Rightarrow> 'i \<Rightarrow> bool outcome) \<Rightarrow> ('i \<Rightarrow> 'a outcome) \<Rightarrow> 'i \<Rightarrow> 'i \<Rightarrow> 'a list outcome option" where
  "for_each n increment equal visit it stop =
    (case equal it stop of
       Inl e \<Rightarrow> Some (Inl e)
     | Inr True \<Rightarrow> Some (Inr [])
     | Inr False \<Rightarrow>
        (case n of 0 \<Rightarrow> None | Suc n \<Rightarrow>
         case visit it of Inl e \<Rightarrow> Some (Inl e) | Inr x \<Rightarrow>
         case increment it of Inl e \<Rightarrow> Some (Inl e) | Inr it \<Rightarrow>
         map_option (map_sum id ((#) x)) (for_each n increment equal visit it stop)))"

declare for_each.simps [simp del]

locale iterator_range =
  fixes position :: "nat \<Rightarrow> 'i"
    and count :: nat
    and increment :: "'i \<Rightarrow> 'i outcome"
    and decrement :: "'i \<Rightarrow> 'i outcome"
    and equal :: "'i \<Rightarrow> 'i \<Rightarrow> bool outcome"
  assumes equal: "i \<le> count \<Longrightarrow> j \<le> count \<Longrightarrow> equal (position i) (position j) = Inr (i = j)"
    and increment: "i < count \<Longrightarrow> increment (position i) = Inr (position (i + 1))"
    and decrement: "0 < i \<Longrightarrow> i \<le> count \<Longrightarrow> decrement (position i) = Inr (position (i - 1))"
begin

lemma decrement_increment: "i < count \<Longrightarrow> increment (position i) = Inr it \<Longrightarrow> decrement it = Inr (position i)"
  using increment [of i] decrement [of "i + 1"] by auto

lemma for_each_visits:
  assumes "\<And>i. i < count \<Longrightarrow> visit (position i) = Inr (f i)"
  shows "i \<le> count \<Longrightarrow> count - i \<le> n \<Longrightarrow>
    for_each n increment equal visit (position i) (position count) = Some (Inr (map f [i ..< count]))"
proof (induction "count - i" arbitrary: i n)
  case 0
  then show ?case using equal [of i count] by (simp add: for_each.simps [of n])
next
  case (Suc k)
  then obtain n' where n: "n = Suc n'" by (cases n) auto
  have "for_each n' increment equal visit (position (i + 1)) (position count) = Some (Inr (map f [i + 1 ..< count]))"
    using Suc(1) [of "i + 1" n'] Suc(2-4) n by simp
  moreover have "i < count" using Suc(2) by simp
  ultimately show ?case using equal [of i count] increment [of i] assms [of i]
    by (subst for_each.simps) (simp add: n upt_conv_Cons)
qed

end

definition entry_position :: "Value \<Rightarrow> nat \<Rightarrow> ValueIteratorBase" where
  "entry_position v i = (if isArray v \<or> isObject v then iterator_at i else new_iterator)"

interpretation entries: iterator_range "entry_position v" "length (map_of_value v)" "it_increment v" "it_decrement v" it_isEqual for v
proof unfold_locales
  fix i j assume "i \<le> length (map_of_value v)" "j \<le> length (map_of_value v)"
  then show "it_isEqual (entry_position v i) (entry_position v j) = Inr (i = j)"
    by (cases "payload v") (auto simp: it_isEqual_def entry_position_def iterator_at_def new_iterator_def isArray_def isObject_def type_of_def
      map_of_value_def)
next
  fix i assume "i < length (map_of_value v)"
  then show "it_increment v (entry_position v i) = Inr (entry_position v (i + 1))"
    by (cases "payload v") (auto simp: it_increment_def entry_position_def iterator_at_def isArray_def isObject_def type_of_def map_of_value_def)
next
  fix i assume "0 < i" "i \<le> length (map_of_value v)"
  then show "it_decrement v (entry_position v i) = Inr (entry_position v (i - 1))"
    by (cases "payload v") (auto simp: it_decrement_def entry_position_def iterator_at_def isArray_def isObject_def type_of_def map_of_value_def)
qed

lemma begin_end_position: "value_begin v = entry_position v 0" "value_end v = entry_position v (length (map_of_value v))"
  by (cases "payload v"; simp add: value_begin_def value_end_def entry_position_def isArray_def isObject_def type_of_def map_of_value_def)+

lemma it_entry_position: "i < length (map_of_value v) \<Longrightarrow> it_entry v (entry_position v i) = Inr (map_of_value v ! i)"
  by (cases "payload v") (auto simp: it_entry_def entry_position_def iterator_at_def isArray_def isObject_def type_of_def map_of_value_def)

lemma distance_loop_counts: "it \<le> other \<Longrightarrow> other \<le> n \<Longrightarrow> d + int (other - it) \<le> maxInt \<Longrightarrow>
    distance_loop n it other d = Inr (d + int (other - it))"
proof (induction "other - it" arbitrary: it d)
  case (Suc k)
  then have "distance_loop n (it + 1) other (d + 1) = Inr (d + 1 + int (other - (it + 1)))" by (intro Suc(1)) auto
  then show ?case using Suc(2-5) by (subst distance_loop.simps) auto
qed (simp add: distance_loop.simps)

lemma distance_begin_end:
  assumes "length (map_of_value v) \<le> nat maxInt"
  shows "it_minus v (value_end v) (value_begin v) = Inr (int (length (map_of_value v)))"
  using distance_loop_counts [of 0 "length (map_of_value v)" "length (map_of_value v)" 0] assms
  by (cases "payload v") (auto simp: it_minus_def computeDistance_def value_begin_def value_end_def iterator_at_def new_iterator_def
    map_of_value_def maxInt_def)

section \<open>Properties\<close>

text \<open>
  C16. A loop over the iterators of an object, from \<open>begin()\<close> to \<open>end()\<close>, ends and visits every member once: the names are those of
  \<open>getMemberNames\<close>, in that order, each with the value that \<open>operator[]\<close> returns for it, and \<open>end() - begin()\<close> is \<open>size()\<close>.
\<close>

theorem iterators_visit_members:
  assumes "wf_value v" "isObject v" "\<forall>k \<in> set (map_of_value v). length (cz_name (fst k)) < 2 ^ 30" "length (map_of_value v) < 2 ^ 31"
  shows "\<exists>names values. getMemberNames v = Inr names \<and> length values = length names \<and>
    (\<forall>n \<ge> length names. for_each n (it_increment v) it_isEqual (it_name v) (value_begin v) (value_end v) = Some (Inr names) \<and>
       for_each n (it_increment v) it_isEqual (it_deref v) (value_begin v) (value_end v) = Some (Inr values)) \<and>
    (\<forall>i < length names. member_get (names ! i) v = Inr (values ! i)) \<and>
    it_minus v (value_end v) (value_begin v) = Inr (uint (value_size v))"
proof -
  let ?m = "map_of_value v"
  obtain m where m: "payload v = PObject m" using assms(2) by (cases "payload v") (auto simp: isObject_def type_of_def)
  then have mv: "?m = m" by (simp add: map_of_value_def)
  have wf: "wf_map False m" using assms(1) m by (simp add: wf_iff)
  define names where "names = map (\<lambda>i. cz_name (fst (m ! i))) [0 ..< length m]"
  define vals where "vals = map (\<lambda>i. snd (m ! i)) [0 ..< length m]"
  have key: "\<exists>s. m ! i = (CZStr s, snd (m ! i)) \<and> length s < 2 ^ 30" if "i < length m" for i
    using that wf assms(3) nth_mem [OF that] unfolding mv
    by (cases "m ! i"; cases "fst (m ! i)") (auto simp: wf_map_def dest!: bspec [OF _ nth_mem [OF that]])
  have n: "getMemberNames v = Inr names"
    using m by (auto simp: getMemberNames_def json_assert_def type_of_def mv names_def intro!: nth_equalityI)
  have visit: "it_name v (entry_position v i) = Inr (cz_name (fst (m ! i)))" "it_deref v (entry_position v i) = Inr (snd (m ! i))"
    if i: "i < length m" for i
  proof -
    obtain s x where "m ! i = (CZStr s, x)" using key [OF i] by blast
    then show "it_name v (entry_position v i) = Inr (cz_name (fst (m ! i)))" "it_deref v (entry_position v i) = Inr (snd (m ! i))"
      using it_entry_position [of i v] i by (simp_all add: it_name_def it_memberName_range_def it_deref_def mv)
  qed
  have loop: "for_each k (it_increment v) it_isEqual (it_name v) (value_begin v) (value_end v) = Some (Inr names)"
      "for_each k (it_increment v) it_isEqual (it_deref v) (value_begin v) (value_end v) = Some (Inr vals)" if "length names \<le> k" for k
    using that entries.for_each_visits [of v "it_name v" "\<lambda>i. cz_name (fst (m ! i))" 0 k]
      entries.for_each_visits [of v "it_deref v" "\<lambda>i. snd (m ! i)" 0 k] visit
    by (simp_all add: begin_end_position mv names_def vals_def)
  have get: "member_get (names ! i) v = Inr (vals ! i)" if "i < length names" for i
  proof -
    have i: "i < length m" using that by (simp add: names_def)
    obtain s where s: "m ! i = (CZStr s, snd (m ! i))" "length s < 2 ^ 30" using key [OF i] by blast
    then have "map_find (CZString s) m = Some (snd (m ! i))"
      using map_find_in_iff [of m "CZStr s" "snd (m ! i)"] wf nth_mem [OF i] by (simp add: CZString_short wf_map_def)
    moreover have "names ! i = s" using s(1) i by (simp add: names_def) (metis cz_name.simps(1) fst_conv)
    ultimately show ?thesis using m i by (simp add: member_get_def value_find_def json_assert_def type_of_def mv vals_def)
  qed
  have "it_minus v (value_end v) (value_begin v) = Inr (uint (value_size v))"
    using distance_begin_end [of v] assms(4) m
    by (simp add: mv maxInt_def value_size_def unsigned_of_nat take_bit_nat_eq_self uint_nat del: of_nat_unat)
  then show ?thesis using n loop get by (intro exI [of _ names] exI [of _ vals]) (auto simp: names_def vals_def)
qed

theorem iterators_visit_members_witness:
  "for_each 3 (it_increment (initBasic (PObject [(CZStr ''a'', Value_of_bool True)]))) it_isEqual
     (it_name (initBasic (PObject [(CZStr ''a'', Value_of_bool True)]))) (value_begin (initBasic (PObject [(CZStr ''a'', Value_of_bool True)])))
     (value_end (initBasic (PObject [(CZStr ''a'', Value_of_bool True)]))) = Some (Inr [''a''])"
proof -
  let ?v = "initBasic (PObject [(CZStr ''a'', Value_of_bool True)])"
  have p: "wf_value ?v" "isObject ?v" "map_of_value ?v = [(CZStr ''a'', Value_of_bool True)]" "getMemberNames ?v = Inr [''a'']"
    by (simp_all add: initBasic_def isObject_def type_of_def map_of_value_def wf_map_def sorted_map_Cons Value_of_bool_def getMemberNames_def
      json_assert_def)
  then show ?thesis using iterators_visit_members [of ?v] by auto
qed

end
