(* ===== verification/Json_Order.thy ===== *)
theory Json_Order
  imports Json_Value
begin

text \<open>
  The comparison operators of \<open>Json::Value\<close> (\<open>src/components/jsoncpp/json_value.cpp\<close>): \<open>operator<\<close>, \<open>operator==\<close> and \<open>compare\<close> are one
  total order on the values that hold no NaN, at every depth; with a NaN neither of two values need be less than or equal to the other.
\<close>

section \<open>Values without NaN\<close>

fun nan_free :: "Value \<Rightarrow> bool" and nan_free_payload :: "Payload \<Rightarrow> bool" and nan_free_all :: "ObjectValues \<Rightarrow> bool" where
  "nan_free (Value p _ _ _) = nan_free_payload p"
| "nan_free_payload p = (case p of PReal d \<Rightarrow> d \<noteq> DNaN | PArray m \<Rightarrow> nan_free_all m | PObject m \<Rightarrow> nan_free_all m | _ \<Rightarrow> True)"
| "nan_free_all [] = True"
| "nan_free_all ((k, v) # m) = (nan_free v \<and> nan_free_all m)"

text \<open>Exactly one of three conditions; and what \<open>a < b\<close>, \<open>a == b\<close>, \<open>b < c\<close>, \<open>b == c\<close> give for \<open>a\<close> and \<open>c\<close>.\<close>

definition one_of :: "bool \<Rightarrow> bool \<Rightarrow> bool \<Rightarrow> bool" where
  "one_of a b c \<longleftrightarrow> (a \<or> b \<or> c) \<and> \<not> (a \<and> b) \<and> \<not> (a \<and> c) \<and> \<not> (b \<and> c)"

definition chain :: "bool \<Rightarrow> bool \<Rightarrow> bool \<Rightarrow> bool \<Rightarrow> bool \<Rightarrow> bool \<Rightarrow> bool" where
  "chain ab ab' bc bc' ac ac' \<longleftrightarrow> (ab \<and> (bc \<or> bc') \<or> ab' \<and> bc \<longrightarrow> ac) \<and> (ab' \<and> bc' \<longrightarrow> ac')"

lemma double_order:
  "x \<noteq> DNaN \<Longrightarrow> y \<noteq> DNaN \<Longrightarrow> one_of (dless x y) (dless y x) (deq x y)"
  "chain (dless x y) (deq x y) (dless y z) (deq y z) (dless x z) (deq x z)"
  by (cases x; cases y; cases z; auto simp: one_of_def chain_def)+

lemma linear_order:
  fixes x y z :: "'a :: linorder"
  shows "one_of (x < y) (y < x) (x = y)" "one_of (x < y) (y < x) (y = x)" "chain (x < y) (x = y) (y < z) (y = z) (x < z) (x = z)"
  by (auto simp: one_of_def chain_def)

lemma scalar_order:
  "one_of (sint i < sint j) (sint j < sint i) (i = j)"
  "chain (sint i < sint j) (i = j) (sint j < sint k) (j = k) (sint i < sint k) (i = k)"
  "one_of (\<not> a \<and> b) (\<not> b \<and> a) (a = b)"
  "chain (\<not> a \<and> b) (a = b) (\<not> b \<and> c) (b = c) (\<not> a \<and> c) (a = c)"
  for i j k :: u64
  using linear_order(1) [of "sint i" "sint j"] by (auto simp: one_of_def chain_def dest: signed_word_eqI)

lemma cz_less: "czless k l \<longleftrightarrow> k < l"
  by (simp add: less_czstring_def)

lemma map_less_Nil: "map_less m [] = False"
  by (cases m) auto

lemma value_order_total:
  "nan_free a \<Longrightarrow> nan_free b \<Longrightarrow> one_of (value_less a b) (value_less b a) (value_equal a b)"
  "nan_free_payload p \<Longrightarrow> nan_free_payload q \<Longrightarrow> payload_type p = payload_type q \<Longrightarrow>
    one_of (payload_less p q) (payload_less q p) (payload_equal p q)"
  "nan_free_all m \<Longrightarrow> nan_free_all n \<Longrightarrow> length m = length n \<Longrightarrow> one_of (map_less m n) (map_less n m) (map_equal m n)"
proof (induction a b and p q and m n rule: value_equal_payload_equal_map_equal.induct)
  case (1 p c x y q d x' y')
  show ?case
  proof (cases "payload_type p = payload_type q")
    case True
    then show ?thesis using 1 by simp
  next
    case False
    then have "type_index (payload_type p) \<noteq> type_index (payload_type q)" by (cases "payload_type p"; cases "payload_type q") simp_all
    then show ?thesis using False by (auto simp: Let_def one_of_def)
  qed
next
  case (2 p q)
  then show ?case
    by (cases p; cases q) (simp_all add: double_order scalar_order linear_order str_less_eq str_equal_eq, auto simp: one_of_def)
next
  case (4 k v m l w n)
  then show ?case by (cases k l rule: linorder_cases) (auto simp: cz_less czequal_eq one_of_def)
qed (auto simp: one_of_def)

lemma value_order_trans:
  "nan_free a \<Longrightarrow> nan_free b \<Longrightarrow> nan_free c \<Longrightarrow>
    chain (value_less a b) (value_equal a b) (value_less b c) (value_equal b c) (value_less a c) (value_equal a c)"
  "nan_free_payload p \<Longrightarrow> nan_free_payload q \<Longrightarrow> nan_free_payload r \<Longrightarrow> payload_type p = payload_type q \<Longrightarrow> payload_type r = payload_type q \<Longrightarrow>
    chain (payload_less p q) (payload_equal p q) (payload_less q r) (payload_equal q r) (payload_less p r) (payload_equal p r)"
  "nan_free_all m \<Longrightarrow> nan_free_all n \<Longrightarrow> nan_free_all l \<Longrightarrow> length m = length n \<Longrightarrow> length l = length n \<Longrightarrow>
    chain (map_less m n) (map_equal m n) (map_less n l) (map_equal n l) (map_less m l) (map_equal m l)"
proof (induction a b and p q and m n arbitrary: c and r and l rule: value_equal_payload_equal_map_equal.induct)
  case (1 p c x y q d x' y' z)
  obtain r e x'' y'' where z: "z = Value r e x'' y''" by (cases z)
  have inj: "type_index a = type_index b \<Longrightarrow> a = b" for a b by (cases a; cases b) simp_all
  show ?case
  proof (cases "payload_type p = payload_type q \<and> payload_type r = payload_type q")
    case True
    then show ?thesis using 1 z by simp
  next
    case False
    then show ?thesis using inj by (auto simp: z Let_def chain_def)
  qed
next
  case (2 p q r)
  have ty: "payload_type p = payload_type q" "payload_type r = payload_type q" using 2(6,7) .
  show ?case
  proof (cases q)
    case (PArray n)
    obtain m l where pr: "p = PArray m" "r = PArray l" using ty PArray by (cases p; cases r) simp_all
    have "length m = length n \<Longrightarrow> length l = length n \<Longrightarrow>
        chain (map_less m n) (map_equal m n) (map_less n l) (map_equal n l) (map_less m l) (map_equal m l)"
      using 2(1) [OF pr(1) PArray, of l] 2(3-5) by (simp add: pr PArray)
    then show ?thesis by (auto simp: pr PArray chain_def)
  next
    case (PObject n)
    obtain m l where pr: "p = PObject m" "r = PObject l" using ty PObject by (cases p; cases r) simp_all
    have "length m = length n \<Longrightarrow> length l = length n \<Longrightarrow>
        chain (map_less m n) (map_equal m n) (map_less n l) (map_equal n l) (map_less m l) (map_equal m l)"
      using 2(2) [OF pr(1) PObject, of l] 2(3-5) by (simp add: pr PObject)
    then show ?thesis by (auto simp: pr PObject chain_def)
  qed (use ty in \<open>cases p; cases r; simp add: double_order scalar_order linear_order str_less_eq str_equal_eq; simp add: chain_def\<close>)+
next
  case (4 k v m j w n l)
  obtain i x o' where l: "l = (i, x) # o'" using 4(7) by (cases l) auto
  have t: "one_of (value_less v w) (value_less w v) (value_equal v w)" "one_of (value_less w x) (value_less x w) (value_equal w x)"
    "one_of (value_less v x) (value_less x v) (value_equal v x)"
    using value_order_total(1) [of v w] value_order_total(1) [of w x] value_order_total(1) [of v x] 4(3-5) by (simp_all add: l)
  show ?case
  proof (cases "k = j \<and> j = i")
    case True
    have "chain (value_less v w) (value_equal v w) (value_less w x) (value_equal w x) (value_less v x) (value_equal v x)"
      using 4(1) [of x] 4(3-5) True by (simp add: l czequal_eq)
    moreover have "value_equal v w \<Longrightarrow> chain (map_less m n) (map_equal m n) (map_less n o') (map_equal n o') (map_less m o') (map_equal m o')"
      using 4(2) [of o'] 4(3-7) True by (simp add: l czequal_eq)
    ultimately show ?thesis using t True by (auto simp: l cz_less czequal_eq chain_def one_of_def)
  next
    case False
    then show ?thesis by (cases k j rule: linorder_cases; cases j i rule: linorder_cases; cases k i rule: linorder_cases)
      (auto simp: l cz_less czequal_eq chain_def)
  qed
qed (auto simp: chain_def)

text \<open>
  C13. The comparison operators of \<open>Json::Value\<close> define one total order on the values without NaN: exactly one of \<open>a < b\<close>, \<open>b < a\<close> and
  \<open>a == b\<close> holds, \<open><\<close> and \<open>==\<close> are transitive and respect each other, \<open>compare\<close> is 0 exactly for equal values and its sign tells the
  order.
\<close>

theorem comparison_is_total_order:
  assumes "nan_free a" "nan_free b" "nan_free c"
  shows "one_of (value_less a b) (value_gt a b) (value_equal a b) \<and>
    (value_le a b \<and> value_le b c \<longrightarrow> value_le a c) \<and> (value_equal a b \<and> value_equal b c \<longrightarrow> value_equal a c) \<and>
    (value_compare a b = 0 \<longleftrightarrow> value_equal a b) \<and> (value_compare a b < 0 \<longleftrightarrow> value_less a b) \<and>
    (value_less a b \<and> value_equal b c \<longrightarrow> value_less a c)"
  using value_order_total(1) [OF assms(1,2)] value_order_total(1) [OF assms(2,3)] value_order_total(1) [OF assms(1,3)]
    value_order_trans(1) [OF assms]
  by (auto simp: one_of_def chain_def value_gt_def value_le_def value_compare_def)

theorem comparison_is_total_order_witness:
  "value_compare (Value_of_Int 1) (Value_of_Int 2) < 0 \<longleftrightarrow> value_less (Value_of_Int 1) (Value_of_Int 2)"
  using comparison_is_total_order [of "Value_of_Int 1" "Value_of_Int 2" nullSingleton]
  by (simp add: Value_of_Int_def initBasic_def nullSingleton_def Value_of_type_def)

end
