(* ===== verification/Spec2Isabelle.thy ===== *)
theory Spec2Isabelle
  imports Sensor_Task_Props Firebase_Requests Firebase_Store Json_Styled_Layout Json_Streams Json_Path
    Json_Iterator Json_Order
begin

text \<open>
  \<^bold>\<open>A verification of the ESP32-WROVER-PPP-AMB firmware.\<close>

  The firmware measures air quality with two I2C sensors, brings up a cellular link with a SIM7600 modem, asks a
  geolocation service for the city, and uploads averages to a Firebase Realtime Database over HTTPS. It carries its own copy
  of the JsonCpp library. This development models the firmware's own code and the JSON library as functions over explicit
  states and proves what makes them correct.

  \<^bold>\<open>Parts and theories.\<close>

  \<^item> \<open>Prelude\<close>: error codes, buffers with bounds, C strings, decimal numbers, the locale \<open>chunk_buffer\<close> for buffers filled
    chunk by chunk. \<open>C_Lib\<close>: the C library functions the code calls (\<open>strtol\<close>, \<open>strstr\<close>, \<open>sscanf\<close>-like parsing). \<open>Ieee\<close>: IEEE rounding
    of floats and doubles as functions on rationals. \<open>Esp_Http\<close>: the interface of the ESP-IDF HTTP client, a record of functions
    that is a parameter of everything that uses it. \<open>Std_Map\<close>: \<open>std::map\<close> as sorted association lists, with the locale of ordered
    maps and its interpretation.
  \<^item> \<open>Sensors\<close>, \<open>Sensors_Props\<close> (\<open>src/main/sensors.c\<close>): CRC-8, SEN5x and SCD4x commands and decoding, the JSON payload. The I2C
    driver is a parameter.
  \<^item> \<open>Modem\<close>, \<open>Modem_Props\<close> (\<open>src/main/modem_ppp.c\<close>): AT replies, registration and cell queries, PPP start, geolocation request.
    The modem driver, GPIO, network interface and HTTP client are parameters.
  \<^item> \<open>Firebase\<close>, \<open>Firebase_Props\<close>, \<open>Firebase_Requests\<close>, \<open>Firebase_Store\<close> (\<open>src/components/esp_firebase/\<close>): the receive buffer and HTTP event
    handler, requests with retries, authentication and token renewal, the database operations, the C interface. What every operation
    keeps is proved once, in the locales \<open>exchange_invariant\<close>, \<open>token_invariant\<close> and \<open>io_invariant\<close>. \<open>Firebase_Requests\<close> says which requests
    the deletions send; \<open>Firebase_Store\<close> what a database that keeps documents is (\<open>keeps_documents\<close>), and gives one.
  \<^item> \<open>Sensor_Task\<close>, \<open>Sensor_Task_Props\<close> (\<open>src/main/main.c\<close>): the measuring task as a start and a loop step, \<open>app_main\<close>. The
    reachable states of the task are an inductive relation, with the list of the readings that led there.
  \<^item> \<open>Json_Tool\<close> (\<open>json_tool.h\<close>, number and string conversion of \<open>json_writer.cpp\<close>), \<open>Json_Value\<close> (\<open>json_value.cpp\<close>, \<open>value.h\<close>),
    \<open>Json_Reader\<close>, \<open>Json_Reader_Props\<close> (class \<open>Reader\<close> of \<open>json_reader.cpp\<close>), \<open>Json_Writer\<close> (\<open>FastWriter\<close>), \<open>Json_Styled\<close>,
    \<open>Json_Styled_Props\<close>, \<open>Json_Styled_Layout\<close> (the writers with indentation and \<open>StreamWriterBuilder\<close>). \<open>Json_Order\<close>: the comparison
    operators. \<open>Json_Path\<close>: class \<open>Path\<close>. \<open>Json_Iterator\<close> (\<open>json_valueiterator.inl\<close>): iterators, with the locale \<open>iterator_range\<close>.
  \<^item> \<open>Our_Reader\<close>, \<open>Our_Reader_Props\<close> (class \<open>OurReader\<close> of \<open>json_reader.cpp\<close>): the second parser with its options; what it repeats of
    \<open>Reader\<close> word for word is shared, since the states of both extend one record (\<open>Scanner\<close>), and the proofs about both are one, in the locale
    \<open>token_reader\<close> with an interpretation for each. \<open>Json_Char_Reader\<close>: \<open>CharReaderBuilder\<close>, \<open>parseFromStream\<close>, \<open>operator>>\<close>.
    \<open>Our_Reader_Agrees\<close>: a simulation between the two parsers. \<open>Json_Streams\<close>: \<open>operator<<\<close> and \<open>operator>>\<close> composed.
  \<^item> \<open>Json_Text\<close>, \<open>Json_Reading\<close>, \<open>Json_Layout\<close>, \<open>Json_Roundtrip\<close>: what the reader does on a text that is known. \<open>layout v t\<close> says that
    \<open>t\<close> is JSON for \<open>v\<close> with any white space; \<open>parse_layout\<close> that the reader accepts it and rebuilds \<open>v\<close>; the writers produce layouts.

  \<^bold>\<open>Conventions.\<close> Operations keep the source's names (a suffix or class prefix where HOL has the name). An operation that may fail
  returns \<open>'a outcome\<close> (an abort of the JSON library or the value) or \<open>'a res\<close> (also \<open>OutOfFuel\<close>); ESP-IDF code returns the error
  code with the new state. Writes outside a buffer are the value \<open>None\<close> of \<open>mem_write\<close> and abort the model, so a theorem that an operation
  ends normally includes that every write is in bounds. So do a receive buffer that is read without containing a NUL and a null HTTP client
  that is passed on; a wait without a timeout that never ends is the result \<open>None\<close>. 32- and 64-bit integers are words where they can wrap.

  \<^bold>\<open>Fuel.\<close> \<open>readValue\<close> and the container loops recurse through the reader's state; they carry fuel, and \<open>parse\<close> starts with
  \<open>parse_fuel d = 2 * length d + 2\<close>, as does \<open>our_parse\<close>. \<open>parse_terminates_inside_document\<close> and
  \<open>our_parse_terminates_inside_document\<close> prove that this never runs out: every turn of a loop and every level of nesting consumes a
  character. The loop of \<open>makePath\<close> may run for ever and is a partial function; \<open>makePath_returns\<close> says when it returns. All other loops are
  structural or have termination proofs.

  \<^bold>\<open>Hypotheses on code outside the repository.\<close> A theorem about the effect of a request names the one exchange it is about (\<open>replies\<close>);
  \<open>counts\<close>, \<open>sends\<close>, \<open>records_request\<close> and \<open>keeps_documents\<close> say what the HTTP client's setters and \<open>esp_http_client_perform\<close> do with the world;
  \<open>client_available\<close> that \<open>esp_http_client_init\<close> creates a client. Each has an instance among the witnesses.

  \<^bold>\<open>What is proved.\<close> Buffers are never overrun, by the Firebase operations (once the client exists), the modem code and the measuring task,
  whatever the servers and devices do; both JSON parsers terminate inside the document, comments collected or not, fail only at their documented limits, leave a
  well-formed value, and agree on every array or object that the first accepts; documents written by any of the writers are read back, and
  a value written to a stream is read back from it; a value stored with \<open>putData\<close> is returned by \<open>getData\<close> (below); arrays refine lists,
  objects refine maps, a value stored at a path is found there, iterators visit the members, and the comparison operators are a total order;
  the accumulators of the measuring task are the sums of the readings since the last batch, it keeps the retention bound and uploads the means
  after every fifth reading; the deletion of old days sends the requests for exactly those days; corrupted sensor words are
  rejected; requests, registration and geolocation end within their attempts; and several defects (see the error properties).

  \<^bold>\<open>Not modelled.\<close> Which heap block owns a string or a map of a JSON value (values are functional, so copying is the identity but for the
  checks it makes, and releasing is nothing); logging (but for the log line that reads the receive buffer) and delays; the declarations in the headers that have no behaviour, among them the
  forward declarations, the configuration macros (\<open>config.h\<close>, \<open>version.h\<close>) and the allocator for secure memory, which the firmware does not
  enable; and the credentials in \<open>Privado.example.h\<close>, which are parameters. The HTTP client, the I2C, modem and network drivers, NVS, SNTP and
  the clock of ESP-IDF are not part of the repository and are parameters of the model.
\<close>

section \<open>A value written to the database is read back\<close>

text \<open>
  C7. A JSON value without reals (integers typed as the parser types them, UTF-8 strings, arrays without gaps) whose
  text fits the receive buffer, stored with \<open>putData\<close> in a database that keeps documents, is returned by \<open>getData\<close> at the
  same path: the HTTP client, the writer, the receive buffer and the parser together lose nothing.
\<close>

theorem getData_after_putData:
  assumes "keeps_documents api h req docs" "app_ok a" "client_handler a" "client a = Some h"
    "plain v" "nesting v \<le> stackLimit_g" "length (FastWriter_write FastWriter_default v) < HTTP_RECV_BUFFER_SIZE"
  shows "\<exists>a' w' v' a'' w''. putData_value api base path v (a, w) = Ok (ESP_OK, a', w') \<and>
    getData api base path (a', w') = Ok (v', a'', w'') \<and> value_equal v' v \<and> docs w'' = docs w'"
proof -
  let ?t = "FastWriter_write FastWriter_default v"
  obtain s where s: "parse ?t nullSingleton False (new_reader Features_all) = Ok (True, s)" "value_equal (root s) v"
    using parse_written [OF assms(5) compact_default assms(6), of "new_reader Features_all" nullSingleton] assms(7)
    by (auto simp: HTTP_RECV_BUFFER_SIZE_def new_reader_def Features_all_def)
  have j: "json_c_str v = ?t" by (simp add: json_c_str_def written_cstr [OF assms(5)])
  obtain a' w' where p: "putData_value api base path v (a, w) = Ok (ESP_OK, a', w')" "app_ready a'" "client_handler a'" "client a' = Some h"
    "auth_token a' = auth_token a" "docs w' = (docs w)(cstr (data_url base path a) \<mapsto> ?t)"
    using put_stores [OF assms(1-4)] unfolding putData_value_def j by blast
  have d: "docs w' (cstr (data_url base path a')) = Some ?t" using p(5,6) by (simp add: data_url_def)
  have "cstr (take (HTTP_RECV_BUFFER_SIZE - 1) ?t) = ?t" using assms(7) written_cstr [OF assms(5)] by simp
  then obtain a'' w'' where "getData api base path (a', w') = Ok (root s, a'', w'')" "docs w'' = docs w'"
    using get_returns [OF assms(1) _ p(3,4) d] p(2) s(1) by (auto simp: parse_reply_def app_ready_def app_live_def)
  with p(1) s(2) show ?thesis by blast
qed

theorem getData_after_putData_witness:
  "\<exists>a' w' v' a'' w''. putData_value demo_store ''https://db'' ''/x'' demo_document (demo_app, ([], METHOD_GET, []), Map.empty) = Ok (ESP_OK, a', w') \<and>
    getData demo_store ''https://db'' ''/x'' (a', w') = Ok (v', a'', w'') \<and> value_equal v' demo_document \<and> snd w'' = snd w'"
  by (rule getData_after_putData [OF demo_store_keeps])
    (simp_all add: demo_app_fields demo_document_ok stackLimit_g_def HTTP_RECV_BUFFER_SIZE_def)

end
